(* ===== verification/Prelude.thy ===== *)
theory Prelude
  imports Main "HOL-Library.Word" "HOL-Library.AList" "HOL-Library.List_Lexorder"
    "HOL-Library.Product_Lexorder" "HOL-Library.Sublist"
begin

text \<open>
  Vocabulary shared by the component theories: the machine integers of the Rust sources, the
  outcome of a fallible call, hash maps with an explicit iteration order, quorum arithmetic and
  reachability of step systems, each with the lemmas the components use.

  The workspace is compiled with overflow checks in every profile, so an arithmetic overflow is a
  panic and never a wrap-around; \<open>checked_add\<close> and its kin return \<open>None\<close> for it.
\<close>

unbundle bit_operations_syntax

named_theorems outcome_simps \<open>evaluation of outcomes\<close>
named_theorems hm_simps \<open>lookup after an update of a hash map\<close>
named_theorems model_defs \<open>definitions a component unfolds in its own proofs\<close>

type_synonym u8 = "8 word"
type_synonym u16 = "16 word"
type_synonym u32 = "32 word"
type_synonym u64 = "64 word"
type_synonym bytes = "u8 list"

section \<open>Outcomes\<close>

text \<open>
  \<open>Ok\<close> is a normal return, \<open>Bail\<close> an \<open>Err\<close> the caller sees (an \<open>anyhow::bail\<close>, an
  \<open>ensure\<close> or a returned error value), \<open>Panic\<close> a panic of the thread.
\<close>

datatype 'a outcome = Ok 'a | Bail string | Panic string

fun obind :: "'a outcome \<Rightarrow> ('a \<Rightarrow> 'b outcome) \<Rightarrow> 'b outcome" where
  "obind (Ok a) f = f a"
| "obind (Bail e) f = Bail e"
| "obind (Panic e) f = Panic e"

definition ensure :: "bool \<Rightarrow> string \<Rightarrow> unit outcome" where
  "ensure b msg = (if b then Ok () else Bail msg)"

definition expect :: "'a option \<Rightarrow> string \<Rightarrow> 'a outcome" where
  "expect x msg = (case x of None \<Rightarrow> Panic msg | Some a \<Rightarrow> Ok a)"

section \<open>Checked machine arithmetic\<close>

definition checked_add :: "'a::len word \<Rightarrow> 'a word \<Rightarrow> 'a word option" where
  "checked_add a b = (if unat a + unat b < 2 ^ LENGTH('a) then Some (a + b) else None)"

definition div_ceil :: "nat \<Rightarrow> nat \<Rightarrow> nat" where
  "div_ceil a b = (if a mod b = 0 then a div b else a div b + 1)"

section \<open>Hash maps\<close>

text \<open>
  A \<open>HashMap\<close> is the list of its entries, in the order an iterator would yield them; the order is
  arbitrary, so what is proved for every list holds for every iteration order. Two lists denote the
  same map when \<open>hm_get\<close> agrees on them.
\<close>

type_synonym ('k, 'v) hmap = "('k \<times> 'v) list"

definition hm_wf :: "('k, 'v) hmap \<Rightarrow> bool" where
  "hm_wf m = distinct (map fst m)"

definition hm_get :: "('k, 'v) hmap \<Rightarrow> 'k \<Rightarrow> 'v option" where
  "hm_get m k = map_of m k"

definition hm_insert :: "'k \<Rightarrow> 'v \<Rightarrow> ('k, 'v) hmap \<Rightarrow> ('k, 'v) hmap" where
  "hm_insert k v m = AList.update k v m"

definition hm_remove :: "'k \<Rightarrow> ('k, 'v) hmap \<Rightarrow> ('k, 'v) hmap" where
  "hm_remove k m = AList.delete k m"

definition hm_contains :: "('k, 'v) hmap \<Rightarrow> 'k \<Rightarrow> bool" where
  "hm_contains m k = (hm_get m k \<noteq> None)"

definition hm_keys :: "('k, 'v) hmap \<Rightarrow> 'k list" where
  "hm_keys m = map fst m"

definition hm_len :: "('k, 'v) hmap \<Rightarrow> nat" where
  "hm_len m = length m"

definition hm_retain :: "('k \<Rightarrow> 'v \<Rightarrow> bool) \<Rightarrow> ('k, 'v) hmap \<Rightarrow> ('k, 'v) hmap" where
  "hm_retain P m = filter (\<lambda>(k, v). P k v) m"

definition hm_map_values :: "('v \<Rightarrow> 'w) \<Rightarrow> ('k, 'v) hmap \<Rightarrow> ('k, 'w) hmap" where
  "hm_map_values f m = map (\<lambda>(k, v). (k, f v)) m"

text \<open>\<open>entry(k).and_modify(f).or_insert(d)\<close>.\<close>

definition hm_modify_or_insert :: "'k \<Rightarrow> ('v \<Rightarrow> 'v) \<Rightarrow> 'v \<Rightarrow> ('k, 'v) hmap \<Rightarrow> ('k, 'v) hmap" where
  "hm_modify_or_insert k f d m =
     hm_insert k (case hm_get m k of None \<Rightarrow> d | Some v \<Rightarrow> f v) m"

text \<open>\<open>HashMap\<close> equality: the same entries, in any order.\<close>

definition hm_eq :: "('k, 'v) hmap \<Rightarrow> ('k, 'v) hmap \<Rightarrow> bool" where
  "hm_eq m n = (length m = length n \<and> list_all (\<lambda>(k, v). hm_get n k = Some v) m)"

section \<open>Reachable states\<close>

inductive reach :: "('s \<Rightarrow> bool) \<Rightarrow> ('s \<Rightarrow> 'e \<Rightarrow> 's \<Rightarrow> bool) \<Rightarrow> 's \<Rightarrow> bool"
  for start step where
  reach_start: "start s \<Longrightarrow> reach start step s"
| reach_step: "reach start step s \<Longrightarrow> step s e t \<Longrightarrow> reach start step t"

lemma obind_assoc: "obind (obind x f) g = obind x (\<lambda>a. obind (f a) g)"
  by (cases x) simp_all

lemma obind_eq_Ok [simp]: "obind x f = Ok b \<longleftrightarrow> (\<exists>a. x = Ok a \<and> f a = Ok b)"
  by (cases x) simp_all

lemma obind_eq_Panic: "obind x f = Panic e \<longleftrightarrow> x = Panic e \<or> (\<exists>a. x = Ok a \<and> f a = Panic e)"
  by (cases x) simp_all

lemma ensure_eq_Ok [simp]: "ensure b m = Ok u \<longleftrightarrow> b"
  by (simp add: ensure_def)

lemma ensure_True [simp, outcome_simps]: "ensure True m = Ok ()"
  by (simp add: ensure_def)

lemma ensure_False [simp, outcome_simps]: "ensure False m = Bail m"
  by (simp add: ensure_def)

lemma expect_simps [simp, outcome_simps]:
  "expect None m = Panic m" "expect (Some a) m = Ok a"
  by (simp_all add: expect_def)

lemma expect_eq_Ok [simp]: "expect x m = Ok a \<longleftrightarrow> x = Some a"
  by (cases x) simp_all

lemma checked_add_Some:
  fixes a b :: "'a::len word"
  shows "checked_add a b = Some c \<longleftrightarrow> c = a + b \<and> unat a + unat b < 2 ^ LENGTH('a)"
  by (auto simp: checked_add_def)

lemma unat_checked_add: "checked_add a b = Some c \<Longrightarrow> unat c = unat a + unat b"
  by (auto simp: checked_add_def unat_word_ariths split: if_splits)

lemma div_ceil_half: "div_ceil (n + 1) 2 = n div 2 + 1"
  unfolding div_ceil_def by presburger

lemma div_ceil_ge: "0 < b \<Longrightarrow> a \<le> div_ceil a b * b"
proof -
  assume "0 < b"
  then have "a mod b \<le> b" by simp
  then have "a \<le> a div b * b + b"
    using div_mult_mod_eq [of a b] by linarith
  then show ?thesis
    using div_mult_mod_eq [of a b] by (auto simp: div_ceil_def)
qed

lemma div_ceil_add_self: "0 < b \<Longrightarrow> div_ceil (a + b) b = Suc (div_ceil a b)"
  by (simp add: div_ceil_def div_add_self2)

lemma div_ceil_small: "0 < a \<Longrightarrow> a < b \<Longrightarrow> div_ceil a b = Suc 0"
  by (simp add: div_ceil_def)

lemma div_ceil_0 [simp]: "div_ceil 0 b = 0"
  by (simp add: div_ceil_def)

section \<open>Laws of hash maps\<close>

text \<open>
  The contract the component theories rely on: what a lookup returns after an update, and that
  every update keeps the keys distinct.
\<close>

locale keyed_map =
  fixes get :: "'m \<Rightarrow> 'k \<Rightarrow> 'v option"
    and ins :: "'k \<Rightarrow> 'v \<Rightarrow> 'm \<Rightarrow> 'm"
    and del :: "'k \<Rightarrow> 'm \<Rightarrow> 'm"
    and wf :: "'m \<Rightarrow> bool"
    and size_of :: "'m \<Rightarrow> nat"
  assumes get_ins: "get (ins k v m) k' = (if k' = k then Some v else get m k')"
    and get_del: "get (del k m) k' = (if k' = k then None else get m k')"
    and wf_ins: "wf m \<Longrightarrow> wf (ins k v m)"
    and wf_del: "wf m \<Longrightarrow> wf (del k m)"
    and size_card: "wf m \<Longrightarrow> size_of m = card (dom (get m)) \<and> finite (dom (get m))"
begin

lemma get_ins_same [simp]: "get (ins k v m) k = Some v"
  by (simp add: get_ins)

lemma get_ins_other [simp]: "k' \<noteq> k \<Longrightarrow> get (ins k v m) k' = get m k'"
  by (simp add: get_ins)

lemma get_del_same [simp]: "get (del k m) k = None"
  by (simp add: get_del)

lemma get_del_other [simp]: "k' \<noteq> k \<Longrightarrow> get (del k m) k' = get m k'"
  by (simp add: get_del)

lemma dom_ins: "dom (get (ins k v m)) = insert k (dom (get m))"
  by (auto simp: dom_def get_ins)

lemma dom_del: "dom (get (del k m)) = dom (get m) - {k}"
  by (auto simp: dom_def get_del)

lemma size_ins_fresh: "wf m \<Longrightarrow> get m k = None \<Longrightarrow> size_of (ins k v m) = Suc (size_of m)"
  using size_card [of m] size_card [of "ins k v m"] by (auto simp: dom_ins wf_ins domIff)

lemma size_del_present: "wf m \<Longrightarrow> get m k = Some v \<Longrightarrow> Suc (size_of (del k m)) = size_of m"
  using size_card [of m] size_card [of "del k m"]
  by (simp add: dom_del wf_del) (metis card_Suc_Diff1 domI)

end

interpretation hm: keyed_map hm_get hm_insert hm_remove hm_wf hm_len
proof unfold_locales
  fix k k' :: 'k and v :: 'v and m :: "('k, 'v) hmap"
  show "hm_get (hm_insert k v m) k' = (if k' = k then Some v else hm_get m k')"
    by (simp add: hm_get_def hm_insert_def update_conv')
  show "hm_get (hm_remove k m) k' = (if k' = k then None else hm_get m k')"
    by (simp add: hm_get_def hm_remove_def delete_conv')
  show "hm_wf (hm_insert k v m)" if "hm_wf m"
    using that by (simp add: hm_wf_def hm_insert_def distinct_update)
  show "hm_wf (hm_remove k m)" if "hm_wf m"
    using that by (simp add: hm_wf_def hm_remove_def distinct_delete)
  show "hm_len m = card (dom (hm_get m)) \<and> finite (dom (hm_get m))" if "hm_wf m"
  proof -
    have "dom (hm_get m) = set (map fst m)"
      by (simp add: hm_get_def [abs_def] dom_map_of_conv_image_fst)
    then show ?thesis
      using that distinct_card [of "map fst m"] by (simp add: hm_wf_def hm_len_def)
  qed
qed

lemmas [hm_simps] = hm.get_ins hm.get_del hm_contains_def

lemma hm_wf_Nil [simp]: "hm_wf []"
  by (simp add: hm_wf_def)

lemma hm_get_Nil [simp]: "hm_get [] k = None"
  by (simp add: hm_get_def)

lemma hm_dom_Nil [simp]: "dom (hm_get []) = {}"
  by (simp add: dom_def)

lemma hm_keys_set [simp]: "set (hm_keys m) = dom (hm_get m)"
  by (simp add: hm_keys_def hm_get_def [abs_def] dom_map_of_conv_image_fst)

lemma hm_get_retain: "hm_wf m \<Longrightarrow>
    hm_get (hm_retain P m) k = (case hm_get m k of None \<Rightarrow> None | Some v \<Rightarrow> if P k v then Some v else None)"
  unfolding hm_wf_def hm_get_def hm_retain_def
  by (induction m) (auto split: option.splits simp: map_of_eq_None_iff)

lemma hm_wf_retain: "hm_wf m \<Longrightarrow> hm_wf (hm_retain P m)"
  unfolding hm_wf_def hm_retain_def by (induction m) auto

lemma hm_get_map_values [hm_simps]: "hm_get (hm_map_values f m) k = map_option f (hm_get m k)"
  unfolding hm_get_def hm_map_values_def by (induction m) auto

lemma hm_keys_map_values [simp]: "hm_keys (hm_map_values f m) = hm_keys m"
  by (simp add: hm_keys_def hm_map_values_def comp_def case_prod_unfold)

lemma hm_wf_map_values [simp]: "hm_wf (hm_map_values f m) = hm_wf m"
  by (simp add: hm_wf_def hm_map_values_def comp_def case_prod_unfold)

lemma hm_get_modify_or_insert [hm_simps]:
  "hm_get (hm_modify_or_insert k f d m) k' =
     (if k' = k then Some (case hm_get m k of None \<Rightarrow> d | Some v \<Rightarrow> f v) else hm_get m k')"
  by (simp add: hm_modify_or_insert_def hm.get_ins)

lemma hm_wf_modify_or_insert: "hm_wf m \<Longrightarrow> hm_wf (hm_modify_or_insert k f d m)"
  by (simp add: hm_modify_or_insert_def hm.wf_ins)

lemma hm_get_SomeD: "hm_get m k = Some v \<Longrightarrow> (k, v) \<in> set m"
  by (simp add: hm_get_def map_of_SomeD)

lemma hm_get_iff: "hm_wf m \<Longrightarrow> hm_get m k = Some v \<longleftrightarrow> (k, v) \<in> set m"
  by (simp add: hm_get_def hm_wf_def map_of_eq_Some_iff)

lemma hm_insert_fresh: "hm_get m k = None \<Longrightarrow> hm_insert k v m = m @ [(k, v)]"
  unfolding hm_get_def hm_insert_def by (induction m) (auto split: if_splits)

lemma hm_get_set_eq:
  assumes "hm_wf m" and "hm_wf n" and "set m = set n"
  shows "hm_get m = hm_get n"
proof
  fix k
  show "hm_get m k = hm_get n k"
    using hm_get_iff [OF assms(1), of k] hm_get_iff [OF assms(2), of k] assms(3) by (metis option.exhaust)
qed

lemma hm_wf_sort [simp]: "hm_wf (sort_key f m) = hm_wf m"
  by (simp add: hm_wf_def distinct_map)

lemma hm_get_sort: "hm_wf m \<Longrightarrow> hm_get (sort_key f m) = hm_get m"
  by (rule hm_get_set_eq) simp_all

section \<open>Step systems\<close>

text \<open>An invariant of the start states that every step keeps holds in every reachable state.\<close>

locale inductive_invariant =
  fixes start :: "'s \<Rightarrow> bool" and step :: "'s \<Rightarrow> 'e \<Rightarrow> 's \<Rightarrow> bool" and inv :: "'s \<Rightarrow> bool"
  assumes inv_start: "start s \<Longrightarrow> inv s"
    and inv_step: "inv s \<Longrightarrow> step s e t \<Longrightarrow> inv t"
begin

lemma reach_inv: "reach start step s \<Longrightarrow> inv s"
  by (induction rule: reach.induct) (auto intro: inv_start inv_step)

end

section \<open>Quorums\<close>

text \<open>
  A vote threshold above one half of the committee: any two groups of voters that reach it share a
  member.
\<close>

lemma subsets_overlap:
  assumes "finite S" and "A \<subseteq> S" and "B \<subseteq> S" and "card S < card A + card B"
  shows "A \<inter> B \<noteq> {}"
proof
  assume "A \<inter> B = {}"
  with assms(1-3) have "card A + card B = card (A \<union> B)"
    by (metis card_Un_disjoint finite_subset)
  also have "\<dots> \<le> card S"
    using assms(1-3) by (intro card_mono) auto
  finally show False using assms(4) by simp
qed

locale majority =
  fixes target :: "nat \<Rightarrow> nat"
  assumes above_half: "n < 2 * target n"
begin

lemma quorums_intersect:
  assumes "finite S" and "A \<subseteq> S" and "B \<subseteq> S"
    and "target (card S) \<le> card A" and "target (card S) \<le> card B"
  shows "A \<inter> B \<noteq> {}"
  using assms above_half [of "card S"] by (intro subsets_overlap [of S]) auto

lemma target_pos: "0 < n \<Longrightarrow> 0 < target n"
  using above_half [of n] by linarith

end

end
