(* ===== verification/Block_Keepers.thy ===== *)
theory Block_Keepers
  imports Prelude "HOL-Library.Multiset"
begin

text \<open>
  The block keeper set (src/node/src/block_keeper_system/mod.rs), its update by the common section
  of a block (bk_set.rs there) and the selection of the block producer from it
  (src/node/src/types/bp_selector.rs).
  The shuffle of the \<open>rand\<close> crate is a parameter: a function of the seed and the list, of which only
  \<open>shuffle_permutes\<close> is assumed.
\<close>

section \<open>The block keeper set\<close>

type_synonym signer_index = u16
type_synonym pub_key = bytes
type_synonym node_identifier = bytes

datatype block_keeper_status = PreEpoch | Active | CalledToFinish | Expired

record block_keeper_data =
  bk_pubkey :: pub_key
  bk_epoch_finish_seq_no :: "u64 option"
  bk_status :: block_keeper_status
  bk_address :: string
  bk_stake :: nat
  bk_owner_address :: bytes
  bk_signer_index :: signer_index
  bk_owner_pubkey :: bytes

definition bk_node_id :: "block_keeper_data \<Rightarrow> node_identifier" where
  "bk_node_id k = bk_owner_address k"

record block_keeper_set =
  by_signer :: "(signer_index, block_keeper_data) hmap"
  signer_to_pubkey :: "(signer_index, pub_key) hmap"
  signer_by_node_id :: "(node_identifier, signer_index) hmap"

definition bk_set_new :: block_keeper_set where
  "bk_set_new = \<lparr>by_signer = [], signer_to_pubkey = [], signer_by_node_id = []\<rparr>"

definition bk_set_len :: "block_keeper_set \<Rightarrow> nat" where
  "bk_set_len s = hm_len (by_signer s)"

definition bk_set_is_empty :: "block_keeper_set \<Rightarrow> bool" where
  "bk_set_is_empty s = (by_signer s = [])"

definition bk_set_insert :: "signer_index \<Rightarrow> block_keeper_data \<Rightarrow> block_keeper_set \<Rightarrow> block_keeper_set" where
  "bk_set_insert signer_index keeper s =
     (let node_id = bk_node_id keeper
      in \<lparr>by_signer = hm_insert signer_index keeper (by_signer s),
          signer_to_pubkey = hm_insert signer_index (bk_pubkey keeper) (signer_to_pubkey s),
          signer_by_node_id = hm_insert node_id signer_index (signer_by_node_id s)\<rparr>)"

definition contains_signer :: "block_keeper_set \<Rightarrow> signer_index \<Rightarrow> bool" where
  "contains_signer s i = hm_contains (by_signer s) i"

definition get_by_signer :: "block_keeper_set \<Rightarrow> signer_index \<Rightarrow> block_keeper_data option" where
  "get_by_signer s i = hm_get (by_signer s) i"

definition get_by_node_id :: "block_keeper_set \<Rightarrow> node_identifier \<Rightarrow> block_keeper_data option" where
  "get_by_node_id s n = Option.bind (hm_get (signer_by_node_id s) n) (hm_get (by_signer s))"

definition get_pubkeys_by_signers :: "block_keeper_set \<Rightarrow> (signer_index, pub_key) hmap" where
  "get_pubkeys_by_signers s = signer_to_pubkey s"

definition get_undistributed_stake :: "block_keeper_set \<Rightarrow> signer_index set \<Rightarrow> nat" where
  "get_undistributed_stake s attested_signers =
     foldl (\<lambda>acc (signer, keeper). if signer \<notin> attested_signers then acc + bk_stake keeper else acc)
       0 (by_signer s)"

text \<open>The keys of a \<open>BTreeMap\<close> are iterated in ascending order.\<close>

definition iter_node_ids :: "block_keeper_set \<Rightarrow> node_identifier list" where
  "iter_node_ids s = sort (hm_keys (signer_by_node_id s))"

definition remove_signer ::
    "signer_index \<Rightarrow> block_keeper_set \<Rightarrow> block_keeper_data option \<times> block_keeper_set" where
  "remove_signer i s =
     (let removed = hm_get (by_signer s) i
      in (removed,
          \<lparr>by_signer = hm_remove i (by_signer s),
           signer_to_pubkey = hm_remove i (signer_to_pubkey s),
           signer_by_node_id =
             (case removed of
                Some keeper \<Rightarrow> hm_remove (bk_node_id keeper) (signer_by_node_id s)
              | None \<Rightarrow> signer_by_node_id s)\<rparr>))"

text \<open>Deserialisation rebuilds both indices from the map of keepers.\<close>

definition bk_set_deserialize :: "(signer_index, block_keeper_data) hmap \<Rightarrow> block_keeper_set" where
  "bk_set_deserialize items =
     foldl (\<lambda>s (signer, keeper).
         s\<lparr>signer_by_node_id := hm_insert (bk_node_id keeper) signer (signer_by_node_id s),
           signer_to_pubkey := hm_insert signer (bk_pubkey keeper) (signer_to_pubkey s)\<rparr>)
       \<lparr>by_signer = items, signer_to_pubkey = [], signer_by_node_id = []\<rparr> items"

section \<open>Changes of the set\<close>

datatype block_keeper_set_change =
    BlockKeeperAdded signer_index block_keeper_data
  | BlockKeeperRemoved signer_index block_keeper_data
  | FutureBlockKeeperAdded signer_index block_keeper_data

fun update_remove_pass :: "block_keeper_set_change list \<Rightarrow> block_keeper_set \<Rightarrow> block_keeper_set" where
  "update_remove_pass [] bk = bk"
| "update_remove_pass (BlockKeeperRemoved i d # cs) bk = update_remove_pass cs (snd (remove_signer i bk))"
| "update_remove_pass (_ # cs) bk = update_remove_pass cs bk"

fun update_add_pass ::
    "block_keeper_set_change list \<Rightarrow> block_keeper_set \<Rightarrow> block_keeper_set \<Rightarrow>
     block_keeper_set \<times> block_keeper_set" where
  "update_add_pass [] bk fut = (bk, fut)"
| "update_add_pass (BlockKeeperAdded i d # cs) bk fut =
     update_add_pass cs (bk_set_insert i d bk)
       (if contains_signer fut i then snd (remove_signer i fut) else fut)"
| "update_add_pass (_ # cs) bk fut = update_add_pass cs bk fut"

fun update_future_pass :: "block_keeper_set_change list \<Rightarrow> block_keeper_set \<Rightarrow> block_keeper_set" where
  "update_future_pass [] fut = fut"
| "update_future_pass (FutureBlockKeeperAdded i d # cs) fut = update_future_pass cs (bk_set_insert i d fut)"
| "update_future_pass (_ # cs) fut = update_future_pass cs fut"

definition update_block_keeper_set_from_common_section ::
    "block_keeper_set_change list \<Rightarrow> block_keeper_set \<Rightarrow> block_keeper_set \<Rightarrow>
     (block_keeper_set \<times> block_keeper_set) option" where
  "update_block_keeper_set_from_common_section changes current current_future =
     (if changes = [] then None
      else
        (let bk = update_remove_pass changes current;
             (bk', fut) = update_add_pass changes bk current_future
         in Some (bk', update_future_pass changes fut)))"

section \<open>Selection of the producer\<close>

record producer_selector =
  rng_seed_block_id :: bytes
  ps_index :: nat

type_synonym shuffle_fn = "bytes \<Rightarrow> node_identifier list \<Rightarrow> node_identifier list"

fun find_position :: "('a \<Rightarrow> bool) \<Rightarrow> 'a list \<Rightarrow> nat option" where
  "find_position P [] = None"
| "find_position P (x # xs) = (if P x then Some 0 else map_option Suc (find_position P xs))"

definition get_producer_node_id ::
    "shuffle_fn \<Rightarrow> producer_selector \<Rightarrow> block_keeper_set \<Rightarrow> node_identifier outcome" where
  "get_producer_node_id shuffle sel bk =
     (let l = shuffle (rng_seed_block_id sel) (iter_node_ids bk)
      in if \<not> ps_index sel < length l then Bail ''Producer selector index out of bounds''
         else Ok (l ! ps_index sel))"

definition is_node_bp ::
    "shuffle_fn \<Rightarrow> producer_selector \<Rightarrow> block_keeper_set \<Rightarrow> node_identifier \<Rightarrow> bool outcome" where
  "is_node_bp shuffle sel bk node_id =
     obind (get_producer_node_id shuffle sel bk) (\<lambda>p. Ok (p = node_id))"

definition get_distance_from_bp ::
    "shuffle_fn \<Rightarrow> producer_selector \<Rightarrow> block_keeper_set \<Rightarrow> node_identifier \<Rightarrow> nat option" where
  "get_distance_from_bp shuffle sel bk node_id =
     (let sorted_node_id_list = iter_node_ids bk;
          total_bk_cnt = length sorted_node_id_list
      in if ps_index sel \<ge> total_bk_cnt then None
         else case find_position (\<lambda>n. n = node_id) (shuffle (rng_seed_block_id sel) sorted_node_id_list) of
                Some position \<Rightarrow>
                  Some (if position \<ge> ps_index sel then position - ps_index sel
                        else total_bk_cnt - ps_index sel + position)
              | None \<Rightarrow> None)"

text \<open>The remainder by an empty set's length panics.\<close>

definition check_whether_this_node_is_bp ::
    "shuffle_fn \<Rightarrow> producer_selector \<Rightarrow> block_keeper_set \<Rightarrow> node_identifier \<Rightarrow> nat \<Rightarrow> bool outcome" where
  "check_whether_this_node_is_bp shuffle sel bk node_id offset =
     (case get_distance_from_bp shuffle sel bk node_id of
        Some distance \<Rightarrow>
          (if bk_set_len bk = 0 then Panic ''remainder with a divisor of zero''
           else Ok (distance = offset mod bk_set_len bk))
      | None \<Rightarrow> Ok False)"

definition move_index :: "producer_selector \<Rightarrow> nat \<Rightarrow> nat \<Rightarrow> producer_selector outcome" where
  "move_index sel diff bk_set_size =
     (if bk_set_size = 0 then Panic ''remainder with a divisor of zero''
      else Ok \<lparr>rng_seed_block_id = rng_seed_block_id sel,
               ps_index = (ps_index sel + diff) mod bk_set_size\<rparr>)"

section \<open>The invariant of the set\<close>

text \<open>Signers and public keys always agree; the node index agrees too when node ids are distinct.\<close>

definition bk_keys_ok :: "block_keeper_set \<Rightarrow> bool" where
  "bk_keys_ok s = (hm_wf (by_signer s) \<and> hm_wf (signer_to_pubkey s) \<and> hm_wf (signer_by_node_id s) \<and>
     (\<forall>i. hm_get (signer_to_pubkey s) i = map_option bk_pubkey (hm_get (by_signer s) i)))"

definition bk_nodes_ok :: "block_keeper_set \<Rightarrow> bool" where
  "bk_nodes_ok s = (\<forall>n i. hm_get (signer_by_node_id s) n = Some i \<longleftrightarrow>
     (\<exists>k. hm_get (by_signer s) i = Some k \<and> bk_node_id k = n))"

text \<open>A keeper may be inserted over its own entry, or under a signer and a node id both unused.\<close>

definition may_insert :: "signer_index \<Rightarrow> block_keeper_data \<Rightarrow> block_keeper_set \<Rightarrow> bool" where
  "may_insert i k s =
     (case get_by_signer s i of
        Some k' \<Rightarrow> bk_node_id k' = bk_node_id k
      | None \<Rightarrow> get_by_node_id s (bk_node_id k) = None \<and> hm_get (signer_by_node_id s) (bk_node_id k) = None)"

lemmas bk_set_defs [model_defs] = bk_set_insert_def remove_signer_def Let_def

lemma bk_keys_ok_new [simp]: "bk_keys_ok bk_set_new" "bk_nodes_ok bk_set_new"
  by (simp_all add: bk_keys_ok_def bk_nodes_ok_def bk_set_new_def)

lemma bk_keys_ok_insert [simp]: "bk_keys_ok s \<Longrightarrow> bk_keys_ok (bk_set_insert i k s)"
  by (simp add: bk_keys_ok_def bk_set_insert_def Let_def hm.wf_ins hm.get_ins)

lemma bk_keys_ok_remove [simp]: "bk_keys_ok s \<Longrightarrow> bk_keys_ok (snd (remove_signer i s))"
  by (simp add: bk_keys_ok_def remove_signer_def Let_def hm.wf_del hm.get_del split: option.split)

lemma bk_nodes_okD: "bk_nodes_ok s \<Longrightarrow> hm_get (signer_by_node_id s) n = Some i \<longleftrightarrow>
    (\<exists>k. hm_get (by_signer s) i = Some k \<and> bk_node_id k = n)"
  by (simp add: bk_nodes_ok_def)

lemma bk_nodes_ok_insert:
  assumes "bk_nodes_ok s" and "may_insert i k s"
  shows "bk_nodes_ok (bk_set_insert i k s)"
  unfolding bk_nodes_ok_def
proof (intro allI)
  fix n j
  note ok = bk_nodes_okD [OF assms(1)]
  have other: "j = i" if "hm_get (by_signer s) j = Some k'" "bk_node_id k' = bk_node_id k" for k'
    using that ok [of "bk_node_id k" j] ok [of "bk_node_id k" i] assms(2)
    by (auto simp: may_insert_def get_by_signer_def split: option.splits)
  have same: "n = bk_node_id k" if "hm_get (signer_by_node_id s) n = Some i"
    using that ok [of n i] assms(2) by (auto simp: may_insert_def get_by_signer_def)
  show "hm_get (signer_by_node_id (bk_set_insert i k s)) n = Some j \<longleftrightarrow>
      (\<exists>k'. hm_get (by_signer (bk_set_insert i k s)) j = Some k' \<and> bk_node_id k' = n)"
  proof (cases "n = bk_node_id k")
    case True
    then show ?thesis using other by (auto simp: bk_set_insert_def Let_def hm.get_ins)
  next
    case False
    then have "hm_get (signer_by_node_id s) n \<noteq> Some i" using same by blast
    with False show ?thesis
      by (cases "j = i") (simp_all add: bk_set_insert_def Let_def hm.get_ins ok)
  qed
qed

lemma bk_nodes_ok_remove:
  assumes "bk_nodes_ok s"
  shows "bk_nodes_ok (snd (remove_signer i s))"
  unfolding bk_nodes_ok_def
proof (intro allI)
  fix n j
  note ok = bk_nodes_okD [OF assms(1)]
  show "hm_get (signer_by_node_id (snd (remove_signer i s))) n = Some j \<longleftrightarrow>
      (\<exists>k'. hm_get (by_signer (snd (remove_signer i s))) j = Some k' \<and> bk_node_id k' = n)"
  proof (cases "hm_get (by_signer s) i")
    case None
    then show ?thesis using ok [of n j] by (simp add: remove_signer_def Let_def hm.get_del)
  next
    case (Some k)
    then have i: "hm_get (signer_by_node_id s) (bk_node_id k) = Some i" using ok by blast
    show ?thesis
    proof (cases "n = bk_node_id k")
      case True
      have "j = i" if "hm_get (by_signer s) j = Some k'" "bk_node_id k' = n" for k'
        using that i True ok by (metis option.inject)
      then show ?thesis using True Some by (auto simp: remove_signer_def Let_def hm.get_del)
    next
      case False
      then have "\<not> (\<exists>k'. hm_get (by_signer s) i = Some k' \<and> bk_node_id k' = n)" using Some by auto
      then show ?thesis
        using False Some by (cases "j = i") (simp_all add: remove_signer_def Let_def hm.get_del ok)
    qed
  qed
qed

lemma get_by_signer_insert [hm_simps]:
  "get_by_signer (bk_set_insert i k s) j = (if j = i then Some k else get_by_signer s j)"
  by (simp add: get_by_signer_def bk_set_insert_def Let_def hm.get_ins)

lemma get_by_signer_remove [hm_simps]:
  "get_by_signer (snd (remove_signer i s)) j = (if j = i then None else get_by_signer s j)"
  by (simp add: get_by_signer_def remove_signer_def Let_def hm.get_del)

text \<open>With both parts of the invariant the node index is a bijection, so its size is the set's.\<close>

lemma bk_node_count:
  assumes "bk_keys_ok s" and "bk_nodes_ok s"
  shows "length (iter_node_ids s) = bk_set_len s" and "distinct (iter_node_ids s)"
    and "set (iter_node_ids s) = bk_node_id ` {k. \<exists>i. get_by_signer s i = Some k}"
proof -
  let ?B = "hm_get (by_signer s)" and ?N = "hm_get (signer_by_node_id s)"
  have wf: "hm_wf (by_signer s)" "hm_wf (signer_by_node_id s)"
    using assms(1) by (simp_all add: bk_keys_ok_def)
  note ok = bk_nodes_okD [OF assms(2)]
  have img: "dom ?N = (\<lambda>i. bk_node_id (the (?B i))) ` dom ?B"
    using ok by (force simp: dom_def image_iff)
  have inj: "inj_on (\<lambda>i. bk_node_id (the (?B i))) (dom ?B)"
  proof (rule inj_onI)
    fix i j assume "i \<in> dom ?B" "j \<in> dom ?B" and eq: "bk_node_id (the (?B i)) = bk_node_id (the (?B j))"
    then obtain k l where kl: "?B i = Some k" "?B j = Some l" by auto
    then have "?N (bk_node_id k) = Some i" "?N (bk_node_id l) = Some j" using ok by blast+
    then show "i = j" using eq kl by simp
  qed
  have "hm_len (signer_by_node_id s) = hm_len (by_signer s)"
    using hm.size_card [OF wf(1)] hm.size_card [OF wf(2)] card_image [OF inj] img by simp
  then show "length (iter_node_ids s) = bk_set_len s"
    by (simp add: iter_node_ids_def bk_set_len_def hm_keys_def hm_len_def)
  show "distinct (iter_node_ids s)"
    using wf(2) by (simp add: iter_node_ids_def hm_keys_def hm_wf_def)
  show "set (iter_node_ids s) = bk_node_id ` {k. \<exists>i. get_by_signer s i = Some k}"
    using img by (force simp: iter_node_ids_def get_by_signer_def dom_def image_iff)
qed

section \<open>Reachable sets\<close>

datatype bk_set_event = InsertKeeper signer_index block_keeper_data | RemoveSigner signer_index

inductive bk_set_step :: "block_keeper_set \<Rightarrow> bk_set_event \<Rightarrow> block_keeper_set \<Rightarrow> bool" where
  step_insert_keeper: "may_insert i k s \<Longrightarrow> bk_set_step s (InsertKeeper i k) (bk_set_insert i k s)"
| step_remove_signer: "bk_set_step s (RemoveSigner i) (snd (remove_signer i s))"

interpretation bks: inductive_invariant "\<lambda>s. s = bk_set_new" bk_set_step
  "\<lambda>s. bk_keys_ok s \<and> bk_nodes_ok s"
proof unfold_locales
  show "bk_keys_ok s \<and> bk_nodes_ok s" if "s = bk_set_new" for s using that by simp
  show "bk_keys_ok t \<and> bk_nodes_ok t" if "bk_keys_ok s \<and> bk_nodes_ok s" "bk_set_step s e t" for s e t
    using that(2,1) by (induction rule: bk_set_step.induct) (auto intro: bk_nodes_ok_insert bk_nodes_ok_remove)
qed


definition example_keeper :: "u8 \<Rightarrow> nat \<Rightarrow> block_keeper_data" where
  "example_keeper b stake = \<lparr>bk_pubkey = [b], bk_epoch_finish_seq_no = None, bk_status = Active,
     bk_address = [], bk_stake = stake, bk_owner_address = replicate 32 b,
     bk_signer_index = ucast b, bk_owner_pubkey = replicate 32 b\<rparr>"

lemma reach_example_bk_set:
  "reach (\<lambda>s. s = bk_set_new) bk_set_step (bk_set_insert 5 (example_keeper 5 100) bk_set_new)"
proof -
  have "may_insert 5 (example_keeper 5 100) bk_set_new"
    by (simp add: may_insert_def get_by_signer_def get_by_node_id_def bk_set_new_def)
  then have "bk_set_step bk_set_new (InsertKeeper 5 (example_keeper 5 100))
      (bk_set_insert 5 (example_keeper 5 100) bk_set_new)"
    by (rule step_insert_keeper)
  then show ?thesis by (rule reach_step [rotated]) (simp add: reach_start)
qed


text \<open>
  Without the side condition the node index goes stale: inserting a keeper over another one leaves
  the old node id behind, and removing one of two signers of a node loses the other.
\<close>

lemma insert_over_leaves_stale_node:
  "let s = bk_set_insert 5 (example_keeper 6 100) (bk_set_insert 5 (example_keeper 5 100) bk_set_new)
   in bk_set_len s = 1 \<and> length (iter_node_ids s) = 2 \<and>
      get_by_node_id s (replicate 32 5) = Some (example_keeper 6 100)"
  by code_simp

lemma remove_signer_loses_other_signer_of_node:
  "let s = snd (remove_signer 1 (bk_set_insert 2 (example_keeper 5 100)
             (bk_set_insert 1 (example_keeper 5 100) bk_set_new)))
   in get_by_signer s 2 = Some (example_keeper 5 100) \<and> get_by_node_id s (replicate 32 5) = None"
  by code_simp

section \<open>Effect of a common section\<close>

fun added :: "block_keeper_set_change list \<Rightarrow> (signer_index \<times> block_keeper_data) list" where
  "added [] = []"
| "added (BlockKeeperAdded i d # cs) = (i, d) # added cs"
| "added (_ # cs) = added cs"

fun removed :: "block_keeper_set_change list \<Rightarrow> signer_index list" where
  "removed [] = []"
| "removed (BlockKeeperRemoved i d # cs) = i # removed cs"
| "removed (_ # cs) = removed cs"

fun future_added :: "block_keeper_set_change list \<Rightarrow> (signer_index \<times> block_keeper_data) list" where
  "future_added [] = []"
| "future_added (FutureBlockKeeperAdded i d # cs) = (i, d) # future_added cs"
| "future_added (_ # cs) = future_added cs"

lemma contains_signer_get: "contains_signer s i \<longleftrightarrow> get_by_signer s i \<noteq> None"
  by (simp add: contains_signer_def get_by_signer_def hm_contains_def)

lemma update_remove_pass_lookup:
  "get_by_signer (update_remove_pass cs s) i = (if i \<in> set (removed cs) then None else get_by_signer s i)"
  by (induction cs s rule: update_remove_pass.induct) (auto simp: get_by_signer_remove)

lemma update_add_pass_lookup:
  "get_by_signer (fst (update_add_pass cs s f)) i =
     (case map_of (rev (added cs)) i of Some d \<Rightarrow> Some d | None \<Rightarrow> get_by_signer s i)"
  "get_by_signer (snd (update_add_pass cs s f)) i =
     (if i \<in> fst ` set (added cs) then None else get_by_signer f i)"
proof (induction cs s f rule: update_add_pass.induct)
  case (2 j d cs bk fut)
  {
    case 1
    then show ?case using "2.IH"(1) by (auto simp: get_by_signer_insert map_add_def split: option.splits)
  next
    case 2
    then show ?case using "2.IH"(2)
      by (auto simp: get_by_signer_remove contains_signer_get)
  }
qed simp_all

lemma update_future_pass_lookup:
  "get_by_signer (update_future_pass cs s) i =
     (case map_of (rev (future_added cs)) i of Some d \<Rightarrow> Some d | None \<Rightarrow> get_by_signer s i)"
  by (induction cs s rule: update_future_pass.induct)
    (auto simp: get_by_signer_insert map_add_def split: option.splits)

text \<open>
  C24: a common section replaces the set in the intended way, whatever the order of its changes:
  a signer of the new set has the data of its last addition; if it is not added it is gone when it
  is removed and unchanged otherwise. A future keeper has the data of its last announcement; if it
  is not announced it leaves the future set when it is added, and is unchanged otherwise.
\<close>

theorem update_block_keeper_set_lookup:
  assumes "update_block_keeper_set_from_common_section changes bk fut = Some (bk', fut')"
  shows "get_by_signer bk' i =
      (case map_of (rev (added changes)) i of
         Some d \<Rightarrow> Some d
       | None \<Rightarrow> if i \<in> set (removed changes) then None else get_by_signer bk i) \<and>
    get_by_signer fut' i =
      (case map_of (rev (future_added changes)) i of
         Some d \<Rightarrow> Some d
       | None \<Rightarrow> if i \<in> fst ` set (added changes) then None else get_by_signer fut i)"
proof -
  have "bk' = fst (update_add_pass changes (update_remove_pass changes bk) fut)"
    and "fut' = update_future_pass changes (snd (update_add_pass changes (update_remove_pass changes bk) fut))"
    using assms by (auto simp: update_block_keeper_set_from_common_section_def Let_def
        split: if_splits prod.splits)
  then show ?thesis
    by (simp add: update_add_pass_lookup update_remove_pass_lookup update_future_pass_lookup
        cong: option.case_cong)
qed

theorem update_block_keeper_set_lookup_witness:
  "\<exists>bk' fut'. update_block_keeper_set_from_common_section
      [BlockKeeperAdded 1 (example_keeper 1 10), BlockKeeperRemoved 1 (example_keeper 2 10)]
      bk_set_new bk_set_new = Some (bk', fut') \<and>
    get_by_signer bk' 1 = Some (example_keeper 1 10) \<and> get_by_signer fut' 1 = None"
proof -
  let ?cs = "[BlockKeeperAdded 1 (example_keeper 1 10), BlockKeeperRemoved 1 (example_keeper 2 10)]"
  have "update_block_keeper_set_from_common_section ?cs bk_set_new bk_set_new \<noteq> None"
    by (simp add: update_block_keeper_set_from_common_section_def Let_def case_prod_beta)
  then obtain bk' fut' where u:
    "update_block_keeper_set_from_common_section ?cs bk_set_new bk_set_new = Some (bk', fut')"
    by fast
  show ?thesis using u update_block_keeper_set_lookup [OF u, of 1] by auto
qed

section \<open>Stakes\<close>

lemma foldl_undistributed:
  "foldl (\<lambda>acc (i, k). if i \<notin> A then acc + bk_stake k else acc) n xs =
     n + sum_list (map (\<lambda>(i, k). if i \<in> A then 0 else bk_stake k) xs)"
  by (induction xs arbitrary: n) auto

lemma undistributed_stake_partition:
  "get_undistributed_stake s A + get_undistributed_stake s (- A) = get_undistributed_stake s {}"
proof -
  have "sum_list (map (\<lambda>(i, k). if i \<in> A then 0 else bk_stake k) xs) +
      sum_list (map (\<lambda>(i, k). if i \<in> - A then 0 else bk_stake k) xs) =
      sum_list (map (\<lambda>(i, k). if i \<in> {} then 0 else bk_stake k) xs)" for xs
    by (induction xs) auto
  then show ?thesis
    by (simp only: get_undistributed_stake_def foldl_undistributed) simp
qed

section \<open>The producer of a round\<close>

text \<open>What the selection relies on: shuffling permutes the list, the same way for the same seed.\<close>

definition shuffle_permutes :: "shuffle_fn \<Rightarrow> bool" where
  "shuffle_permutes shuffle = (\<forall>seed xs. mset (shuffle seed xs) = mset xs)"

lemma find_position_eq_Some:
  assumes "distinct xs"
  shows "find_position (\<lambda>y. y = x) xs = Some p \<longleftrightarrow> p < length xs \<and> xs ! p = x"
  using assms
proof (induction xs arbitrary: p)
  case (Cons a xs)
  have "xs ! q \<noteq> a" if "q < length xs" for q
    using that Cons.prems nth_mem by fastforce
  then show ?case
    using Cons by (cases p) auto
qed simp

lemma offset_position:
  assumes "index < n" and "p < n" and "off < (n :: nat)"
  shows "(if p \<ge> index then p - index else n - index + p) = off \<longleftrightarrow> p = (index + off) mod n"
proof (cases "index + off < n")
  case True
  then show ?thesis using assms by auto
next
  case False
  then have "(index + off) mod n = index + off - n"
    using assms by (simp add: mod_if)
  then show ?thesis using assms False by auto
qed

lemma check_whether_this_node_is_bp_iff:
  assumes "shuffle_permutes shuffle" and "bk_keys_ok bk" and "bk_nodes_ok bk"
    and "ps_index sel < bk_set_len bk"
  shows "check_whether_this_node_is_bp shuffle sel bk node off =
    Ok (shuffle (rng_seed_block_id sel) (iter_node_ids bk) !
        ((ps_index sel + off) mod bk_set_len bk) = node)"
proof -
  let ?l = "shuffle (rng_seed_block_id sel) (iter_node_ids bk)" and ?n = "bk_set_len bk"
  have perm: "mset ?l = mset (iter_node_ids bk)" using assms(1) by (simp add: shuffle_permutes_def)
  then have len: "length ?l = ?n" and len': "length (iter_node_ids bk) = ?n"
    using bk_node_count(1) [OF assms(2,3)] by (metis size_mset)+
  have dist: "distinct ?l"
    using perm bk_node_count(2) [OF assms(2,3)] by (metis mset_eq_imp_distinct_iff)
  have n: "0 < ?n" using assms(4) by simp
  have at: "(ps_index sel + off mod ?n) mod ?n = (ps_index sel + off) mod ?n" by (simp add: mod_simps)
  show ?thesis
  proof (cases "find_position (\<lambda>y. y = node) ?l")
    case None
    then have "?l ! p \<noteq> node" if "p < ?n" for p
      using that find_position_eq_Some [OF dist, of node p] len by auto
    then show ?thesis
      using None n by (simp add: check_whether_this_node_is_bp_def get_distance_from_bp_def Let_def)
  next
    case (Some p)
    then have p: "p < ?n" "?l ! p = node" using find_position_eq_Some [OF dist] len by auto
    then have "?l ! ((ps_index sel + off) mod ?n) = node \<longleftrightarrow> p = (ps_index sel + off) mod ?n"
      using nth_eq_iff_index_eq [OF dist] len n by auto
    then show ?thesis
      using Some n assms(4) offset_position [OF assms(4) p(1), of "off mod ?n"] at len'
      by (simp add: check_whether_this_node_is_bp_def get_distance_from_bp_def Let_def
          split del: if_split cong: if_cong)
  qed
qed



end
