(* ===== verification/Identifiers.thy ===== *)
theory Identifiers
  imports Prelude
begin

text \<open>
  Identifiers of the node: block ids, thread ids, sequence numbers, heights, block indices and
  random seeds (src/node/src/types/), and the bit-level access to account addresses that the
  threads table is built on. Fixed-size arrays are byte lists, with their length as the
  well-formedness condition.
\<close>

section \<open>Block ids, sequence numbers, heights\<close>

datatype ordering = Less | Equal | Greater

type_synonym block_identifier = bytes
type_synonym thread_identifier = bytes
type_synonym block_seq_no = u32

definition block_id_ok :: "bytes \<Rightarrow> bool" where
  "block_id_ok b = (length b = 32)"

definition thread_id_ok :: "bytes \<Rightarrow> bool" where
  "thread_id_ok t = (length t = 34)"

definition block_identifier_default :: block_identifier where
  "block_identifier_default = replicate 32 0"

definition is_zero :: "block_identifier \<Rightarrow> bool" where
  "is_zero b = (b = block_identifier_default)"

definition ord_cmp :: "'a::linorder \<Rightarrow> 'a \<Rightarrow> ordering" where
  "ord_cmp a b = (if a < b then Less else if a = b then Equal else Greater)"

fun compare_loop :: "bytes \<Rightarrow> bytes \<Rightarrow> nat list \<Rightarrow> ordering" where
  "compare_loop a b [] = Equal"
| "compare_loop a b (i # is) =
     (case ord_cmp (a ! i) (b ! i) of
        Less \<Rightarrow> Less
      | Greater \<Rightarrow> Greater
      | Equal \<Rightarrow> compare_loop a b is)"

definition compare :: "block_identifier \<Rightarrow> block_identifier \<Rightarrow> ordering" where
  "compare a b = compare_loop a b [0..<32]"

definition next_seq_no :: "block_seq_no \<Rightarrow> block_seq_no option" where
  "next_seq_no s = checked_add s 1"

definition seq_no_saturating_sub :: "block_seq_no \<Rightarrow> u32 \<Rightarrow> block_seq_no" where
  "seq_no_saturating_sub s d = (if d \<le> s then s - d else 0)"

definition seq_no_sub :: "block_seq_no \<Rightarrow> block_seq_no \<Rightarrow> int" where
  "seq_no_sub s t = uint s - uint t"

definition seq_no_add :: "block_seq_no \<Rightarrow> u32 \<Rightarrow> block_seq_no option" where
  "seq_no_add s d = checked_add s d"

record block_height =
  bh_thread_identifier :: thread_identifier
  bh_height :: u64

definition block_height_next :: "block_height \<Rightarrow> thread_identifier \<Rightarrow> block_height option" where
  "block_height_next h t =
     (if bh_thread_identifier h = t
      then map_option (\<lambda>n. \<lparr>bh_thread_identifier = t, bh_height = n\<rparr>) (checked_add (bh_height h) 1)
      else Some \<lparr>bh_thread_identifier = t, bh_height = 0\<rparr>)"

datatype block_index = BlockIndex (bi_seq_no: block_seq_no) (bi_identifier: block_identifier)

definition block_index_cmp :: "block_index \<Rightarrow> block_index \<Rightarrow> ordering" where
  "block_index_cmp x y =
     (case ord_cmp (bi_seq_no x) (bi_seq_no y) of
        Equal \<Rightarrow> compare (bi_identifier x) (bi_identifier y)
      | other \<Rightarrow> other)"

section \<open>Thread ids\<close>

definition thread_identifier_default :: thread_identifier where
  "thread_identifier_default = replicate 34 0"

definition thread_identifier_new :: "block_identifier \<Rightarrow> u16 \<Rightarrow> thread_identifier" where
  "thread_identifier_new block_id idx =
     (ucast (drop_bit 8 idx AND 0xFF) :: u8) # (ucast (idx AND 0xFF) :: u8) # block_id"

definition is_spawning_block :: "thread_identifier \<Rightarrow> block_identifier \<Rightarrow> bool" where
  "is_spawning_block t block_id = (take 32 (drop 2 t) = block_id)"

definition spawning_block_id :: "thread_identifier \<Rightarrow> block_identifier" where
  "spawning_block_id t = take 32 (drop 2 t)"

text \<open>\<open>hex::decode\<close> is a parameter: the decoded bytes, or a decoding error.\<close>

definition thread_identifier_try_from ::
    "(string \<Rightarrow> bytes option) \<Rightarrow> string \<Rightarrow> thread_identifier outcome" where
  "thread_identifier_try_from hex_decode value =
     (case hex_decode value of
        Some array \<Rightarrow>
          (if length array = 34 then Ok array else Bail ''Expected a Vec of length 34'')
      | None \<Rightarrow> Bail ''Failed to convert to ThreadIdentifier'')"

section \<open>Random seeds\<close>

definition u32_from_be_bytes :: "bytes \<Rightarrow> u32" where
  "u32_from_be_bytes bs = foldl (\<lambda>acc b. push_bit 8 acc OR ucast b) 0 bs"

definition not_a_modulus :: "bytes \<Rightarrow> u32 \<Rightarrow> u32 option" where
  "not_a_modulus seed divider =
     (if divider = 0 then None else Some (u32_from_be_bytes (take 4 (drop 28 seed)) mod divider))"

definition rnd_seed_bitxor :: "bytes \<Rightarrow> block_identifier \<Rightarrow> bytes" where
  "rnd_seed_bitxor lhs rhs = map (\<lambda>i. lhs ! i XOR rhs ! i) [0..<32]"

section \<open>Account addresses\<close>

definition address_bitand :: "bytes \<Rightarrow> bytes \<Rightarrow> bytes" where
  "address_bitand lhs rhs = map (\<lambda>i. lhs ! i AND rhs ! i) [0..<32]"

definition get_bit_value :: "bytes \<Rightarrow> nat \<Rightarrow> bool option" where
  "get_bit_value bytes index =
     (if index \<ge> 256 then None
      else let hi = index div 8; lo = index mod 8
           in Some ((drop_bit (7 - lo) (bytes ! hi) AND 1) \<noteq> 0))"

definition set_bit_value :: "bytes \<Rightarrow> nat \<Rightarrow> bool \<Rightarrow> bytes option" where
  "set_bit_value bytes index value =
     (if \<not> value then None
      else if index \<ge> 256 then None
      else let hi = index div 8; lo = 7 - index mod 8
           in Some (bytes[hi := (bytes ! hi) OR push_bit lo 1]))"

section \<open>Facts on orders\<close>

lemma ord_cmp_simps [simp]:
  "ord_cmp a b = Less \<longleftrightarrow> a < b" "ord_cmp a b = Equal \<longleftrightarrow> a = b" "ord_cmp a b = Greater \<longleftrightarrow> b < a"
  by (auto simp: ord_cmp_def)

lemma compare_loop_Suc: "compare_loop (x # a) (y # b) (map Suc is) = compare_loop a b is"
  by (induction "is") (auto split: ordering.split)

lemma compare_loop_lexicographic:
  assumes "length a = length b"
  shows "compare_loop a b [0..<length a] = ord_cmp a b"
  using assms
proof (induction a b rule: list_induct2)
  case Nil
  then show ?case by (simp add: ord_cmp_def)
next
  case (Cons x xs y ys)
  have "compare_loop (x # xs) (y # ys) [0..<length (x # xs)] =
      (case ord_cmp x y of Less \<Rightarrow> Less | Greater \<Rightarrow> Greater | Equal \<Rightarrow> ord_cmp xs ys)"
    using Cons.IH by (simp add: upt_conv_Cons map_Suc_upt [symmetric] compare_loop_Suc
        del: upt_Suc map_Suc_upt cong: ordering.case_cong)
  then show ?case
    by (auto simp: ord_cmp_def)
qed

lemma compare_is_ord_cmp:
  "block_id_ok a \<Longrightarrow> block_id_ok b \<Longrightarrow> compare a b = ord_cmp a b"
  using compare_loop_lexicographic [of a b] by (simp add: compare_def block_id_ok_def)

instantiation block_index :: linorder
begin

definition less_eq_block_index :: "block_index \<Rightarrow> block_index \<Rightarrow> bool" where
  "less_eq_block_index x y = (bi_seq_no x < bi_seq_no y \<or>
     bi_seq_no x = bi_seq_no y \<and> bi_identifier x \<le> bi_identifier y)"

definition less_block_index :: "block_index \<Rightarrow> block_index \<Rightarrow> bool" where
  "less_block_index x y = (x \<le> y \<and> \<not> y \<le> (x::block_index))"

instance
proof
  fix x y z :: block_index
  show "(x < y) = (x \<le> y \<and> \<not> y \<le> x)" by (simp add: less_block_index_def)
  show "x \<le> x" by (simp add: less_eq_block_index_def)
  show "x \<le> z" if "x \<le> y" "y \<le> z" using that by (auto simp: less_eq_block_index_def)
  show "x = y" if "x \<le> y" "y \<le> x"
    using that by (auto simp: less_eq_block_index_def intro: block_index.expand)
  show "x \<le> y \<or> y \<le> x" by (auto simp: less_eq_block_index_def)
qed

end

text \<open>
  \<open>BlockIndex::cmp\<close>, the order the fork choice uses, is a total order on well-formed indices:
  it coincides with the lexicographic order on (sequence number, block id).
\<close>

theorem block_index_cmp_total_order:
  assumes "block_id_ok (bi_identifier x)" and "block_id_ok (bi_identifier y)"
  shows "block_index_cmp x y = ord_cmp x y"
proof (cases "bi_seq_no x = bi_seq_no y")
  case True
  then show ?thesis
    using assms
    by (auto simp: block_index_cmp_def compare_is_ord_cmp ord_cmp_def less_block_index_def
        less_eq_block_index_def intro: block_index.expand)
next
  case False
  then show ?thesis
    by (auto simp: block_index_cmp_def ord_cmp_def less_block_index_def less_eq_block_index_def
        split: ordering.splits)
qed

theorem block_index_cmp_total_order_witness:
  "block_index_cmp (BlockIndex 7 (replicate 31 0 @ [5])) (BlockIndex 7 (replicate 32 1)) =
     ord_cmp (BlockIndex 7 (replicate 31 0 @ [5])) (BlockIndex 7 (replicate 32 1)) \<and>
   block_index_cmp (BlockIndex 7 (replicate 31 0 @ [5])) (BlockIndex 7 (replicate 32 1)) = Less"
  using block_index_cmp_total_order
    [of "BlockIndex 7 (replicate 31 0 @ [5])" "BlockIndex 7 (replicate 32 1)"]
  by (simp add: block_id_ok_def) code_simp

section \<open>Thread ids never collide\<close>

lemma u16_from_bytes:
  "idx = push_bit 8 (ucast (ucast (drop_bit 8 idx AND 0xFF) :: u8))
      OR ucast (ucast (idx AND 0xFF) :: u8)"
  for idx :: u16
proof (rule bit_word_eqI)
  fix n assume n: "n < LENGTH(16)"
  have mask: "(0xFF :: u16) = mask 8" by (simp add: mask_eq_exp_minus_1)
  show "bit idx n = bit (push_bit 8 (ucast (ucast (drop_bit 8 idx AND 0xFF) :: u8))
      OR ucast (ucast (idx AND 0xFF) :: u8) :: u16) n"
    unfolding mask using n
    by (auto simp: bit_simps)
qed

text \<open>
  Thread ids never collide: \<open>ThreadIdentifier::new\<close> is injective in the pair of the block the
  thread is spawned after and the local index, and both queries recover that block.
\<close>

theorem thread_identifier_new_injective:
  assumes "block_id_ok b" and "block_id_ok c"
  shows "(thread_identifier_new b i = thread_identifier_new c j \<longleftrightarrow> b = c \<and> i = j) \<and>
    thread_id_ok (thread_identifier_new b i) \<and>
    spawning_block_id (thread_identifier_new b i) = b \<and>
    (is_spawning_block (thread_identifier_new b i) c \<longleftrightarrow> b = c)"
  using assms u16_from_bytes [of i] u16_from_bytes [of j]
  by (auto simp: thread_identifier_new_def thread_id_ok_def block_id_ok_def spawning_block_id_def
      is_spawning_block_def)

theorem thread_identifier_new_injective_witness:
  "thread_identifier_new (replicate 32 3) 258 \<noteq> thread_identifier_new (replicate 32 3) 2 \<and>
   spawning_block_id (thread_identifier_new (replicate 32 3) 258) = replicate 32 3"
  using thread_identifier_new_injective [of "replicate 32 3" "replicate 32 3" 258 2]
  by (simp add: block_id_ok_def)

section \<open>Bits of an address\<close>

lemma get_bit_value_bit:
  "i < 256 \<Longrightarrow> get_bit_value a i = Some (bit (a ! (i div 8)) (7 - i mod 8))"
  by (simp add: get_bit_value_def bit_iff_odd_drop_bit and_one_eq odd_iff_mod_2_eq_one)

lemma get_bit_value_None [simp]: "get_bit_value a i = None \<longleftrightarrow> 256 \<le> i"
  by (simp add: get_bit_value_def Let_def)

lemma byte_eq_iff_bits: "x = y \<longleftrightarrow> (\<forall>n<8. bit x n = bit y n)" for x y :: u8
  using bit_word_eqI [of x y] by auto

lemma bit_position:
  fixes n k :: nat
  assumes "n < 8"
  shows "(k * 8 + (7 - n)) div 8 = k" and "7 - (k * 8 + (7 - n)) mod 8 = n"
proof -
  have "7 - n < 8" by simp
  then show "(k * 8 + (7 - n)) div 8 = k" and "7 - (k * 8 + (7 - n)) mod 8 = n"
    using assms by (simp_all only: div_mult_self3 mod_mult_self3 div_less mod_less)
qed

lemma all_bit_positions:
  "(\<forall>j<32. \<forall>n<8. P j n) \<longleftrightarrow> (\<forall>i<256. P (i div 8) (7 - i mod 8))" for P :: "nat \<Rightarrow> nat \<Rightarrow> bool"
proof
  assume "\<forall>j<32. \<forall>n<8. P j n"
  then show "\<forall>i<256. P (i div 8) (7 - i mod 8)"
    by (auto simp: less_mult_imp_div_less)
next
  assume R: "\<forall>i<256. P (i div 8) (7 - i mod 8)"
  show "\<forall>j<32. \<forall>n<8. P j n"
  proof (intro allI impI)
    fix j n :: nat assume "j < 32" "n < 8"
    then have "j * 8 + (7 - n) < 256" by simp
    with R show "P j n"
      using bit_position [OF \<open>n < 8\<close>, of j] by metis
  qed
qed

lemma address_eq_iff_bits:
  assumes "length a = 32" and "length b = 32"
  shows "a = b \<longleftrightarrow> (\<forall>i<256. get_bit_value a i = get_bit_value b i)"
proof -
  have "a = b \<longleftrightarrow> (\<forall>j<32. \<forall>n<8. bit (a ! j) n = bit (b ! j) n)"
    using assms by (simp add: list_eq_iff_nth_eq byte_eq_iff_bits)
  then show ?thesis
    by (simp add: all_bit_positions get_bit_value_bit)
qed

lemma length_address_bitand [simp]: "length (address_bitand a b) = 32"
  by (simp add: address_bitand_def)

lemma get_bit_value_bitand:
  assumes "i < 256"
  shows "get_bit_value (address_bitand a b) i =
    Some (the (get_bit_value a i) \<and> the (get_bit_value b i))"
proof -
  have "i div 8 < 32" using assms by simp
  then show ?thesis
    using assms by (simp add: get_bit_value_bit address_bitand_def bit_and_iff)
qed

lemma set_bit_value_Some:
  "set_bit_value a i v = Some b \<longleftrightarrow>
     v \<and> i < 256 \<and> b = a[i div 8 := (a ! (i div 8)) OR push_bit (7 - i mod 8) 1]"
  by (auto simp: set_bit_value_def Let_def)

text \<open>
  \<open>set_bit_value\<close> then \<open>get_bit_value\<close>: the written bit reads as set, every other bit of the 256
  keeps its value, and the address keeps its 32 bytes.
\<close>

theorem set_bit_value_get_bit_value:
  assumes "length a = 32" and "i < 256"
  shows "\<exists>b. set_bit_value a i True = Some b \<and> length b = 32 \<and>
    (\<forall>j. get_bit_value b j = (if j = i then Some True else get_bit_value a j))"
proof -
  define b where "b = a[i div 8 := (a ! (i div 8)) OR push_bit (7 - i mod 8) 1]"
  have "get_bit_value b j = (if j = i then Some True else get_bit_value a j)" for j
  proof (cases "j < 256")
    case True
    have "j = i" if "i div 8 = j div 8" "7 - i mod 8 = 7 - j mod 8"
    proof -
      have "i mod 8 < 8" "j mod 8 < 8" by simp_all
      with that(2) have "i mod 8 = j mod 8" by linarith
      with that(1) show "j = i" by (metis div_mult_mod_eq)
    qed
    then have "bit (push_bit (7 - i mod 8) (1 :: u8)) (7 - j mod 8) \<longleftrightarrow> i = j" if "i div 8 = j div 8"
      using that by (auto simp: push_bit_eq_mult bit_exp_iff)
    then have "bit (b ! (j div 8)) (7 - j mod 8) = (i = j \<or> bit (a ! (j div 8)) (7 - j mod 8))"
      using True assms by (cases "i div 8 = j div 8") (auto simp: b_def bit_or_iff)
    then show ?thesis
      using True by (simp add: get_bit_value_bit)
  next
    case False
    then show ?thesis using assms(2) by (simp add: get_bit_value_def)
  qed
  then show ?thesis
    using assms by (intro exI [of _ b]) (simp add: set_bit_value_Some b_def)
qed

theorem set_bit_value_get_bit_value_witness:
  "\<exists>b. set_bit_value (replicate 32 0) 101 True = Some b \<and> length b = 32 \<and>
    (\<forall>j. get_bit_value b j = (if j = 101 then Some True else get_bit_value (replicate 32 0) j))"
  using set_bit_value_get_bit_value [of "replicate 32 0" 101] by simp

end
