(* ===== verification/Envelopes.thy ===== *)
theory Envelopes
  imports Block_Keepers Identifiers
begin

text \<open>
  Envelopes with aggregated BLS signatures (src/node/src/bls/envelope.rs, gosh_bls.rs,
  create_signed.rs) and the folding of attestations (src/node/src/types/attestation/fold.rs).
  The curve library and the serialisation are parameters, collected in \<open>blst\<close>; the functions of
  gosh_bls.rs on top of them are modelled.
\<close>

section \<open>The signature scheme\<close>

type_synonym signature = bytes
type_synonym secret = bytes

record 'd blst =
  blst_sign :: "secret \<Rightarrow> bytes \<Rightarrow> signature"
  blst_aggregate_keys :: "pub_key list \<Rightarrow> pub_key option"
  blst_verify :: "signature \<Rightarrow> bytes \<Rightarrow> pub_key \<Rightarrow> bool"
  blst_aggregate_sigs :: "signature list \<Rightarrow> signature option"
  blst_add_signature :: "signature \<Rightarrow> signature \<Rightarrow> signature option"
  bincode_serialize :: "'d \<Rightarrow> bytes option"

definition bls_sign :: "'d blst \<Rightarrow> secret \<Rightarrow> 'd \<Rightarrow> signature outcome" where
  "bls_sign bls sk data =
     (case bincode_serialize bls data of
        None \<Rightarrow> Bail ''serialize''
      | Some buffer \<Rightarrow> Ok (blst_sign bls sk buffer))"

definition flatten_pubkeys :: "(pub_key \<times> nat) list \<Rightarrow> pub_key list" where
  "flatten_pubkeys pubkeys_occurrences =
     concat (map (\<lambda>(pubkey, occurrences). replicate occurrences pubkey) pubkeys_occurrences)"

definition bls_verify :: "'d blst \<Rightarrow> signature \<Rightarrow> (pub_key \<times> nat) list \<Rightarrow> 'd \<Rightarrow> bool outcome" where
  "bls_verify bls sig pubkeys_occurrences data =
     (case blst_aggregate_keys bls (flatten_pubkeys pubkeys_occurrences) of
        None \<Rightarrow> Bail ''Pubkey aggregation failed''
      | Some aggregated_public_key \<Rightarrow>
          (case bincode_serialize bls data of
             None \<Rightarrow> Bail ''serialize''
           | Some buffer \<Rightarrow> Ok (blst_verify bls sig buffer aggregated_public_key)))"

definition bls_merge :: "'d blst \<Rightarrow> signature \<Rightarrow> signature \<Rightarrow> signature outcome" where
  "bls_merge bls one another =
     (case blst_add_signature bls one another of
        None \<Rightarrow> Bail ''BLS signatures inner merge process has failed''
      | Some s \<Rightarrow> Ok s)"

definition bls_merge_all :: "'d blst \<Rightarrow> signature list \<Rightarrow> signature outcome" where
  "bls_merge_all bls signatures =
     (case blst_aggregate_sigs bls signatures of
        None \<Rightarrow> Bail ''BLS signatures inner merge process has failed''
      | Some s \<Rightarrow> Ok s)"

section \<open>Envelopes\<close>

type_synonym occurrences = "(signer_index, u16) hmap"

record 'd envelope =
  aggregated_signature :: signature
  signature_occurrences :: occurrences
  env_data :: 'd

definition envelope_create :: "signature \<Rightarrow> occurrences \<Rightarrow> 'd \<Rightarrow> 'd envelope" where
  "envelope_create sig occ d = \<lparr>aggregated_signature = sig, signature_occurrences = occ, env_data = d\<rparr>"

definition add_signature :: "'d blst \<Rightarrow> signer_index \<Rightarrow> secret \<Rightarrow> 'd envelope \<Rightarrow> 'd envelope outcome" where
  "add_signature bls signer_index sk e =
     obind (bls_sign bls sk (env_data e)) (\<lambda>sig.
     obind (bls_merge bls (aggregated_signature e) sig) (\<lambda>merged.
     (case hm_get (signature_occurrences e) signer_index of
        Some cnt \<Rightarrow>
          obind (expect (checked_add cnt 1) ''attempt to add with overflow'') (\<lambda>cnt'.
          Ok (e\<lparr>aggregated_signature := merged,
                signature_occurrences := hm_insert signer_index cnt' (signature_occurrences e)\<rparr>))
      | None \<Rightarrow>
          Ok (e\<lparr>aggregated_signature := merged,
                signature_occurrences := hm_insert signer_index 1 (signature_occurrences e)\<rparr>))))"

definition has_signer_index :: "'d envelope \<Rightarrow> signer_index \<Rightarrow> bool" where
  "has_signer_index e i =
     (case hm_get (signature_occurrences e) i of None \<Rightarrow> False | Some cnt \<Rightarrow> cnt > 0)"

text \<open>The keys of the signers with a non-zero count; \<open>None\<close> when one of them is unknown.\<close>

fun collect_pubkeys :: "(signer_index, pub_key) hmap \<Rightarrow> occurrences \<Rightarrow> (pub_key \<times> nat) list option" where
  "collect_pubkeys signers [] = Some []"
| "collect_pubkeys signers ((i, cnt) # rest) =
     (if cnt = 0 then collect_pubkeys signers rest
      else case hm_get signers i of
             None \<Rightarrow> None
           | Some pubkey \<Rightarrow> map_option (\<lambda>ks. (pubkey, unat cnt) # ks) (collect_pubkeys signers rest))"

definition verify_signatures :: "'d blst \<Rightarrow> 'd envelope \<Rightarrow> (signer_index, pub_key) hmap \<Rightarrow> bool outcome" where
  "verify_signatures bls e signers =
     (case collect_pubkeys signers (signature_occurrences e) of
        None \<Rightarrow> Ok False
      | Some [] \<Rightarrow> Ok False
      | Some pubkeys_occurrences \<Rightarrow> bls_verify bls (aggregated_signature e) pubkeys_occurrences (env_data e))"

definition signatures_count :: "'d envelope \<Rightarrow> nat" where
  "signatures_count e = hm_len (signature_occurrences e)"

definition signers :: "'d envelope \<Rightarrow> signer_index list" where
  "signers e = hm_keys (signature_occurrences e)"

text \<open>The serialised form lists the occurrences in ascending order of the signer.\<close>

definition envelope_serialize :: "'d envelope \<Rightarrow> signature \<times> (signer_index \<times> u16) list \<times> 'd" where
  "envelope_serialize e =
     (aggregated_signature e, sort_key fst (signature_occurrences e), env_data e)"

definition hm_from_iter :: "('k \<times> 'v) list \<Rightarrow> ('k, 'v) hmap" where
  "hm_from_iter xs = foldl (\<lambda>m (k, v). hm_insert k v m) [] xs"

definition envelope_deserialize :: "signature \<times> (signer_index \<times> u16) list \<times> 'd \<Rightarrow> 'd envelope" where
  "envelope_deserialize v =
     (case v of (sig, occ, d) \<Rightarrow> envelope_create sig (hm_from_iter occ) d)"

text \<open>
  Sealing by this node. A missing secret sets the shutdown flag, which can be set once: setting it
  again panics. The flag is returned beside the outcome.
\<close>

definition sealed ::
    "'d blst \<Rightarrow> node_identifier \<Rightarrow> block_keeper_set \<Rightarrow> (pub_key, secret \<times> bytes) hmap \<Rightarrow> 'd \<Rightarrow> bool \<Rightarrow>
     'd envelope outcome \<times> bool" where
  "sealed bls node_id bk_set bls_keys_map data shutdown =
     (case get_by_node_id bk_set node_id of
        None \<Rightarrow> (Bail ''Node is not in the bk set'', shutdown)
      | Some bk_data \<Rightarrow>
          (case hm_get bls_keys_map (bk_pubkey bk_data) of
             None \<Rightarrow>
               (if shutdown then (Panic ''SHUTDOWN_FLAG'', shutdown)
                else (Bail ''Bls keymap does not have secret stored'', True))
           | Some (sk, _) \<Rightarrow>
               (obind (bls_sign bls sk data) (\<lambda>sig.
                  Ok (envelope_create sig (hm_insert (bk_signer_index bk_data) 1 []) data)), shutdown)))"

section \<open>Folding attestations\<close>

record 'd try_fold_result =
  folded :: "'d envelope option"
  poisoned :: "'d envelope list"

fun add_occurrences :: "(signer_index \<times> u16) list \<Rightarrow> occurrences \<Rightarrow> occurrences outcome" where
  "add_occurrences [] m = Ok m"
| "add_occurrences ((k, v) # rest) m =
     (case hm_get m k of
        Some e \<Rightarrow>
          obind (expect (checked_add e v) ''attempt to add with overflow'') (\<lambda>x.
          add_occurrences rest (hm_insert k x m))
      | None \<Rightarrow> add_occurrences rest (hm_insert k v m))"

fun add_all_occurrences :: "(occurrences \<times> signature) list \<Rightarrow> occurrences \<Rightarrow> occurrences outcome" where
  "add_all_occurrences [] m = Ok m"
| "add_all_occurrences ((occ, sig) # rest) m = obind (add_occurrences occ m) (add_all_occurrences rest)"

definition try_fold_all_optimistic ::
    "'d blst \<Rightarrow> 'd \<Rightarrow> (occurrences \<times> signature) list \<Rightarrow> block_keeper_set \<Rightarrow> 'd envelope option outcome" where
  "try_fold_all_optimistic bls data to_combine bk_set =
     obind (add_all_occurrences to_combine []) (\<lambda>occ.
     (case bls_merge_all bls (map snd to_combine) of
        Ok sig \<Rightarrow>
          (let e = envelope_create sig occ data
           in Ok (if verify_signatures bls e (get_pubkeys_by_signers bk_set) = Ok True
                  then Some e else None))
      | _ \<Rightarrow> Ok None))"

fun fold_one_by_one ::
    "'d blst \<Rightarrow> 'd \<Rightarrow> block_keeper_set \<Rightarrow> (occurrences \<times> signature) list \<Rightarrow> 'd envelope option \<Rightarrow>
     'd envelope list \<Rightarrow> 'd try_fold_result outcome" where
  "fold_one_by_one bls data bk_set [] acc bad = Ok \<lparr>folded = acc, poisoned = bad\<rparr>"
| "fold_one_by_one bls data bk_set ((occ, sig) # rest) acc bad =
     (let e = envelope_create sig occ data in
      if verify_signatures bls e (get_pubkeys_by_signers bk_set) = Ok True then
        (case acc of
           Some f \<Rightarrow>
             (case bls_merge bls (aggregated_signature f) sig of
                Ok merged \<Rightarrow>
                  obind (add_occurrences occ (signature_occurrences f)) (\<lambda>occ'.
                  fold_one_by_one bls data bk_set rest (Some (envelope_create merged occ' data)) bad)
              | _ \<Rightarrow> fold_one_by_one bls data bk_set rest acc (bad @ [e]))
         | None \<Rightarrow> fold_one_by_one bls data bk_set rest (Some e) bad)
      else fold_one_by_one bls data bk_set rest acc (bad @ [e]))"

definition try_fold ::
    "'d blst \<Rightarrow> 'd \<Rightarrow> (occurrences \<times> signature) list \<Rightarrow> block_keeper_set \<Rightarrow> 'd try_fold_result outcome" where
  "try_fold bls data to_combine bk_set =
     obind (try_fold_all_optimistic bls data to_combine bk_set) (\<lambda>r.
     (case r of
        Some e \<Rightarrow> Ok \<lparr>folded = Some e, poisoned = []\<rparr>
      | None \<Rightarrow> fold_one_by_one bls data bk_set to_combine None []))"

section \<open>Adding up occurrences\<close>

definition key_mset :: "(signer_index, pub_key) hmap \<Rightarrow> occurrences \<Rightarrow> pub_key multiset" where
  "key_mset pks occ = (\<Sum>(i, c)\<leftarrow>occ. replicate_mset (unat c) (the (hm_get pks i)))"

definition known_signers :: "(signer_index, pub_key) hmap \<Rightarrow> occurrences \<Rightarrow> bool" where
  "known_signers pks occ = (\<forall>(i, c) \<in> set occ. c \<noteq> 0 \<longrightarrow> hm_get pks i \<noteq> None)"

lemma collect_pubkeys_eq_Some:
  "collect_pubkeys pks occ = Some ks \<Longrightarrow> mset (flatten_pubkeys ks) = key_mset pks occ"
  by (induction pks occ arbitrary: ks rule: collect_pubkeys.induct)
    (auto simp: flatten_pubkeys_def key_mset_def split: if_splits option.splits)

lemma collect_pubkeys_known: "collect_pubkeys pks occ \<noteq> None \<longleftrightarrow> known_signers pks occ"
  by (induction pks occ rule: collect_pubkeys.induct)
    (auto simp: known_signers_def split: option.splits)

lemma collect_pubkeys_pos: "collect_pubkeys pks occ = Some ks \<Longrightarrow> (k, n) \<in> set ks \<Longrightarrow> 0 < n"
  by (induction pks occ arbitrary: ks rule: collect_pubkeys.induct)
    (auto simp: unat_gt_0 split: if_splits option.splits)

lemma flatten_pubkeys_Nil:
  assumes "collect_pubkeys pks occ = Some ks"
  shows "flatten_pubkeys ks = [] \<longleftrightarrow> ks = []"
proof (cases ks)
  case (Cons a list)
  then show ?thesis
    using collect_pubkeys_pos [OF assms, of "fst a" "snd a"]
    by (cases a) (auto simp: flatten_pubkeys_def)
qed (simp add: flatten_pubkeys_def)

lemma hm_insert_sum:
  fixes f :: "'k \<times> 'v \<Rightarrow> 'a::comm_monoid_add"
  assumes "hm_wf m" and "hm_get m k = Some v"
  shows "sum_list (map f (hm_insert k x m)) + f (k, v) = sum_list (map f m) + f (k, x)"
  using assms unfolding hm_wf_def hm_get_def hm_insert_def
  by (induction m) (auto simp: ac_simps update_nonempty split: if_splits)

lemma replicate_mset_add: "replicate_mset (m + n) x = replicate_mset m x + replicate_mset n x"
  by (induction m) simp_all

lemma key_mset_insert:
  assumes "hm_wf m"
  shows "hm_get m k = None \<Longrightarrow>
      key_mset pks (hm_insert k v m) = key_mset pks m + replicate_mset (unat v) (the (hm_get pks k))"
    and "hm_get m k = Some e \<Longrightarrow> unat x = unat e + unat v \<Longrightarrow>
      key_mset pks (hm_insert k x m) = key_mset pks m + replicate_mset (unat v) (the (hm_get pks k))"
proof -
  show "key_mset pks (hm_insert k v m) = key_mset pks m + replicate_mset (unat v) (the (hm_get pks k))"
    if "hm_get m k = None"
    using that by (simp add: key_mset_def hm_insert_fresh)
  show "key_mset pks (hm_insert k x m) = key_mset pks m + replicate_mset (unat v) (the (hm_get pks k))"
    if "hm_get m k = Some e" "unat x = unat e + unat v"
    using hm_insert_sum [OF assms that(1), of "\<lambda>(i, c). replicate_mset (unat c) (the (hm_get pks i))" x] that(2)
    by (simp add: key_mset_def replicate_mset_add ac_simps)
qed

lemma known_signers_insert:
  "known_signers pks m \<Longrightarrow> (x \<noteq> 0 \<Longrightarrow> hm_get pks k \<noteq> None) \<Longrightarrow> known_signers pks (hm_insert k x m)"
  unfolding known_signers_def hm_insert_def
  by (induction m) (auto split: if_splits)

lemma known_signers_Cons:
  "known_signers pks ((k, v) # rest) \<longleftrightarrow> (v \<noteq> 0 \<longrightarrow> hm_get pks k \<noteq> None) \<and> known_signers pks rest"
  by (auto simp: known_signers_def)

lemma add_occurrences_Ok:
  assumes "add_occurrences xs m = Ok m'" and "hm_wf m"
  shows "hm_wf m' \<and> key_mset pks m' = key_mset pks m + key_mset pks xs \<and>
    dom (hm_get m') = dom (hm_get m) \<union> fst ` set xs \<and>
    (known_signers pks m \<longrightarrow> known_signers pks xs \<longrightarrow> known_signers pks m')"
  using assms
proof (induction xs m rule: add_occurrences.induct)
  case (1 m)
  then show ?case by (simp add: key_mset_def)
next
  case (2 k v rest m)
  obtain x where x: "add_occurrences rest (hm_insert k x m) = Ok m'"
    "hm_get m k = None \<and> x = v \<or> (\<exists>e. hm_get m k = Some e \<and> unat x = unat e + unat v)"
    using "2.prems"(1) by (auto split: option.splits dest: unat_checked_add)
  have IH: "hm_wf m' \<and> key_mset pks m' = key_mset pks (hm_insert k x m) + key_mset pks rest \<and>
      dom (hm_get m') = dom (hm_get (hm_insert k x m)) \<union> fst ` set rest \<and>
      (known_signers pks (hm_insert k x m) \<longrightarrow> known_signers pks rest \<longrightarrow> known_signers pks m')"
    using 2 x by (auto simp: hm.wf_ins split: option.splits dest: unat_checked_add)
  have "key_mset pks (hm_insert k x m) = key_mset pks m + replicate_mset (unat v) (the (hm_get pks k))"
    using x(2) key_mset_insert [OF "2.prems"(2)] by metis
  then have keys: "key_mset pks m' = key_mset pks m + key_mset pks ((k, v) # rest)"
    using IH by (simp add: key_mset_def ac_simps)
  have dm: "dom (hm_get m') = dom (hm_get m) \<union> fst ` set ((k, v) # rest)"
    using IH by (simp add: hm.dom_ins)
  have "known_signers pks (hm_insert k x m)"
    if "known_signers pks m" "known_signers pks ((k, v) # rest)"
  proof (rule known_signers_insert [OF that(1)])
    assume "x \<noteq> 0"
    then have "v \<noteq> 0 \<or> (\<exists>e. hm_get m k = Some e \<and> e \<noteq> 0)"
      using x(2) by (metis add.right_neutral unat_0 unat_eq_zero)
    then show "hm_get pks k \<noteq> None"
      using that by (auto simp: known_signers_def dest: hm_get_SomeD)
  qed
  then have "known_signers pks m'"
    if "known_signers pks m" "known_signers pks ((k, v) # rest)"
    using that IH known_signers_Cons by blast
  then show ?case using IH keys dm by blast
qed

section \<open>Soundness of folding\<close>

text \<open>
  What folding relies on, the aggregation property of BLS: when two signatures verify under their
  keys, their merge verifies under both groups of keys together, in whatever order these are listed.
\<close>

definition bls_aggregates :: "'d blst \<Rightarrow> bool" where
  "bls_aggregates bls = (\<forall>s1 s2 s ks1 ks2 ks d.
     bls_verify bls s1 ks1 d = Ok True \<longrightarrow> bls_verify bls s2 ks2 d = Ok True \<longrightarrow>
     bls_merge bls s1 s2 = Ok s \<longrightarrow>
     mset (flatten_pubkeys ks) = mset (flatten_pubkeys ks1) + mset (flatten_pubkeys ks2) \<longrightarrow>
     bls_verify bls s ks d = Ok True)"

lemma verify_signatures_True:
  "verify_signatures bls e pks = Ok True \<longleftrightarrow>
     (\<exists>ks. collect_pubkeys pks (signature_occurrences e) = Some ks \<and> ks \<noteq> [] \<and>
        bls_verify bls (aggregated_signature e) ks (env_data e) = Ok True)"
  by (auto simp: verify_signatures_def split: option.splits list.splits)

lemma verify_merged:
  assumes "bls_aggregates bls" and "verify_signatures bls f pks = Ok True"
    and "verify_signatures bls (envelope_create sig occ (env_data f)) pks = Ok True"
    and "bls_merge bls (aggregated_signature f) sig = Ok merged"
    and "add_occurrences occ (signature_occurrences f) = Ok occ'" and "hm_wf (signature_occurrences f)"
  shows "verify_signatures bls (envelope_create merged occ' (env_data f)) pks = Ok True"
proof -
  obtain ks1 ks2 where ks: "collect_pubkeys pks (signature_occurrences f) = Some ks1" "ks1 \<noteq> []"
      "bls_verify bls (aggregated_signature f) ks1 (env_data f) = Ok True"
      "collect_pubkeys pks occ = Some ks2" "ks2 \<noteq> []" "bls_verify bls sig ks2 (env_data f) = Ok True"
    using assms(2,3) by (auto simp: verify_signatures_True envelope_create_def)
  note add = add_occurrences_Ok [OF assms(5,6), of pks]
  have "known_signers pks occ'"
    using add ks(1,4) collect_pubkeys_known [of pks occ] collect_pubkeys_known [of pks "signature_occurrences f"]
    by simp
  then obtain ks where k: "collect_pubkeys pks occ' = Some ks"
    using collect_pubkeys_known [of pks occ'] by auto
  have m: "mset (flatten_pubkeys ks) = mset (flatten_pubkeys ks1) + mset (flatten_pubkeys ks2)"
    using add collect_pubkeys_eq_Some [OF k] collect_pubkeys_eq_Some [OF ks(1)] collect_pubkeys_eq_Some [OF ks(4)]
    by simp
  then have "ks \<noteq> []"
    using ks(2) flatten_pubkeys_Nil [OF ks(1)] flatten_pubkeys_Nil [OF k] by auto
  moreover have "bls_verify bls merged ks (env_data f) = Ok True"
    using assms(1,4) ks(3,6) m unfolding bls_aggregates_def by blast
  ultimately show ?thesis
    using k by (simp add: verify_signatures_True envelope_create_def)
qed

definition fold_signers :: "'d try_fold_result \<Rightarrow> signer_index set" where
  "fold_signers r = (case folded r of None \<Rightarrow> {} | Some e \<Rightarrow> set (signers e)) \<union>
     (\<Union>p \<in> set (poisoned r). set (signers p))"

definition input_signers :: "(occurrences \<times> signature) list \<Rightarrow> signer_index set" where
  "input_signers xs = (\<Union>x \<in> set xs. set (hm_keys (fst x)))"

lemma fold_one_by_one_Ok:
  assumes "fold_one_by_one bls d bk xs acc bad = Ok r" and "bls_aggregates bls"
    and "\<forall>x \<in> set xs. hm_wf (fst x)"
    and "\<forall>f. acc = Some f \<longrightarrow> env_data f = d \<and> hm_wf (signature_occurrences f) \<and>
        verify_signatures bls f (get_pubkeys_by_signers bk) = Ok True"
  shows "(\<forall>e. folded r = Some e \<longrightarrow> env_data e = d \<and> hm_wf (signature_occurrences e) \<and>
       verify_signatures bls e (get_pubkeys_by_signers bk) = Ok True) \<and>
    fold_signers r = fold_signers \<lparr>folded = acc, poisoned = bad\<rparr> \<union> input_signers xs"
  using assms
proof (induction bls d bk xs acc bad rule: fold_one_by_one.induct)
  case (1 bls d bk acc bad)
  then show ?case by (auto simp: input_signers_def)
next
  case (2 bls d bk occ sig rest acc bad)
  let ?e = "envelope_create sig occ d"
  have e: "env_data ?e = d" "signature_occurrences ?e = occ" "aggregated_signature ?e = sig"
    by (simp_all add: envelope_create_def)
  have wf: "hm_wf occ" "\<forall>x \<in> set rest. hm_wf (fst x)" using "2.prems"(3) by simp_all
  show ?case
  proof (cases "verify_signatures bls ?e (get_pubkeys_by_signers bk) = Ok True")
    case bad: False
    then show ?thesis
      using "2.IH"(5) [OF refl bad] "2.prems" wf(2)
      by (auto simp: fold_signers_def input_signers_def signers_def e Let_def)
  next
    case good: True
    show ?thesis
    proof (cases acc)
      case None
      then show ?thesis
        using "2.IH"(1) [OF refl good None] "2.prems" wf good
        by (auto simp: fold_signers_def input_signers_def signers_def e Let_def)
    next
      case (Some f)
      have f: "env_data f = d" "hm_wf (signature_occurrences f)"
          "verify_signatures bls f (get_pubkeys_by_signers bk) = Ok True"
        using "2.prems"(4) Some by auto
      show ?thesis
      proof (cases "bls_merge bls (aggregated_signature f) sig")
        case (Ok merged)
        then obtain occ' where occ': "add_occurrences occ (signature_occurrences f) = Ok occ'"
            "fold_one_by_one bls d bk rest (Some (envelope_create merged occ' d)) bad = Ok r"
          using "2.prems"(1) Some good by (auto simp: Let_def)
        note add = add_occurrences_Ok [OF occ'(1) f(2)]
        let ?m = "envelope_create merged occ' d"
        have m: "env_data ?m = d" "signature_occurrences ?m = occ'" by (simp_all add: envelope_create_def)
        have "verify_signatures bls ?m (get_pubkeys_by_signers bk) = Ok True"
          using verify_merged [OF "2.prems"(2) f(3) _ Ok occ'(1) f(2)] good f(1) by simp
        then have IH: "(\<forall>e. folded r = Some e \<longrightarrow> env_data e = d \<and> hm_wf (signature_occurrences e) \<and>
            verify_signatures bls e (get_pubkeys_by_signers bk) = Ok True) \<and>
            fold_signers r = fold_signers \<lparr>folded = Some ?m, poisoned = bad\<rparr> \<union> input_signers rest"
          using add m by (intro "2.IH"(2) [OF refl good Some Ok occ'(2) "2.prems"(2) wf(2)]) simp
        have "set (signers ?m) = set (signers f) \<union> set (hm_keys occ)"
          using add by (simp add: signers_def m hm_keys_def [of occ])
        then have "fold_signers \<lparr>folded = Some ?m, poisoned = bad\<rparr> \<union> input_signers rest =
            fold_signers \<lparr>folded = acc, poisoned = bad\<rparr> \<union> input_signers ((occ, sig) # rest)"
          by (simp add: fold_signers_def input_signers_def Some ac_simps)
        then show ?thesis using IH by simp
      next
        case other: (Bail x)
        then show ?thesis
          using "2.IH"(3) [OF refl good Some other] "2.prems" wf(2) Some good
          by (auto simp: fold_signers_def input_signers_def signers_def e Let_def)
      next
        case other: (Panic x)
        then show ?thesis
          by (simp add: bls_merge_def split: option.splits)
      qed
    qed
  qed
qed

lemma add_all_occurrences_Ok:
  assumes "add_all_occurrences xs m = Ok m'" and "hm_wf m"
  shows "hm_wf m' \<and> dom (hm_get m') = dom (hm_get m) \<union> input_signers xs"
  using assms
proof (induction xs m rule: add_all_occurrences.induct)
  case (2 occ sig rest m)
  then obtain m1 where m1: "add_occurrences occ m = Ok m1" "add_all_occurrences rest m1 = Ok m'"
    by auto
  note add = add_occurrences_Ok [OF m1(1) "2.prems"(2)]
  have "dom (hm_get m1) = dom (hm_get m) \<union> set (hm_keys occ)" using add by (simp add: hm_keys_def [of occ])
  then show ?case
    using "2.IH" [OF m1(2)] add by (auto simp: input_signers_def)
qed (simp add: input_signers_def)

lemma try_fold_result:
  assumes "try_fold bls data to_combine bk = Ok r" and "folded r = Some e"
    and "bls_aggregates bls" and "\<forall>x \<in> set to_combine. hm_wf (fst x)"
  shows "env_data e = data" and "verify_signatures bls e (get_pubkeys_by_signers bk) = Ok True"
    and "hm_wf (signature_occurrences e)" and "fold_signers r = input_signers to_combine"
proof -
  obtain o1 where o1: "try_fold_all_optimistic bls data to_combine bk = Ok o1"
    using assms(1) by (auto simp: try_fold_def)
  have "env_data e = data \<and> verify_signatures bls e (get_pubkeys_by_signers bk) = Ok True \<and>
    hm_wf (signature_occurrences e) \<and> fold_signers r = input_signers to_combine"
  proof (cases o1)
    case None
    then show ?thesis
      using assms o1 fold_one_by_one_Ok [of bls data bk to_combine None "[]" r]
      by (simp add: try_fold_def fold_signers_def [of "\<lparr>folded = None, poisoned = []\<rparr>"])
  next
    case (Some f)
    then obtain occ sig where f: "add_all_occurrences to_combine [] = Ok occ"
        "f = envelope_create sig occ data" "verify_signatures bls f (get_pubkeys_by_signers bk) = Ok True"
      using o1 by (cases "bls_merge_all bls (map snd to_combine)")
        (auto simp: try_fold_all_optimistic_def Let_def split: if_splits)
    have "r = \<lparr>folded = Some f, poisoned = []\<rparr>" using assms(1) o1 Some by (simp add: try_fold_def)
    moreover have "set (signers f) = input_signers to_combine" "env_data f = data" "hm_wf (signature_occurrences f)"
      using add_all_occurrences_Ok [OF f(1)] f(2) by (simp_all add: signers_def envelope_create_def)
    ultimately show ?thesis
      using f(3) assms(2) by (simp add: fold_signers_def)
  qed
  then show "env_data e = data" and "verify_signatures bls e (get_pubkeys_by_signers bk) = Ok True"
    and "hm_wf (signature_occurrences e)" and "fold_signers r = input_signers to_combine" by blast+
qed

text \<open>
  C15: folding is sound and loses nobody: given the aggregation property of BLS, an envelope that
  \<open>try_fold\<close> returns carries the given data and verifies under the public keys of the block keeper
  set, on the optimistic path and on the one-by-one path, and the signers of the folded and of the
  poisoned envelopes together are exactly the signers of the input.
\<close>

theorem try_fold_sound:
  assumes "try_fold bls data to_combine bk = Ok r" and "folded r = Some e"
    and "bls_aggregates bls" and "\<forall>x \<in> set to_combine. hm_wf (fst x)"
  shows "env_data e = data \<and> verify_signatures bls e (get_pubkeys_by_signers bk) = Ok True \<and>
    fold_signers r = input_signers to_combine"
  using try_fold_result [OF assms] by blast

text \<open>An instance of the scheme in which a signature is the sorted list of its signers' keys.\<close>

definition keyring_bls :: "'d blst" where
  "keyring_bls = \<lparr>blst_sign = (\<lambda>sk _. sk), blst_aggregate_keys = (\<lambda>ks. Some (sort (concat ks))),
     blst_verify = (\<lambda>s _ k. s = k), blst_aggregate_sigs = (\<lambda>ss. Some (sort (concat ss))),
     blst_add_signature = (\<lambda>a b. Some (sort (a @ b))), bincode_serialize = (\<lambda>_. Some [])\<rparr>"

definition example_bls :: "bytes blst" where
  "example_bls = keyring_bls\<lparr>bincode_serialize := Some\<rparr>"

lemma mset_concat_cong: "mset xs = mset ys \<Longrightarrow> mset (concat xs) = mset (concat ys)"
  by (metis mset_concat mset_map sum_mset_sum_list)

lemma keyring_aggregates:
  "bls_aggregates keyring_bls" "bls_aggregates (keyring_bls\<lparr>bincode_serialize := serialize\<rparr>)"
proof -
  have "sort (sort (concat xs) @ sort (concat ys)) = sort (concat zs)"
    if "mset zs = mset xs + mset ys" for xs ys zs :: "bytes list"
    using mset_concat_cong [of zs "xs @ ys"] that by (intro properties_for_sort) simp_all
  then show "bls_aggregates (keyring_bls\<lparr>bincode_serialize := serialize\<rparr>)" "bls_aggregates keyring_bls"
    by (auto simp: bls_aggregates_def bls_verify_def bls_merge_def keyring_bls_def split: option.splits)
qed

lemma example_bls_aggregates: "bls_aggregates example_bls"
  unfolding example_bls_def by (rule keyring_aggregates)

definition example_bk_set :: block_keeper_set where
  "example_bk_set = bk_set_insert 2 (example_keeper 2 10) (bk_set_insert 1 (example_keeper 1 10) bk_set_new)"

theorem try_fold_sound_witness:
  "\<exists>r e. try_fold example_bls [7] [([(1, 1)], [1]), ([(2, 1)], [2])] example_bk_set = Ok r \<and>
     folded r = Some e \<and> env_data e = [7] \<and>
     verify_signatures example_bls e (get_pubkeys_by_signers example_bk_set) = Ok True \<and>
     fold_signers r = {1, 2}"
proof -
  let ?r = "\<lparr>folded = Some (envelope_create [1, 2] [(1, 1), (2, 1)] [7]), poisoned = []\<rparr>"
  have "try_fold example_bls [7] [([(1, 1)], [1]), ([(2, 1)], [2])] example_bk_set = Ok ?r"
    by code_simp
  then show ?thesis
    using try_fold_sound [of example_bls "[7]" "[([(1, 1)], [1]), ([(2, 1)], [2])]" example_bk_set ?r
        "envelope_create [1, 2] [(1, 1), (2, 1)] [7]"] example_bls_aggregates
    by (simp add: hm_wf_def input_signers_def insert_commute hm_get_def [abs_def] dom_map_of_conv_image_fst)
qed

text \<open>
  The counts are added before anything is verified: two unverified attestations of one signer whose
  counts do not fit 16 bits together make the addition panic.
\<close>

lemma try_fold_overflow_panics:
  "try_fold bls data [([(s, 0xFFFF)], sig), ([(s, 1)], sig')] bk = Panic ''attempt to add with overflow''"
  by (simp add: try_fold_def try_fold_all_optimistic_def hm_get_def hm_insert_def checked_add_def)

section \<open>Verification and counting\<close>

lemma collect_pubkeys_append:
  "collect_pubkeys pks (xs @ ys) =
     Option.bind (collect_pubkeys pks xs) (\<lambda>ks.
       Option.bind (collect_pubkeys pks ys) (\<lambda>ls. Some (ks @ ls)))"
  by (induction pks xs rule: collect_pubkeys.induct)
    (auto split: option.splits bind_splits)

text \<open>
  verification ignores signers with a zero count while \<open>signatures_count\<close> counts them: adding
  zero-count entries for any signers not yet present leaves the result of \<open>verify_signatures\<close>
  unchanged and raises \<open>signatures_count\<close> by their number. A verified envelope therefore does not
  witness that many signatures unless its counts are positive.
\<close>

theorem zero_counts_inflate_signatures:
  assumes "hm_wf (signature_occurrences e)" and "distinct extra"
    and "\<forall>i \<in> set extra. hm_get (signature_occurrences e) i = None"
  shows "\<exists>e'. aggregated_signature e' = aggregated_signature e \<and> env_data e' = env_data e \<and>
    hm_wf (signature_occurrences e') \<and>
    verify_signatures bls e' pks = verify_signatures bls e pks \<and>
    signatures_count e' = signatures_count e + length extra"
proof -
  let ?zeros = "map (\<lambda>i. (i, 0 :: u16)) extra"
  let ?e' = "e\<lparr>signature_occurrences := signature_occurrences e @ ?zeros\<rparr>"
  have "collect_pubkeys pks ?zeros = Some []" by (induction extra) simp_all
  then have "collect_pubkeys pks (signature_occurrences e @ ?zeros) =
      collect_pubkeys pks (signature_occurrences e)"
    by (simp add: collect_pubkeys_append)
  moreover have "hm_wf (signature_occurrences e @ ?zeros)"
    using assms by (auto simp: hm_wf_def hm_get_def map_of_eq_None_iff comp_def)
  ultimately show ?thesis
    by (intro exI [of _ ?e'])
      (simp add: verify_signatures_def signatures_count_def hm_len_def cong: option.case_cong list.case_cong)
qed

theorem zero_counts_inflate_signatures_witness:
  "\<exists>e'. aggregated_signature e' = [1] \<and> env_data e' = [7] \<and> hm_wf (signature_occurrences e') \<and>
    verify_signatures example_bls e' (get_pubkeys_by_signers example_bk_set) = Ok True \<and>
    signatures_count e' = Suc 3"
proof -
  let ?e = "envelope_create [1] [(1, 1)] [7 :: u8]"
  have "verify_signatures example_bls ?e (get_pubkeys_by_signers example_bk_set) = Ok True"
    by code_simp
  then show ?thesis
    using zero_counts_inflate_signatures
      [of ?e "[2, 3, 4]" example_bls "get_pubkeys_by_signers example_bk_set"]
    by (simp add: envelope_create_def hm_wf_def hm_get_def signatures_count_def hm_len_def numeral_3_eq_3)
qed

section \<open>Serialisation\<close>

lemma hm_from_iter_distinct:
  "distinct (map fst xs) \<Longrightarrow> hm_from_iter xs = xs"
proof (induction xs rule: rev_induct)
  case (snoc x xs)
  then have "hm_get xs (fst x) = None" by (auto simp: hm_get_def map_of_eq_None_iff)
  then show ?case using snoc by (cases x) (simp add: hm_from_iter_def hm_insert_fresh)
qed (simp add: hm_from_iter_def)

text \<open>
  The serialised form of an envelope does not depend on the iteration order of its hash map,
  and reading it back restores the envelope: the same signature, data and count for every signer.
\<close>

theorem envelope_serialize_canonical:
  assumes "hm_wf (signature_occurrences e)" and "hm_wf (signature_occurrences f)"
    and "aggregated_signature e = aggregated_signature f" and "env_data e = env_data f"
    and "\<forall>i. hm_get (signature_occurrences e) i = hm_get (signature_occurrences f) i"
  shows "envelope_serialize e = envelope_serialize f \<and>
    (let g = envelope_deserialize (envelope_serialize e)
     in aggregated_signature g = aggregated_signature e \<and> env_data g = env_data e \<and>
        (\<forall>i. hm_get (signature_occurrences g) i = hm_get (signature_occurrences e) i))"
proof -
  let ?e = "signature_occurrences e" and ?f = "signature_occurrences f"
  have "set ?e = set ?f"
    using assms(5) hm_get_iff [OF assms(1)] hm_get_iff [OF assms(2)] by auto
  moreover have "inj_on fst (set ?e)"
    using assms(1) by (simp add: hm_wf_def distinct_map)
  ultimately have "sort_key fst ?e = sort_key fst ?f"
    using assms(1,2) by (intro map_sorted_distinct_set_unique [of fst]) (auto simp: hm_wf_def distinct_map)
  moreover have "map_of (sort_key fst ?e) = map_of ?e"
    using assms(1) by (intro map_of_inject_set [THEN iffD2]) (auto simp: hm_wf_def distinct_map)
  moreover have "hm_from_iter (sort_key fst ?e) = sort_key fst ?e"
    using assms(1) by (intro hm_from_iter_distinct) (auto simp: hm_wf_def distinct_map)
  ultimately show ?thesis
    using assms(3,4) by (simp add: envelope_serialize_def envelope_deserialize_def envelope_create_def
        hm_get_def Let_def)
qed

theorem envelope_serialize_canonical_witness:
  "envelope_serialize (envelope_create [1] [(2, 5), (1, 3)] [7 :: u8]) =
   envelope_serialize (envelope_create [1] [(1, 3), (2, 5)] [7 :: u8])"
  using envelope_serialize_canonical
    [of "envelope_create [1] [(2, 5), (1, 3)] [7 :: u8]" "envelope_create [1] [(1, 3), (2, 5)] [7 :: u8]"]
  by (simp add: envelope_create_def hm_wf_def hm_get_def)

end
