(* ===== verification/Checkpoints.thy ===== *)
theory Checkpoints
  imports Identifiers
begin

text \<open>
  Attestation targets as checkpoints a block must reach within a number of descendants
  (src/node/src/node/block_state/attestation_target_checkpoints.rs), and the statistics the targets
  are derived from (src/node/src/node/services/statistics/).
\<close>

section \<open>Checkpoints\<close>

datatype attestation_target_type = Primary | Fallback

record attestation_target_checkpoint =
  current_distance :: nat
  deadline :: nat
  ckpt_required_attestation_count :: nat
  attestation_target_type :: attestation_target_type

datatype checkpoint_check_result = CheckpointFailed | CheckpointPassed | NoAction

record finalization_checkpoints =
  ckpt_primary :: "(block_identifier, attestation_target_checkpoint) hmap"
  ckpt_fallback :: "(block_identifier, attestation_target_checkpoint list) hmap"

record checkpoints_constructor =
  inherited_checkpoints :: finalization_checkpoints
  cc_passed_primary :: "block_identifier list"
  cc_passed_fallback :: "block_identifier list"
  cc_passed_fallback_preattestation :: "block_identifier list"

record checkpoints_results =
  remaining_checkpoints :: finalization_checkpoints
  passed_primary :: "block_identifier list"
  passed_fallback :: "block_identifier list"
  passed_fallback_preattestation :: "block_identifier list"
  transitioned_to_fallback :: "block_identifier list"
  failed :: "block_identifier list"

definition inherit_checkpoint :: "attestation_target_checkpoint \<Rightarrow> attestation_target_checkpoint" where
  "inherit_checkpoint c = c\<lparr>current_distance := current_distance c + 1\<rparr>"

definition into_builder :: "finalization_checkpoints \<Rightarrow> checkpoints_constructor" where
  "into_builder c = \<lparr>inherited_checkpoints = c, cc_passed_primary = [], cc_passed_fallback = [],
     cc_passed_fallback_preattestation = []\<rparr>"

definition checkpoint_check ::
    "attestation_target_checkpoint \<Rightarrow> attestation_target_type \<Rightarrow> nat \<Rightarrow> checkpoint_check_result" where
  "checkpoint_check c ty verified_signatures_count =
     (if current_distance c > deadline c then CheckpointFailed
      else if attestation_target_type c \<noteq> ty then NoAction
      else if verified_signatures_count \<ge> ckpt_required_attestation_count c then CheckpointPassed
      else NoAction)"

text \<open>The primary part of \<open>note\<close>, then its fallback part.\<close>

definition note_primary ::
    "block_identifier \<Rightarrow> attestation_target_type \<Rightarrow> nat \<Rightarrow> checkpoints_constructor \<Rightarrow> checkpoints_constructor" where
  "note_primary attested_block ty cnt s =
     (let ckpts = inherited_checkpoints s in
      case hm_get (ckpt_primary ckpts) attested_block of
        None \<Rightarrow> s
      | Some c \<Rightarrow>
          (case checkpoint_check c ty cnt of
             CheckpointPassed \<Rightarrow>
               s\<lparr>inherited_checkpoints :=
                   \<lparr>ckpt_primary = hm_remove attested_block (ckpt_primary ckpts),
                    ckpt_fallback = hm_remove attested_block (ckpt_fallback ckpts)\<rparr>,
                 cc_passed_primary := cc_passed_primary s @ [attested_block]\<rparr>
           | _ \<Rightarrow> s))"

definition note_fallback ::
    "block_identifier \<Rightarrow> attestation_target_type \<Rightarrow> nat \<Rightarrow> checkpoints_constructor \<Rightarrow> checkpoints_constructor" where
  "note_fallback attested_block ty cnt s =
     (let ckpts = inherited_checkpoints s in
      case hm_get (ckpt_fallback ckpts) attested_block of
        None \<Rightarrow> s
      | Some cs \<Rightarrow>
          (let passed = filter (\<lambda>c. checkpoint_check c ty cnt = CheckpointPassed) cs;
               kept = filter (\<lambda>c. checkpoint_check c ty cnt \<noteq> CheckpointPassed) cs;
               s' = s\<lparr>cc_passed_fallback_preattestation :=
                        (if ty = Primary
                         then cc_passed_fallback_preattestation s @ map (\<lambda>_. attested_block) passed
                         else cc_passed_fallback_preattestation s)\<rparr>
           in if kept = [] then
                s'\<lparr>inherited_checkpoints :=
                     \<lparr>ckpt_primary = hm_remove attested_block (ckpt_primary ckpts),
                      ckpt_fallback = hm_remove attested_block (ckpt_fallback ckpts)\<rparr>,
                   cc_passed_fallback := cc_passed_fallback s @ [attested_block]\<rparr>
              else
                s'\<lparr>inherited_checkpoints :=
                     ckpts\<lparr>ckpt_fallback := hm_insert attested_block kept (ckpt_fallback ckpts)\<rparr>\<rparr>))"

definition note_attestation ::
    "block_identifier \<Rightarrow> attestation_target_type \<Rightarrow> nat \<Rightarrow> checkpoints_constructor \<Rightarrow> checkpoints_constructor" where
  "note_attestation attested_block ty cnt s =
     note_fallback attested_block ty cnt (note_primary attested_block ty cnt s)"

definition hm_remove_all :: "'k list \<Rightarrow> ('k, 'v) hmap \<Rightarrow> ('k, 'v) hmap" where
  "hm_remove_all ks m = foldl (\<lambda>m k. hm_remove k m) m ks"

definition deadline_reached :: "attestation_target_checkpoint \<Rightarrow> bool" where
  "deadline_reached c = (current_distance c \<ge> deadline c)"

definition complete_checkpoints :: "checkpoints_constructor \<Rightarrow> checkpoints_results" where
  "complete_checkpoints s =
     (let primary = ckpt_primary (inherited_checkpoints s);
          fallback = ckpt_fallback (inherited_checkpoints s);
          late = map fst (filter (\<lambda>(b, c). deadline_reached c) primary);
          failed_primary = filter (\<lambda>b. \<not> hm_contains fallback b) late;
          transitioned = filter (\<lambda>b. hm_contains fallback b) late;
          primary' = hm_remove_all transitioned primary;
          failed_fallback = map fst (filter (\<lambda>(b, cs). list_ex deadline_reached cs) fallback);
          failed_blocks = remdups (failed_primary @ failed_fallback)
      in \<lparr>remaining_checkpoints =
            \<lparr>ckpt_primary = hm_remove_all failed_blocks primary',
             ckpt_fallback = hm_remove_all failed_blocks fallback\<rparr>,
          passed_primary = cc_passed_primary s,
          passed_fallback = cc_passed_fallback s,
          passed_fallback_preattestation = cc_passed_fallback_preattestation s,
          transitioned_to_fallback = transitioned,
          failed = failed_blocks\<rparr>)"

type_synonym attestation_counts = "(block_identifier \<times> attestation_target_type, nat) hmap"

fun note_all :: "attestation_counts \<Rightarrow> checkpoints_constructor \<Rightarrow> checkpoints_constructor" where
  "note_all [] s = s"
| "note_all (((b, ty), cnt) # rest) s = note_all rest (note_attestation b ty cnt s)"

definition update_checkpoints :: "attestation_counts \<Rightarrow> checkpoints_constructor \<Rightarrow> checkpoints_results" where
  "update_checkpoints attestation_count s = complete_checkpoints (note_all attestation_count s)"

section \<open>Statistics\<close>

record block_statistics =
  stats :: "nat list"
  cursor :: nat
  median_descendants_chain_length :: nat

definition block_statistics_zero :: "nat \<Rightarrow> nat \<Rightarrow> block_statistics" where
  "block_statistics_zero initial_window_size preset =
     \<lparr>stats = replicate initial_window_size preset, cursor = 0, median_descendants_chain_length = preset\<rparr>"

definition vec_resize :: "nat \<Rightarrow> 'a \<Rightarrow> 'a list \<Rightarrow> 'a list" where
  "vec_resize n d xs = take n xs @ replicate (n - length xs) d"

definition block_statistics_resize :: "nat option \<Rightarrow> block_statistics \<Rightarrow> block_statistics" where
  "block_statistics_resize new_window_size s =
     (case new_window_size of
        None \<Rightarrow> s
      | Some r \<Rightarrow>
          (let r' = (if r \<noteq> 0 then r else 1);
               st = vec_resize r' (median_descendants_chain_length s) (stats s)
           in s\<lparr>stats := st, cursor := cursor s mod length st\<rparr>))"

text \<open>Writing outside the window panics.\<close>

fun block_statistics_push :: "nat list \<Rightarrow> block_statistics \<Rightarrow> block_statistics option" where
  "block_statistics_push [] s = Some s"
| "block_statistics_push (e # es) s =
     (if cursor s < length (stats s)
      then block_statistics_push es
             (s\<lparr>stats := (stats s)[cursor s := e], cursor := (cursor s + 1) mod length (stats s)\<rparr>)
      else None)"

definition block_statistics_next :: "nat list \<Rightarrow> nat option \<Rightarrow> block_statistics \<Rightarrow> block_statistics option" where
  "block_statistics_next distances new_window_size s =
     (case block_statistics_push distances (block_statistics_resize new_window_size s) of
        None \<Rightarrow> None
      | Some s' \<Rightarrow>
          (if stats s' = [] then None
           else let median = sort (stats s') ! (length (stats s') div 2)
                in Some (s'\<lparr>median_descendants_chain_length := (if median > 0 then median else 1)\<rparr>)))"

section \<open>The window of statistics\<close>

definition statistics_ok :: "block_statistics \<Rightarrow> bool" where
  "statistics_ok s = (stats s \<noteq> [] \<and> cursor s < length (stats s) \<and> 0 < median_descendants_chain_length s)"

lemma statistics_ok_zero: "0 < w \<Longrightarrow> 0 < p \<Longrightarrow> statistics_ok (block_statistics_zero w p)"
  by (auto simp: statistics_ok_def block_statistics_zero_def)

lemma length_vec_resize [simp]: "length (vec_resize n d xs) = n"
  by (simp add: vec_resize_def min_def)

lemma block_statistics_push_ok:
  assumes "stats s \<noteq> []" and "cursor s < length (stats s)"
  shows "\<exists>s'. block_statistics_push es s = Some s' \<and> length (stats s') = length (stats s) \<and>
    cursor s' = (cursor s + length es) mod length (stats s) \<and>
    median_descendants_chain_length s' = median_descendants_chain_length s"
  using assms
proof (induction es arbitrary: s)
  case (Cons e es)
  let ?t = "s\<lparr>stats := (stats s)[cursor s := e], cursor := (cursor s + 1) mod length (stats s)\<rparr>"
  have "stats ?t \<noteq> []" "cursor ?t < length (stats ?t)" using Cons.prems by auto
  from Cons.IH [OF this] show ?case
    using Cons.prems by (simp add: mod_simps)
qed simp

text \<open>
  C27: the statistics never panic and keep their window: from a consistent state \<open>next\<close> returns, the
  window has the requested size (at least one) or the old one, the cursor advances by the number of
  recorded distances modulo the window, and the median, the \<open>beta\<close> of the protocol, is at least 1.
\<close>

theorem block_statistics_next_ok:
  assumes "statistics_ok s"
  shows "\<exists>s'. block_statistics_next es resize s = Some s' \<and> statistics_ok s' \<and>
    length (stats s') = (case resize of None \<Rightarrow> length (stats s) | Some r \<Rightarrow> max r 1) \<and>
    cursor s' = (cursor s + length es) mod length (stats s') \<and>
    median_descendants_chain_length s' = max 1 (sort (stats s') ! (length (stats s') div 2))"
proof -
  let ?t = "block_statistics_resize resize s"
  have len: "length (stats ?t) = (case resize of None \<Rightarrow> length (stats s) | Some r \<Rightarrow> max r 1)"
    by (auto simp: block_statistics_resize_def Let_def split: option.split)
  have cur: "cursor ?t = cursor s mod length (stats ?t)"
    using assms by (auto simp: block_statistics_resize_def statistics_ok_def Let_def split: option.split)
  have "0 < length (stats ?t)" using assms len by (auto simp: statistics_ok_def split: option.splits)
  then have t: "stats ?t \<noteq> []" "cursor ?t < length (stats ?t)" using cur by auto
  from block_statistics_push_ok [OF t, of es] obtain u where u:
      "block_statistics_push es ?t = Some u" "length (stats u) = length (stats ?t)"
      "cursor u = (cursor ?t + length es) mod length (stats ?t)"
    by blast
  then have "stats u \<noteq> []" "cursor u < length (stats u)" using t by auto
  moreover have "cursor u = (cursor s + length es) mod length (stats u)" using u cur by (simp add: mod_simps)
  ultimately show ?thesis
    using u(1,2) len by (simp add: block_statistics_next_def statistics_ok_def max_def Let_def)
qed

theorem block_statistics_next_ok_witness:
  "\<exists>s'. block_statistics_next [5, 0, 7] None (block_statistics_zero 4 3) = Some s' \<and> statistics_ok s' \<and>
    length (stats s') = 4 \<and> cursor s' = 3 mod length (stats s') \<and>
    median_descendants_chain_length s' = max 1 (sort (stats s') ! (length (stats s') div 2))"
  using block_statistics_next_ok [OF statistics_ok_zero [of 4 3], of "[5, 0, 7]" None]
  by (simp add: block_statistics_zero_def numeral_3_eq_3)

section \<open>What an update does to each block\<close>

abbreviation P_of :: "finalization_checkpoints \<Rightarrow> block_identifier \<Rightarrow> attestation_target_checkpoint option" where
  "P_of c \<equiv> hm_get (ckpt_primary c)"

abbreviation F_of :: "finalization_checkpoints \<Rightarrow> block_identifier \<Rightarrow> attestation_target_checkpoint list option" where
  "F_of c \<equiv> hm_get (ckpt_fallback c)"

definition passes :: "attestation_target_checkpoint \<Rightarrow> attestation_target_type \<Rightarrow> nat \<Rightarrow> bool" where
  "passes c ty cnt = (current_distance c \<le> deadline c \<and> attestation_target_type c = ty \<and>
     ckpt_required_attestation_count c \<le> cnt)"

text \<open>A checkpoint of a block is met when enough attestations of its type arrive in time.\<close>

definition met :: "attestation_counts \<Rightarrow> block_identifier \<Rightarrow> attestation_target_checkpoint \<Rightarrow> bool" where
  "met counts b c = (\<exists>ty cnt. ((b, ty), cnt) \<in> set counts \<and> passes c ty cnt)"

lemma check_passed: "checkpoint_check c ty cnt = CheckpointPassed \<longleftrightarrow> passes c ty cnt"
  by (auto simp: checkpoint_check_def passes_def)

lemma met_snoc: "met (cs @ [((b', ty), cnt)]) b c \<longleftrightarrow> met cs b c \<or> b = b' \<and> passes c ty cnt"
  by (auto simp: met_def)

lemma met_Nil [simp]: "\<not> met [] b c"
  by (simp add: met_def)

definition drop_block :: "block_identifier \<Rightarrow> finalization_checkpoints \<Rightarrow> finalization_checkpoints" where
  "drop_block b c = \<lparr>ckpt_primary = hm_remove b (ckpt_primary c), ckpt_fallback = hm_remove b (ckpt_fallback c)\<rparr>"

lemma P_of_drop [simp]: "P_of (drop_block b c) x = (if x = b then None else P_of c x)"
  by (simp add: drop_block_def hm.get_del)

lemma F_of_drop [simp]: "F_of (drop_block b c) x = (if x = b then None else F_of c x)"
  by (simp add: drop_block_def hm.get_del)

definition ckpts_wf :: "finalization_checkpoints \<Rightarrow> bool" where
  "ckpts_wf c = (hm_wf (ckpt_primary c) \<and> hm_wf (ckpt_fallback c))"

lemma ckpts_wf_drop [simp]: "ckpts_wf c \<Longrightarrow> ckpts_wf (drop_block b c)"
  by (simp add: ckpts_wf_def drop_block_def hm.wf_del)

text \<open>The four outcomes of noting one attestation.\<close>

lemma note_attestation_cases:
  obtains
    (Primary) c where "P_of (inherited_checkpoints s) b = Some c" "passes c ty cnt"
      "inherited_checkpoints (note_attestation b ty cnt s) = drop_block b (inherited_checkpoints s)"
      "cc_passed_primary (note_attestation b ty cnt s) = cc_passed_primary s @ [b]"
      "cc_passed_fallback (note_attestation b ty cnt s) = cc_passed_fallback s"
  | (Fallback) cs where "\<forall>c. P_of (inherited_checkpoints s) b = Some c \<longrightarrow> \<not> passes c ty cnt"
      "F_of (inherited_checkpoints s) b = Some cs" "filter (\<lambda>c. \<not> passes c ty cnt) cs = []"
      "inherited_checkpoints (note_attestation b ty cnt s) = drop_block b (inherited_checkpoints s)"
      "cc_passed_primary (note_attestation b ty cnt s) = cc_passed_primary s"
      "cc_passed_fallback (note_attestation b ty cnt s) = cc_passed_fallback s @ [b]"
  | (Keep) cs where "\<forall>c. P_of (inherited_checkpoints s) b = Some c \<longrightarrow> \<not> passes c ty cnt"
      "F_of (inherited_checkpoints s) b = Some cs" "filter (\<lambda>c. \<not> passes c ty cnt) cs \<noteq> []"
      "inherited_checkpoints (note_attestation b ty cnt s) = (inherited_checkpoints s)
         \<lparr>ckpt_fallback := hm_insert b (filter (\<lambda>c. \<not> passes c ty cnt) cs)
            (ckpt_fallback (inherited_checkpoints s))\<rparr>"
      "cc_passed_primary (note_attestation b ty cnt s) = cc_passed_primary s"
      "cc_passed_fallback (note_attestation b ty cnt s) = cc_passed_fallback s"
  | (Untracked) "\<forall>c. P_of (inherited_checkpoints s) b = Some c \<longrightarrow> \<not> passes c ty cnt"
      "F_of (inherited_checkpoints s) b = None"
      "inherited_checkpoints (note_attestation b ty cnt s) = inherited_checkpoints s"
      "cc_passed_primary (note_attestation b ty cnt s) = cc_passed_primary s"
      "cc_passed_fallback (note_attestation b ty cnt s) = cc_passed_fallback s"
proof (cases "\<exists>c. P_of (inherited_checkpoints s) b = Some c \<and> passes c ty cnt")
  case True
  then obtain c where c: "P_of (inherited_checkpoints s) b = Some c" "checkpoint_check c ty cnt = CheckpointPassed"
    by (auto simp: check_passed)
  then have "passes c ty cnt" by (simp add: check_passed)
  then show thesis
    using c Primary [OF c(1)]
    by (simp add: note_attestation_def note_primary_def note_fallback_def Let_def hm.get_del drop_block_def)
next
  case False
  then have np: "note_primary b ty cnt s = s"
    using check_passed by (auto simp: note_primary_def Let_def split: option.split checkpoint_check_result.split)
  have nf: "\<forall>c. P_of (inherited_checkpoints s) b = Some c \<longrightarrow> \<not> passes c ty cnt" using False by auto
  show thesis
  proof (cases "F_of (inherited_checkpoints s) b")
    case None
    then show thesis using Untracked nf by (simp add: note_attestation_def np note_fallback_def Let_def)
  next
    case (Some cs)
    then show thesis
      using Fallback [OF nf Some] Keep [OF nf Some]
      by (cases "filter (\<lambda>c. \<not> passes c ty cnt) cs = []")
        (simp_all add: note_attestation_def np note_fallback_def Let_def check_passed drop_block_def)
  qed
qed

definition passed_blocks :: "checkpoints_constructor \<Rightarrow> block_identifier set" where
  "passed_blocks s = set (cc_passed_primary s) \<union> set (cc_passed_fallback s)"

text \<open>The state after noting the attestations \<open>done\<close>, in terms of the inherited checkpoints.\<close>

definition progress :: "finalization_checkpoints \<Rightarrow> attestation_counts \<Rightarrow> checkpoints_constructor \<Rightarrow> bool" where
  "progress I seen s = (ckpts_wf (inherited_checkpoints s) \<and>
     distinct (cc_passed_primary s @ cc_passed_fallback s) \<and>
     (\<forall>b. P_of (inherited_checkpoints s) b = (if b \<in> passed_blocks s then None else P_of I b)) \<and>
     (\<forall>b. F_of (inherited_checkpoints s) b =
        (if b \<in> passed_blocks s then None else map_option (filter (\<lambda>c. \<not> met seen b c)) (F_of I b))) \<and>
     (\<forall>b \<in> set (cc_passed_primary s). \<exists>c. P_of I b = Some c \<and> met seen b c) \<and>
     (\<forall>b \<in> set (cc_passed_fallback s). b \<in> (fst \<circ> fst) ` set seen \<and>
        (\<exists>cs. F_of I b = Some cs \<and> (\<forall>c \<in> set cs. met seen b c))) \<and>
     (\<forall>b c. P_of I b = Some c \<longrightarrow> b \<notin> passed_blocks s \<longrightarrow> \<not> met seen b c))"

lemma progressD:
  assumes "progress I seen s"
  shows "ckpts_wf (inherited_checkpoints s)"
    and "distinct (cc_passed_primary s @ cc_passed_fallback s)"
    and "P_of (inherited_checkpoints s) b = (if b \<in> passed_blocks s then None else P_of I b)"
    and "F_of (inherited_checkpoints s) b =
      (if b \<in> passed_blocks s then None else map_option (filter (\<lambda>c. \<not> met seen b c)) (F_of I b))"
    and "b \<in> set (cc_passed_primary s) \<Longrightarrow> \<exists>c. P_of I b = Some c \<and> met seen b c"
    and "b \<in> set (cc_passed_fallback s) \<Longrightarrow> b \<in> (fst \<circ> fst) ` set seen \<and>
      (\<exists>cs. F_of I b = Some cs \<and> (\<forall>c \<in> set cs. met seen b c))"
    and "P_of I b = Some c \<Longrightarrow> b \<notin> passed_blocks s \<Longrightarrow> \<not> met seen b c"
  using assms by (auto simp: progress_def)

lemma progress_start: "ckpts_wf I \<Longrightarrow> progress I [] (into_builder I)"
  by (simp add: progress_def into_builder_def passed_blocks_def map_option_case split: option.split)

lemma progress_step:
  assumes pr: "progress I seen s"
  shows "progress I (seen @ [((b, ty), cnt)]) (note_attestation b ty cnt s)"
proof -
  let ?t = "note_attestation b ty cnt s" and ?seen = "seen @ [((b, ty), cnt)]"
  note D = progressD [OF pr]
  have other: "met ?seen x c = met seen x c" if "x \<noteq> b" for x c using that by (simp add: met_snoc)
  have fresh: "b \<notin> passed_blocks s"
    if "P_of (inherited_checkpoints s) b = Some c \<or> F_of (inherited_checkpoints s) b = Some cs" for c cs
    using that D(3,4) [of b] by (auto split: if_splits)
  have mono: "met seen x c \<Longrightarrow> met ?seen x c" for x c by (simp add: met_snoc)
  have D5: "\<exists>c. P_of I x = Some c \<and> met ?seen x c" if "x \<in> set (cc_passed_primary s)" for x
    using D(5) [OF that] mono by blast
  have D6: "x \<in> (fst \<circ> fst) ` set ?seen \<and> (\<exists>cs. F_of I x = Some cs \<and> (\<forall>c \<in> set cs. met ?seen x c))"
    if "x \<in> set (cc_passed_fallback s)" for x
    using D(6) [OF that] mono by auto
  have filt: "filter (\<lambda>c. \<not> met ?seen x c) cs =
      (if x = b then filter (\<lambda>c. \<not> passes c ty cnt) (filter (\<lambda>c. \<not> met seen x c) cs)
       else filter (\<lambda>c. \<not> met seen x c) cs)" for x cs
    by (auto simp: met_snoc intro!: filter_cong)
  show ?thesis
  proof (cases rule: note_attestation_cases [of s b ty cnt])
    case (Primary c)
    have nb: "b \<notin> passed_blocks s" using fresh Primary(1) by blast
    have seen_b: "met ?seen b c" using Primary(2) by (simp add: met_snoc)
    have Ib: "P_of I b = Some c" using D(3) [of b] Primary(1) nb by simp
    have pb: "passed_blocks ?t = insert b (passed_blocks s)"
      using Primary(4,5) by (auto simp: passed_blocks_def)
    show ?thesis
      unfolding progress_def pb Primary(3-5)
      using D(1-4,7) D5 D6 nb Ib seen_b other
      by (simp add: filt passed_blocks_def)
  next
    case (Fallback cs)
    have nb: "b \<notin> passed_blocks s" using fresh Fallback(2) by blast
    obtain cs0 where cs0: "F_of I b = Some cs0" "cs = filter (\<lambda>c. \<not> met seen b c) cs0"
      using D(4) [of b] Fallback(2) nb by (cases "F_of I b") auto
    have all: "\<forall>c \<in> set cs0. met ?seen b c"
      using Fallback(3) cs0(2) by (auto simp: met_snoc filter_empty_conv)
    have pb: "passed_blocks ?t = insert b (passed_blocks s)"
      using Fallback(5,6) by (auto simp: passed_blocks_def)
    show ?thesis
      unfolding progress_def pb Fallback(4-6)
      using D(1-4,7) D5 D6 nb cs0(1) all other
      by (simp add: filt passed_blocks_def)
  next
    case (Keep cs)
    have nb: "b \<notin> passed_blocks s" using fresh Keep(2) by blast
    have np: "P_of I b = Some c \<Longrightarrow> \<not> passes c ty cnt" for c
      using D(3) [of b] Keep(1) nb by simp
    obtain cs0 where cs0: "F_of I b = Some cs0" "cs = filter (\<lambda>c. \<not> met seen b c) cs0"
      using D(4) [of b] Keep(2) nb by (cases "F_of I b") auto
    have pb: "passed_blocks ?t = passed_blocks s" using Keep(5,6) by (simp add: passed_blocks_def)
    have F: "F_of (inherited_checkpoints ?t) x =
        (if x \<in> passed_blocks s then None else map_option (filter (\<lambda>c. \<not> met ?seen x c)) (F_of I x))" for x
      using D(4) [of x] cs0 nb unfolding Keep(4) by (simp add: hm.get_ins filt other)
    have last: "\<not> met ?seen x c" if "P_of I x = Some c" "x \<notin> passed_blocks s" for x c
      using that D(7) np by (auto simp: met_snoc)
    show ?thesis
      unfolding progress_def pb
      using F D(1-3) D5 D6 last by (simp add: Keep(4-6) ckpts_wf_def hm.wf_ins)
  next
    case Untracked
    have pb: "passed_blocks ?t = passed_blocks s" using Untracked(4,5) by (simp add: passed_blocks_def)
    have np: "\<not> passes c ty cnt" if "P_of I b = Some c" "b \<notin> passed_blocks s" for c
      using that D(3) [of b] Untracked(1) by simp
    have F: "F_of I b = None" if "b \<notin> passed_blocks s"
      using that D(4) [of b] Untracked(2) by simp
    have last: "\<not> met ?seen x c" if "P_of I x = Some c" "x \<notin> passed_blocks s" for x c
      using that D(7) np by (auto simp: met_snoc)
    have F': "F_of (inherited_checkpoints s) x =
        (if x \<in> passed_blocks s then None else map_option (filter (\<lambda>c. \<not> met ?seen x c)) (F_of I x))" for x
      using D(4) [of x] F by (cases "x = b") (simp_all add: other)
    show ?thesis
      unfolding progress_def pb Untracked(3-5)
      using D(1-3) D5 D6 last F' by simp
  qed
qed

lemma progress_note_all:
  "progress I seen s \<Longrightarrow> progress I (seen @ counts) (note_all counts s)"
proof (induction counts s arbitrary: seen rule: note_all.induct)
  case (2 b ty cnt rest s)
  have "progress I (seen @ [((b, ty), cnt)]) (note_attestation b ty cnt s)"
    using 2(2) by (rule progress_step)
  from 2(1) [OF this] show ?case by simp
qed simp

lemma progress_update: "ckpts_wf I \<Longrightarrow> progress I counts (note_all counts (into_builder I))"
  using progress_note_all [OF progress_start, of I counts] by simp

lemma hm_get_remove_all [hm_simps]: "hm_get (hm_remove_all ks m) k = (if k \<in> set ks then None else hm_get m k)"
  unfolding hm_remove_all_def by (induction ks arbitrary: m) (auto simp: hm.get_del)

lemma hm_wf_remove_all: "hm_wf m \<Longrightarrow> hm_wf (hm_remove_all ks m)"
  unfolding hm_remove_all_def by (induction ks arbitrary: m) (auto simp: hm.wf_del)

definition late_primary :: "finalization_checkpoints \<Rightarrow> block_identifier \<Rightarrow> bool" where
  "late_primary c b = (\<exists>ck. P_of c b = Some ck \<and> deadline_reached ck)"

definition late_fallback :: "finalization_checkpoints \<Rightarrow> block_identifier \<Rightarrow> bool" where
  "late_fallback c b = (\<exists>cs. F_of c b = Some cs \<and> (\<exists>ck \<in> set cs. deadline_reached ck))"

lemma complete_checkpoints_result:
  fixes s :: checkpoints_constructor
  assumes "ckpts_wf (inherited_checkpoints s)"
  defines "c \<equiv> inherited_checkpoints s" and "r \<equiv> complete_checkpoints s"
  shows "b \<in> set (failed r) \<longleftrightarrow> late_primary c b \<and> F_of c b = None \<or> late_fallback c b"
    and "P_of (remaining_checkpoints r) b =
      (if b \<in> set (failed r) \<or> late_primary c b \<and> F_of c b \<noteq> None then None else P_of c b)"
    and "F_of (remaining_checkpoints r) b = (if b \<in> set (failed r) then None else F_of c b)"
    and "b \<in> set (transitioned_to_fallback r) \<longleftrightarrow> late_primary c b \<and> F_of c b \<noteq> None"
    and "passed_primary r = cc_passed_primary s" and "passed_fallback r = cc_passed_fallback s"
    and "ckpts_wf (remaining_checkpoints r)"
proof -
  have wf: "hm_wf (ckpt_primary c)" "hm_wf (ckpt_fallback c)"
    using assms by (simp_all add: ckpts_wf_def c_def)
  have late: "b \<in> fst ` {x \<in> set (ckpt_primary c). case x of (b, c) \<Rightarrow> deadline_reached c} \<longleftrightarrow> late_primary c b" for b
    by (force simp: late_primary_def hm_get_iff [OF wf(1)])
  have latef: "b \<in> fst ` {x \<in> set (ckpt_fallback c). case x of (b, cs) \<Rightarrow> list_ex deadline_reached cs} \<longleftrightarrow> late_fallback c b" for b
    by (force simp: late_fallback_def hm_get_iff [OF wf(2)] list_ex_iff)
  note defs = r_def complete_checkpoints_def Let_def c_def [symmetric] hm_contains_def
  show f: "b \<in> set (failed r) \<longleftrightarrow> late_primary c b \<and> F_of c b = None \<or> late_fallback c b" for b
    by (simp add: defs late latef)
  show t: "b \<in> set (transitioned_to_fallback r) \<longleftrightarrow> late_primary c b \<and> F_of c b \<noteq> None" for b
    by (simp add: defs late)
  have "P_of (remaining_checkpoints r) b =
      (if b \<in> set (failed r) then None else if b \<in> set (transitioned_to_fallback r) then None else P_of c b)"
    by (simp add: defs hm_get_remove_all)
  then show "P_of (remaining_checkpoints r) b =
      (if b \<in> set (failed r) \<or> late_primary c b \<and> F_of c b \<noteq> None then None else P_of c b)"
    using t [of b] by (auto split: if_splits)
  show "F_of (remaining_checkpoints r) b = (if b \<in> set (failed r) then None else F_of c b)"
    by (simp add: defs hm_get_remove_all)
  show "passed_primary r = cc_passed_primary s" "passed_fallback r = cc_passed_fallback s"
    by (simp_all add: defs)
  show "ckpts_wf (remaining_checkpoints r)"
    using wf by (simp add: defs ckpts_wf_def hm_wf_remove_all)
qed

definition tracked :: "finalization_checkpoints \<Rightarrow> block_identifier set" where
  "tracked c = dom (P_of c) \<union> dom (F_of c)"

text \<open>
  C25: every tracked ancestor is accounted for exactly once: after an update each block that had a
  checkpoint is either still tracked, or passed on its primary target, or passed on its fallback
  target, or failed, and no block is in two of these groups or listed twice.
\<close>

theorem update_checkpoints_partition:
  assumes "ckpts_wf I"
  shows "let r = update_checkpoints counts (into_builder I) in
    tracked I = tracked (remaining_checkpoints r) \<union> set (passed_primary r) \<union> set (passed_fallback r) \<union> set (failed r) \<and>
    distinct (passed_primary r @ passed_fallback r @ failed r) \<and>
    tracked (remaining_checkpoints r) \<inter> set (passed_primary r @ passed_fallback r @ failed r) = {}"
proof -
  let ?s = "note_all counts (into_builder I)"
  let ?c = "inherited_checkpoints ?s" and ?r = "complete_checkpoints ?s"
  note D = progressD [OF progress_update [OF assms, of counts]]
  note R = complete_checkpoints_result [OF D(1)]
  have left: "tracked ?c = tracked I - passed_blocks ?s"
    using D(3,4) by (auto simp: tracked_def dom_def split: if_splits)
  have passed: "passed_blocks ?s \<subseteq> tracked I"
    using D(5,6) by (fastforce simp: passed_blocks_def tracked_def)
  have fl: "set (failed ?r) \<subseteq> tracked ?c"
    using R(1) by (auto simp: tracked_def late_primary_def late_fallback_def)
  have rem: "tracked (remaining_checkpoints ?r) = tracked ?c - set (failed ?r)"
  proof (rule set_eqI)
    fix b
    have "b \<in> tracked (remaining_checkpoints ?r) \<longleftrightarrow>
        b \<notin> set (failed ?r) \<and> (P_of ?c b \<noteq> None \<and> \<not> (late_primary ?c b \<and> F_of ?c b \<noteq> None) \<or> F_of ?c b \<noteq> None)"
      using R(2,3) [of b] by (auto simp: tracked_def domIff)
    then show "b \<in> tracked (remaining_checkpoints ?r) \<longleftrightarrow> b \<in> tracked ?c - set (failed ?r)"
      by (auto simp: tracked_def domIff)
  qed
  have "distinct (failed ?r)" by (simp add: complete_checkpoints_def Let_def)
  moreover have "tracked I = tracked (remaining_checkpoints ?r) \<union> set (passed_primary ?r) \<union>
      set (passed_fallback ?r) \<union> set (failed ?r)"
    using left passed fl rem by (auto simp: passed_blocks_def R(5,6))
  moreover have "set (failed ?r) \<inter> (set (passed_primary ?r) \<union> set (passed_fallback ?r)) = {}"
    using left fl by (auto simp: passed_blocks_def R(5,6))
  moreover have "tracked (remaining_checkpoints ?r) \<inter> (set (passed_primary ?r) \<union> set (passed_fallback ?r)) = {}"
    using left rem by (auto simp: passed_blocks_def R(5,6))
  ultimately show ?thesis
    using D(2) rem by (auto simp: update_checkpoints_def Let_def R(5,6))
qed

definition example_checkpoints :: finalization_checkpoints where
  "example_checkpoints = \<lparr>ckpt_primary = [([1], \<lparr>current_distance = 2, deadline = 3,
       ckpt_required_attestation_count = 4, attestation_target_type = Primary\<rparr>)],
     ckpt_fallback = [([1], [\<lparr>current_distance = 2, deadline = 3,
       ckpt_required_attestation_count = 3, attestation_target_type = Primary\<rparr>])]\<rparr>"

lemma example_checkpoints_wf: "ckpts_wf example_checkpoints"
  by (simp add: ckpts_wf_def example_checkpoints_def hm_wf_def)

theorem update_checkpoints_partition_witness:
  "tracked example_checkpoints =
     tracked (remaining_checkpoints (update_checkpoints [(([1], Primary), 3)] (into_builder example_checkpoints)))
     \<union> set (passed_primary (update_checkpoints [(([1], Primary), 3)] (into_builder example_checkpoints)))
     \<union> set (passed_fallback (update_checkpoints [(([1], Primary), 3)] (into_builder example_checkpoints)))
     \<union> set (failed (update_checkpoints [(([1], Primary), 3)] (into_builder example_checkpoints)))"
  using update_checkpoints_partition [OF example_checkpoints_wf, of "[(([1], Primary), 3)]"]
  by (simp add: Let_def)

text \<open>
  C16: verdicts are justified: a block passes its primary target only if its primary checkpoint was
  met by attestations of that type in time; it passes its fallback target only if every fallback
  checkpoint was met; it fails only if some checkpoint of it reached its deadline without being met.
\<close>

theorem update_checkpoints_sound:
  assumes "ckpts_wf I"
  shows "let r = update_checkpoints counts (into_builder I) in
    (\<forall>b \<in> set (passed_primary r). \<exists>c. P_of I b = Some c \<and> met counts b c) \<and>
    (\<forall>b \<in> set (passed_fallback r). \<exists>cs. F_of I b = Some cs \<and> (\<forall>c \<in> set cs. met counts b c)) \<and>
    (\<forall>b \<in> set (failed r). \<exists>c. (P_of I b = Some c \<or> (\<exists>cs. F_of I b = Some cs \<and> c \<in> set cs)) \<and>
       deadline_reached c \<and> \<not> met counts b c)"
proof -
  let ?s = "note_all counts (into_builder I)"
  let ?c = "inherited_checkpoints ?s" and ?r = "complete_checkpoints ?s"
  note D = progressD [OF progress_update [OF assms, of counts]]
  note R = complete_checkpoints_result [OF D(1)]
  have "\<exists>c. (P_of I b = Some c \<or> (\<exists>cs. F_of I b = Some cs \<and> c \<in> set cs)) \<and>
      deadline_reached c \<and> \<not> met counts b c" if f: "b \<in> set (failed ?r)" for b
  proof (cases "late_fallback ?c b")
    case True
    then obtain cs c where c: "F_of ?c b = Some cs" "c \<in> set cs" "deadline_reached c"
      by (auto simp: late_fallback_def)
    then obtain cs0 where "F_of I b = Some cs0" "cs = filter (\<lambda>c. \<not> met counts b c) cs0"
      using D(4) [of b] by (cases "F_of I b") (auto split: if_splits)
    then show ?thesis using c by auto
  next
    case False
    then obtain c where c: "P_of ?c b = Some c" "deadline_reached c"
      using f R(1) by (auto simp: late_primary_def)
    then have "P_of I b = Some c" "b \<notin> passed_blocks ?s" using D(3) [of b] by (auto split: if_splits)
    then show ?thesis using c D(7) by blast
  qed
  then show ?thesis
    using D(5,6) by (simp add: update_checkpoints_def Let_def R(5,6))
qed

theorem update_checkpoints_sound_witness:
  "\<exists>cs. F_of example_checkpoints [1] = Some cs \<and>
     cs = [\<lparr>current_distance = 2, deadline = 3, ckpt_required_attestation_count = 3,
             attestation_target_type = Primary\<rparr>] \<and>
     met [(([1], Primary), 3)] [1] (hd cs)"
proof -
  let ?r = "update_checkpoints [(([1], Primary), 3)] (into_builder example_checkpoints)"
  have "passed_fallback ?r = [[1]]" by code_simp
  then obtain cs where "F_of example_checkpoints [1] = Some cs" "\<forall>c \<in> set cs. met [(([1], Primary), 3)] [1] c"
    using update_checkpoints_sound [OF example_checkpoints_wf, of "[(([1], Primary), 3)]"]
    by (auto simp: Let_def)
  then show ?thesis by (auto simp: example_checkpoints_def hm_get_def)
qed

text \<open>
  C26: no checkpoint outlives its deadline: whatever is still tracked after an update has a distance
  strictly below its deadline, so when the next block inherits it, it is still in time.
\<close>

theorem remaining_checkpoints_in_time:
  assumes "ckpts_wf I"
  shows "let c = remaining_checkpoints (update_checkpoints counts (into_builder I)) in
    ckpts_wf c \<and>
    (\<forall>b ck. P_of c b = Some ck \<longrightarrow> current_distance (inherit_checkpoint ck) \<le> deadline ck) \<and>
    (\<forall>b cs. F_of c b = Some cs \<longrightarrow>
       list_all (\<lambda>ck. current_distance (inherit_checkpoint ck) \<le> deadline ck) cs)"
proof -
  let ?s = "note_all counts (into_builder I)"
  let ?c = "inherited_checkpoints ?s" and ?r = "complete_checkpoints ?s"
  have "ckpts_wf ?c" using progressD(1) [OF progress_update [OF assms, of counts]] .
  note R = complete_checkpoints_result [OF this]
  have "\<not> deadline_reached ck" if "P_of (remaining_checkpoints ?r) b = Some ck" for b ck
  proof -
    have "b \<notin> set (failed ?r)" "\<not> (late_primary ?c b \<and> F_of ?c b \<noteq> None)" "P_of ?c b = Some ck"
      using that R(2) [of b] by (auto split: if_splits)
    then have "\<not> late_primary ?c b" using R(1) [of b] by auto
    then show ?thesis using \<open>P_of ?c b = Some ck\<close> by (auto simp: late_primary_def)
  qed
  moreover have "list_all (\<lambda>ck. \<not> deadline_reached ck) cs" if "F_of (remaining_checkpoints ?r) b = Some cs" for b cs
    using that R(1,3) [of b] by (auto simp: late_fallback_def list_all_iff split: if_splits)
  ultimately show ?thesis
    using R(7) by (simp add: update_checkpoints_def Let_def deadline_reached_def inherit_checkpoint_def
        list_all_iff not_le Suc_le_eq)
qed

theorem remaining_checkpoints_in_time_witness:
  "ckpts_wf (remaining_checkpoints (update_checkpoints [] (into_builder example_checkpoints)))"
  using remaining_checkpoints_in_time [OF example_checkpoints_wf, of "[]"] by (simp add: Let_def)

section \<open>Independence of the iteration order\<close>

text \<open>
  When no block is attested twice, the verdict on a block depends only on its own attestation.
\<close>

definition once_each :: "attestation_counts \<Rightarrow> bool" where
  "once_each counts = distinct (map (fst \<circ> fst) counts)"

lemma fallback_excludes_primary:
  assumes "ckpts_wf I" and "once_each counts"
    and "b \<in> set (cc_passed_fallback (note_all counts (into_builder I)))" and "P_of I b = Some c"
  shows "\<not> met counts b c"
  using assms(2,3)
proof (induction counts rule: rev_induct)
  case Nil
  then show ?case by simp
next
  case (snoc x counts)
  obtain b' ty cnt where x: "x = ((b', ty), cnt)" by (cases x) auto
  have app: "note_all (xs @ ys) s = note_all ys (note_all xs s)" for xs ys s
    by (induction xs s rule: note_all.induct) simp_all
  let ?s = "note_all counts (into_builder I)"
  have once: "once_each counts" "b' \<notin> (fst \<circ> fst) ` set counts"
    using snoc.prems(1) x by (auto simp: once_each_def)
  note D = progressD [OF progress_update [OF assms(1), of counts]]
  have in': "b \<in> set (cc_passed_fallback (note_attestation b' ty cnt ?s))"
    using snoc.prems(2) x by (simp add: app)
  show ?case
  proof (cases "b = b'")
    case False
    have "b \<in> set (cc_passed_fallback ?s)"
      using in' False by (cases rule: note_attestation_cases [of ?s b' ty cnt]) auto
    then show ?thesis using snoc.IH once(1) False x by (simp add: met_snoc)
  next
    case True
    have "b \<notin> set (cc_passed_fallback ?s)" using D(6) [of b] once(2) True by auto
    moreover have "b \<notin> set (cc_passed_primary ?s)"
      using D(5) [of b] once(2) True by (force simp: met_def)
    ultimately have "P_of (inherited_checkpoints ?s) b = Some c" "\<not> met counts b c"
      using D(3,7) [of b] assms(4) by (auto simp: passed_blocks_def)
    moreover have "\<not> passes c ty cnt"
      using in' True calculation \<open>b \<notin> set (cc_passed_fallback ?s)\<close>
      by (cases rule: note_attestation_cases [of ?s b' ty cnt]) auto
    ultimately show ?thesis using x True by (simp add: met_snoc)
  qed
qed

lemma passed_primary_iff:
  assumes "ckpts_wf I" and "once_each counts"
  shows "b \<in> set (cc_passed_primary (note_all counts (into_builder I))) \<longleftrightarrow>
    (\<exists>c. P_of I b = Some c \<and> met counts b c)"
  using progressD(5,7) [OF progress_update [OF assms(1), of counts], of b]
    fallback_excludes_primary [OF assms, of b]
  by (auto simp: passed_blocks_def)

lemma passed_fallback_iff:
  assumes "ckpts_wf I" and "once_each counts"
  shows "b \<in> set (cc_passed_fallback (note_all counts (into_builder I))) \<longleftrightarrow>
    (\<nexists>c. P_of I b = Some c \<and> met counts b c) \<and> b \<in> (fst \<circ> fst) ` set counts \<and>
    (\<exists>cs. F_of I b = Some cs \<and> (\<forall>c \<in> set cs. met counts b c))" (is "?L \<longleftrightarrow> ?R")
proof
  assume ?L
  then show ?R
    using progressD(6) [OF progress_update [OF assms(1), of counts], of b]
      fallback_excludes_primary [OF assms, of b] by blast
next
  assume R: ?R
  let ?s = "\<lambda>xs. note_all xs (into_builder I)"
  have app: "note_all (xs @ ys) s = note_all ys (note_all xs s)" for xs ys s
    by (induction xs s rule: note_all.induct) simp_all
  obtain ty cnt where "((b, ty), cnt) \<in> set counts" using R by auto
  then obtain us vs where split: "counts = us @ ((b, ty), cnt) # vs" by (auto simp: in_set_conv_decomp)
  have notin: "b \<notin> (fst \<circ> fst) ` set us" "b \<notin> (fst \<circ> fst) ` set vs"
    using assms(2) split by (auto simp: once_each_def)
  have m: "met counts b c \<longleftrightarrow> passes c ty cnt" for c
    using notin split by (force simp: met_def)
  note D = progressD [OF progress_update [OF assms(1), of us]]
  have none: "\<not> met us b c" for c using notin(1) by (force simp: met_def)
  have nb: "b \<notin> passed_blocks (?s us)"
    using D(5,6) [of b] none notin(1) by (auto simp: passed_blocks_def)
  have "b \<in> set (cc_passed_fallback (?s (us @ [((b, ty), cnt)])))"
    using R m nb none D(3,4) [of b]
    by (cases rule: note_attestation_cases [of "?s us" b ty cnt])
      (auto simp: app filter_empty_conv)
  moreover have "set (cc_passed_fallback s) \<subseteq> set (cc_passed_fallback (note_all xs s))" for xs s
  proof (induction xs s rule: note_all.induct)
    case (2 b ty cnt rest s)
    have "set (cc_passed_fallback s) \<subseteq> set (cc_passed_fallback (note_attestation b ty cnt s))"
      by (cases rule: note_attestation_cases [of s b ty cnt]) auto
    then show ?case using 2 by auto
  qed simp
  ultimately show ?L using split app [of "us @ [((b, ty), cnt)]" vs] by auto
qed

text \<open>
  the result of an update does not depend on the iteration order of the attestation map when no
  block is attested for both targets at once: the same blocks pass, fail and stay tracked, with the
  same checkpoints.
\<close>

theorem update_checkpoints_order_independent:
  assumes "ckpts_wf I" and "once_each counts" and "set counts' = set counts" and "once_each counts'"
  shows "let r = update_checkpoints counts (into_builder I);
             r' = update_checkpoints counts' (into_builder I) in
    set (passed_primary r) = set (passed_primary r') \<and> set (passed_fallback r) = set (passed_fallback r') \<and>
    set (failed r) = set (failed r') \<and>
    set (transitioned_to_fallback r) = set (transitioned_to_fallback r') \<and>
    (\<forall>b. P_of (remaining_checkpoints r) b = P_of (remaining_checkpoints r') b \<and>
         F_of (remaining_checkpoints r) b = F_of (remaining_checkpoints r') b)"
proof -
  let ?s = "note_all counts (into_builder I)" and ?s' = "note_all counts' (into_builder I)"
  note D = progressD [OF progress_update [OF assms(1), of counts]]
  note D' = progressD [OF progress_update [OF assms(1), of counts']]
  have met: "met counts' = met counts" by (simp add: met_def fun_eq_iff assms(3))
  have pp: "set (cc_passed_primary ?s') = set (cc_passed_primary ?s)"
    using passed_primary_iff [OF assms(1,2)] passed_primary_iff [OF assms(1,4)] met by auto
  have pf: "set (cc_passed_fallback ?s') = set (cc_passed_fallback ?s)"
    using passed_fallback_iff [OF assms(1,2)] passed_fallback_iff [OF assms(1,4)] met assms(3)
    by (simp add: set_eq_iff)
  have pb: "passed_blocks ?s' = passed_blocks ?s" using pp pf by (simp add: passed_blocks_def)
  have P: "P_of (inherited_checkpoints ?s') b = P_of (inherited_checkpoints ?s) b"
    and F: "F_of (inherited_checkpoints ?s') b = F_of (inherited_checkpoints ?s) b" for b
    using D(3,4) [of b] D'(3,4) [of b] pb met by simp_all
  note R = complete_checkpoints_result [OF D(1)]
  note R' = complete_checkpoints_result [OF D'(1)]
  have late: "late_primary (inherited_checkpoints ?s') = late_primary (inherited_checkpoints ?s)"
    "late_fallback (inherited_checkpoints ?s') = late_fallback (inherited_checkpoints ?s)"
    by (simp_all add: late_primary_def late_fallback_def fun_eq_iff P F)
  have f: "set (failed (complete_checkpoints ?s')) = set (failed (complete_checkpoints ?s))"
    using R(1) R'(1) late F by (simp add: set_eq_iff)
  have t: "set (transitioned_to_fallback (complete_checkpoints ?s')) =
      set (transitioned_to_fallback (complete_checkpoints ?s))"
    using R(4) R'(4) late F by (simp add: set_eq_iff)
  have "P_of (remaining_checkpoints (complete_checkpoints ?s')) b = P_of (remaining_checkpoints (complete_checkpoints ?s)) b"
    "F_of (remaining_checkpoints (complete_checkpoints ?s')) b = F_of (remaining_checkpoints (complete_checkpoints ?s)) b" for b
    by (simp_all only: R(2) R(3) R'(2) R'(3) f late P F)
  then show ?thesis
    using f t pp pf by (simp add: update_checkpoints_def Let_def R(5,6) R'(5,6))
qed

theorem update_checkpoints_order_independent_witness:
  "set (passed_fallback (update_checkpoints [(([1], Primary), 3), (([2], Primary), 9)]
      (into_builder example_checkpoints))) =
   set (passed_fallback (update_checkpoints [(([2], Primary), 9), (([1], Primary), 3)]
      (into_builder example_checkpoints)))"
  using update_checkpoints_order_independent [OF example_checkpoints_wf,
      of "[(([1], Primary), 3), (([2], Primary), 9)]" "[(([2], Primary), 9), (([1], Primary), 3)]"]
  by (auto simp: once_each_def Let_def)

text \<open>
  With attestations for both targets in one block the order decides: the same map gives a primary
  pass in one order and a fallback pass in the other.
\<close>

definition order_sensitive_checkpoints :: finalization_checkpoints where
  "order_sensitive_checkpoints = \<lparr>ckpt_primary = [([1], \<lparr>current_distance = 1, deadline = 3,
       ckpt_required_attestation_count = 4, attestation_target_type = Primary\<rparr>)],
     ckpt_fallback = [([1], [\<lparr>current_distance = 1, deadline = 6,
       ckpt_required_attestation_count = 3, attestation_target_type = Fallback\<rparr>])]\<rparr>"

lemma update_checkpoints_order_matters:
  "passed_primary (update_checkpoints [(([1], Primary), 4), (([1], Fallback), 3)]
     (into_builder order_sensitive_checkpoints)) = [[1]] \<and>
   passed_primary (update_checkpoints [(([1], Fallback), 3), (([1], Primary), 4)]
     (into_builder order_sensitive_checkpoints)) = [] \<and>
   passed_fallback (update_checkpoints [(([1], Fallback), 3), (([1], Primary), 4)]
     (into_builder order_sensitive_checkpoints)) = [[1]]"
  by code_simp

end
