(* ===== verification/Block_State.thy ===== *)
theory Block_State
  imports Envelopes Checkpoints
begin

text \<open>
  The table of facts the node keeps per block (src/node/src/node/block_state/state.rs) with its
  setters, the repository of these tables (repository.rs) and the operations that walk the block
  tree: invalidation of a branch, linking of parent and child, selection of unfinalized ancestors.

  Fields are prefixed with \<open>bs_\<close>. Hash sets that are iterated are distinct lists. Left out are the
  file path, the event timestamps and the start instant of the application, which only feed
  persistence and metrics, and the NACK of a retracted attestation, which no operation reads.
  Of a subscriber only its id is kept; waking it up is not modelled.
\<close>

section \<open>Attestation data and targets\<close>

record attestation_data =
  ad_parent_block_id :: block_identifier
  ad_block_id :: block_identifier
  ad_block_seq_no :: block_seq_no
  ad_envelope_hash :: bytes
  ad_target_type :: attestation_target_type

type_synonym attestation = "attestation_data envelope"

record attestation_target =
  generation_deadline :: nat
  required_attestation_count :: nat

record attestation_targets =
  at_primary :: attestation_target
  at_fallback :: attestation_target

section \<open>The table of facts\<close>

record block_state_identity =
  bs_block_seq_no :: "block_seq_no option"
  bs_block_identifier :: block_identifier
  bs_thread_identifier :: "thread_identifier option"
  bs_parent_block_identifier :: "block_identifier option"
  bs_ancestors :: "block_identifier list option"
  bs_block_round :: "u64 option"
  bs_block_height :: "block_height option"
  bs_producer :: "node_identifier option"
  bs_block_time_ms :: "u64 option"
  bs_envelope_hash :: "bytes option"

record block_state_proofs = block_state_identity +
  bs_prefinalization_proof :: "attestation option"
  bs_primary_finalization_proof :: "attestation option"
  bs_fallback_finalization_proof :: "attestation option"
  bs_own_attestation :: "attestation option"
  bs_own_fallback_attestation :: "attestation option"
  bs_requires_fallback_attestation :: "bool option"
  bs_verified_attestations :: "(block_identifier \<times> attestation_target_type, signer_index list) hmap"
  bs_attestation_target :: "attestation_targets option"
  bs_ancestor_blocks_finalization_checkpoints :: "finalization_checkpoints option"
  bs_known_attestation_interested_parties :: "node_identifier list"
  bs_block_stats :: "block_statistics option"

record block_state_flags = block_state_proofs +
  bs_signatures_verified :: "bool option"
  bs_common_checks_passed :: "bool option"
  bs_envelope_block_producer_signature_verified :: "bool option"
  bs_applied :: "bool option"
  bs_validated :: "bool option"
  bs_finalizes_blocks :: "block_identifier list option"
  bs_moves_attestation_list_cutoff :: "(block_seq_no \<times> block_identifier) option"
  bs_must_be_validated :: "bool option"
  bs_must_be_validated_in_fallback_case :: "bool option"
  bs_finalized :: "bool option"
  bs_prefinalized :: "bool option"
  bs_stored :: "bool option"
  bs_invalidated :: "bool option"

record block_state = block_state_flags +
  bs_bad_block_accusers :: "(occurrences \<times> signature) list"
  bs_at_least_one_verified_bad_block_accuser :: "bool option"
  bs_resolved_nacks_count :: u64
  bs_bk_set :: "block_keeper_set option"
  bs_future_bk_set :: "block_keeper_set option"
  bs_descendant_bk_set :: "block_keeper_set option"
  bs_descendant_future_bk_set :: "block_keeper_set option"
  bs_has_parent_finalized :: "bool option"
  bs_producer_selector_data :: "producer_selector option"
  bs_has_all_cross_thread_ref_data_available :: "bool option"
  bs_has_all_cross_thread_references_finalized :: "bool option"
  bs_has_cross_thread_ref_data_prepared :: "bool option"
  bs_has_primary_attestation_target_met :: "bool option"
  bs_has_fallback_attestation_target_met :: "bool option"
  bs_known_children :: "(thread_identifier, block_identifier list) hmap"
  bs_has_block_attestations_processed :: "bool option"
  bs_notifications :: "u32 list"
  bs_object_state_version :: u64

definition block_state_new :: "block_identifier \<Rightarrow> block_state" where
  "block_state_new b = \<lparr>
     bs_block_seq_no = None, bs_block_identifier = b, bs_thread_identifier = None,
     bs_parent_block_identifier = None, bs_ancestors = None, bs_block_round = None,
     bs_block_height = None, bs_producer = None, bs_block_time_ms = None, bs_envelope_hash = None,
     bs_prefinalization_proof = None, bs_primary_finalization_proof = None,
     bs_fallback_finalization_proof = None, bs_own_attestation = None,
     bs_own_fallback_attestation = None, bs_requires_fallback_attestation = None,
     bs_verified_attestations = [], bs_attestation_target = None,
     bs_ancestor_blocks_finalization_checkpoints = None,
     bs_known_attestation_interested_parties = [], bs_block_stats = None,
     bs_signatures_verified = None, bs_common_checks_passed = None,
     bs_envelope_block_producer_signature_verified = None, bs_applied = None, bs_validated = None,
     bs_finalizes_blocks = None, bs_moves_attestation_list_cutoff = None, bs_must_be_validated = None,
     bs_must_be_validated_in_fallback_case = None, bs_finalized = None, bs_prefinalized = None,
     bs_stored = None, bs_invalidated = None,
     bs_bad_block_accusers = [], bs_at_least_one_verified_bad_block_accuser = None,
     bs_resolved_nacks_count = 0, bs_bk_set = None, bs_future_bk_set = None,
     bs_descendant_bk_set = None, bs_descendant_future_bk_set = None, bs_has_parent_finalized = None,
     bs_producer_selector_data = None, bs_has_all_cross_thread_ref_data_available = None,
     bs_has_all_cross_thread_references_finalized = Some True,
     bs_has_cross_thread_ref_data_prepared = None, bs_has_primary_attestation_target_met = None,
     bs_has_fallback_attestation_target_met = None, bs_known_children = [],
     bs_has_block_attestations_processed = None, bs_notifications = [], bs_object_state_version = 0\<rparr>"

section \<open>Setters\<close>

definition notify_changed :: "block_state \<Rightarrow> block_state" where
  "notify_changed s = s\<lparr>bs_object_state_version := bs_object_state_version s + 1\<rparr>"

text \<open>
  The derived setters: no effect when the value is already there; otherwise, for a field declared
  with \<open>assert_none\<close>, a panic when another value is there; then the write and the notification.
\<close>

definition set_once ::
    "(block_state \<Rightarrow> 'v option) \<Rightarrow> (('v option \<Rightarrow> 'v option) \<Rightarrow> block_state \<Rightarrow> block_state) \<Rightarrow> 'v \<Rightarrow>
     block_state \<Rightarrow> block_state outcome" where
  "set_once field field_update v s =
     (if field s = Some v then Ok s
      else if field s \<noteq> None then Panic ''assertion failed: field.is_none()''
      else Ok (notify_changed (field_update (\<lambda>_. Some v) s)))"

definition set_again ::
    "(block_state \<Rightarrow> 'v option) \<Rightarrow> (('v option \<Rightarrow> 'v option) \<Rightarrow> block_state \<Rightarrow> block_state) \<Rightarrow> 'v \<Rightarrow>
     block_state \<Rightarrow> block_state" where
  "set_again field field_update v s =
     (if field s = Some v then s else notify_changed (field_update (\<lambda>_. Some v) s))"

abbreviation "set_block_seq_no \<equiv> set_once bs_block_seq_no bs_block_seq_no_update"
abbreviation "set_thread_identifier \<equiv> set_once bs_thread_identifier bs_thread_identifier_update"
abbreviation "set_ancestors \<equiv> set_once bs_ancestors bs_ancestors_update"
abbreviation "set_block_round \<equiv> set_once bs_block_round bs_block_round_update"
abbreviation "set_block_height \<equiv> set_once bs_block_height bs_block_height_update"
abbreviation "set_producer \<equiv> set_once bs_producer bs_producer_update"
abbreviation "set_block_time_ms \<equiv> set_once bs_block_time_ms bs_block_time_ms_update"
abbreviation "set_primary_finalization_proof \<equiv>
  set_once bs_primary_finalization_proof bs_primary_finalization_proof_update"
abbreviation "set_fallback_finalization_proof \<equiv>
  set_once bs_fallback_finalization_proof bs_fallback_finalization_proof_update"
abbreviation "set_signatures_verified \<equiv> set_once bs_signatures_verified bs_signatures_verified_update True"
abbreviation "set_common_checks_passed \<equiv> set_once bs_common_checks_passed bs_common_checks_passed_update True"
abbreviation "set_envelope_block_producer_signature_verified \<equiv>
  set_once bs_envelope_block_producer_signature_verified bs_envelope_block_producer_signature_verified_update"
abbreviation "set_validated \<equiv> set_once bs_validated bs_validated_update"
abbreviation "set_finalizes_blocks \<equiv> set_once bs_finalizes_blocks bs_finalizes_blocks_update"
abbreviation "set_moves_attestation_list_cutoff \<equiv>
  set_once bs_moves_attestation_list_cutoff bs_moves_attestation_list_cutoff_update"
abbreviation "set_must_be_validated \<equiv> set_again bs_must_be_validated bs_must_be_validated_update True"
abbreviation "set_must_be_validated_in_fallback_case \<equiv>
  set_again bs_must_be_validated_in_fallback_case bs_must_be_validated_in_fallback_case_update True"
abbreviation "set_ancestor_blocks_finalization_checkpoints \<equiv>
  set_once bs_ancestor_blocks_finalization_checkpoints bs_ancestor_blocks_finalization_checkpoints_update"
abbreviation "set_bk_set \<equiv> set_once bs_bk_set bs_bk_set_update"
abbreviation "set_future_bk_set \<equiv> set_once bs_future_bk_set bs_future_bk_set_update"
abbreviation "set_descendant_bk_set \<equiv> set_once bs_descendant_bk_set bs_descendant_bk_set_update"
abbreviation "set_descendant_future_bk_set \<equiv>
  set_once bs_descendant_future_bk_set bs_descendant_future_bk_set_update"
abbreviation "set_has_parent_finalized \<equiv> set_again bs_has_parent_finalized bs_has_parent_finalized_update True"
abbreviation "set_producer_selector_data \<equiv> set_once bs_producer_selector_data bs_producer_selector_data_update"
abbreviation "set_has_all_cross_thread_ref_data_available \<equiv>
  set_once bs_has_all_cross_thread_ref_data_available bs_has_all_cross_thread_ref_data_available_update True"
abbreviation "set_has_cross_thread_ref_data_prepared \<equiv>
  set_again bs_has_cross_thread_ref_data_prepared bs_has_cross_thread_ref_data_prepared_update True"
abbreviation "set_has_primary_attestation_target_met \<equiv>
  set_again bs_has_primary_attestation_target_met bs_has_primary_attestation_target_met_update True"
abbreviation "set_has_fallback_attestation_target_met \<equiv>
  set_again bs_has_fallback_attestation_target_met bs_has_fallback_attestation_target_met_update True"
abbreviation "set_attestation_target \<equiv> set_once bs_attestation_target bs_attestation_target_update"
abbreviation "set_block_stats \<equiv> set_once bs_block_stats bs_block_stats_update"
abbreviation "set_own_attestation \<equiv> set_once bs_own_attestation bs_own_attestation_update"
abbreviation "set_own_fallback_attestation \<equiv>
  set_once bs_own_fallback_attestation bs_own_fallback_attestation_update"
abbreviation "set_requires_fallback_attestation \<equiv>
  set_again bs_requires_fallback_attestation bs_requires_fallback_attestation_update True"
abbreviation "set_envelope_hash \<equiv> set_once bs_envelope_hash bs_envelope_hash_update"
abbreviation "set_has_block_attestations_processed \<equiv>
  set_again bs_has_block_attestations_processed bs_has_block_attestations_processed_update True"

definition set_parent_block_identifier :: "block_identifier \<Rightarrow> block_state \<Rightarrow> block_state" where
  "set_parent_block_identifier b s = s\<lparr>bs_parent_block_identifier := Some b\<rparr>"

definition set_finalized :: "block_state \<Rightarrow> block_state" where
  "set_finalized s = notify_changed (s\<lparr>bs_finalized := Some True\<rparr>)"

definition set_invalidated :: "block_state \<Rightarrow> block_state" where
  "set_invalidated s = notify_changed (s\<lparr>bs_invalidated := Some True\<rparr>)"

text \<open>The hash of the envelope that is stored is computed by the caller of the model.\<close>

definition set_stored :: "bytes \<Rightarrow> block_state \<Rightarrow> block_state" where
  "set_stored envelope_hash s =
     (if bs_stored s = Some True then s
      else notify_changed (s\<lparr>bs_stored := Some True, bs_envelope_hash := Some envelope_hash\<rparr>))"

definition set_applied :: "block_state \<Rightarrow> block_state" where
  "set_applied s = (if bs_applied s = Some True then s else notify_changed (s\<lparr>bs_applied := Some True\<rparr>))"

definition set_stored_zero_state :: "block_state \<Rightarrow> block_state" where
  "set_stored_zero_state s =
     (if bs_stored s = Some True then s
      else notify_changed (s\<lparr>bs_stored := Some True, bs_envelope_hash := Some (replicate 32 0)\<rparr>))"

definition set_prefinalized :: "attestation \<Rightarrow> block_state \<Rightarrow> block_state" where
  "set_prefinalized proof s =
     notify_changed (s\<lparr>bs_prefinalized := Some True, bs_prefinalization_proof := Some proof\<rparr>)"

section \<open>Queries\<close>

definition is_invalidated :: "block_state \<Rightarrow> bool" where
  "is_invalidated s = (bs_invalidated s = Some True)"

definition is_signatures_verified :: "block_state \<Rightarrow> bool" where
  "is_signatures_verified s = (bs_signatures_verified s = Some True)"

definition is_finalized :: "block_state \<Rightarrow> bool" where
  "is_finalized s = (bs_finalized s = Some True)"

definition is_prefinalized :: "block_state \<Rightarrow> bool" where
  "is_prefinalized s = (bs_prefinalized s = Some True)"

definition is_stored :: "block_state \<Rightarrow> bool" where
  "is_stored s = (bs_stored s = Some True)"

definition is_block_already_applied :: "block_state \<Rightarrow> bool" where
  "is_block_already_applied s = (bs_applied s = Some True)"

definition has_attestations_target_met :: "block_state \<Rightarrow> bool" where
  "has_attestations_target_met s = (bs_has_primary_attestation_target_met s = Some True)"

definition has_bad_block_nacks_resolved :: "block_state \<Rightarrow> bool" where
  "has_bad_block_nacks_resolved s =
     (if bs_bad_block_accusers s = [] then True else bs_validated s = Some True)"

definition has_all_nacks_resolved :: "block_state \<Rightarrow> bool" where
  "has_all_nacks_resolved s = has_bad_block_nacks_resolved s"

definition can_be_finalized :: "block_state \<Rightarrow> bool" where
  "can_be_finalized s = (is_signatures_verified s \<and> \<not> is_invalidated s \<and> has_all_nacks_resolved s \<and>
     is_block_already_applied s \<and> bs_has_parent_finalized s = Some True \<and>
     bs_has_all_cross_thread_references_finalized s = Some True \<and>
     bs_has_all_cross_thread_ref_data_available s = Some True \<and>
     bs_has_cross_thread_ref_data_prepared s = Some True)"

definition apply_can_be_skipped :: "block_state \<Rightarrow> bool" where
  "apply_can_be_skipped s = ((is_signatures_verified s \<and> \<not> is_invalidated s \<and>
     bs_has_all_cross_thread_ref_data_available s = Some True \<and>
     bs_has_cross_thread_ref_data_prepared s = Some True) \<or> is_finalized s \<or> is_block_already_applied s)"

definition verified_attestations_for ::
    "block_identifier \<Rightarrow> attestation_target_type \<Rightarrow> block_state \<Rightarrow> signer_index list option" where
  "verified_attestations_for b ty s =
     (if is_signatures_verified s
      then Some (case hm_get (bs_verified_attestations s) (b, ty) of Some x \<Rightarrow> x | None \<Rightarrow> [])
      else None)"

definition get_signer_index_for_node_id :: "node_identifier \<Rightarrow> block_state \<Rightarrow> signer_index option" where
  "get_signer_index_for_node_id n s =
     (case bs_bk_set s of
        Some bk \<Rightarrow> map_option bk_signer_index (get_by_node_id bk n)
      | None \<Rightarrow> None)"

definition get_bk_data_for_node_id :: "node_identifier \<Rightarrow> block_state \<Rightarrow> block_keeper_data option" where
  "get_bk_data_for_node_id n s = Option.bind (bs_bk_set s) (\<lambda>bk. get_by_node_id bk n)"

definition known_children :: "thread_identifier \<Rightarrow> block_state \<Rightarrow> block_identifier list option" where
  "known_children t s = hm_get (bs_known_children s) t"

section \<open>Additions\<close>

text \<open>Equality of two hash maps of occurrences.\<close>

definition add_suspicious :: "occurrences \<Rightarrow> signature \<Rightarrow> block_state \<Rightarrow> block_state" where
  "add_suspicious accusers sigs s =
     (if list_ex (\<lambda>e. hm_eq (fst e) accusers \<and> snd e = sigs) (bs_bad_block_accusers s) then s
      else notify_changed (s\<lparr>bs_bad_block_accusers := bs_bad_block_accusers s @ [(accusers, sigs)]\<rparr>))"

definition try_add_attestations_interest :: "node_identifier \<Rightarrow> block_state \<Rightarrow> bool \<times> block_state" where
  "try_add_attestations_interest n s =
     (if n \<in> set (bs_known_attestation_interested_parties s) then (False, s)
      else (True, notify_changed (s\<lparr>bs_known_attestation_interested_parties :=
              bs_known_attestation_interested_parties s @ [n]\<rparr>)))"

definition add_verified_attestations_for ::
    "block_identifier \<Rightarrow> attestation_target_type \<Rightarrow> signer_index list \<Rightarrow> block_state \<Rightarrow> block_state" where
  "add_verified_attestations_for b ty attestation_signers s =
     (let prev = hm_get (bs_verified_attestations s) (b, ty);
          s' = s\<lparr>bs_verified_attestations := hm_insert (b, ty) attestation_signers (bs_verified_attestations s)\<rparr>
      in if prev = None then notify_changed s' else s')"

definition add_child :: "thread_identifier \<Rightarrow> block_identifier \<Rightarrow> block_state \<Rightarrow> block_state" where
  "add_child t child s =
     (let cs = (case hm_get (bs_known_children s) t of Some x \<Rightarrow> x | None \<Rightarrow> [])
      in if child \<in> set cs then s\<lparr>bs_known_children := hm_insert t cs (bs_known_children s)\<rparr>
         else notify_changed (s\<lparr>bs_known_children := hm_insert t (cs @ [child]) (bs_known_children s)\<rparr>))"

definition add_subscriber :: "u32 \<Rightarrow> block_state \<Rightarrow> block_state" where
  "add_subscriber n s = s\<lparr>bs_notifications := bs_notifications s @ [n]\<rparr>"

definition remove_subscriber :: "u32 \<Rightarrow> block_state \<Rightarrow> block_state" where
  "remove_subscriber n s = s\<lparr>bs_notifications := filter (\<lambda>e. e \<noteq> n) (bs_notifications s)\<rparr>"

section \<open>The repository\<close>

text \<open>
  The in-memory map of weak references, its expiry and the files behind it form one store; a block
  that was never seen has a fresh table, and the zero block is its own parent.
\<close>

type_synonym block_repo = "(block_identifier, block_state) hmap"

definition fresh_state :: "block_identifier \<Rightarrow> block_state" where
  "fresh_state b =
     (let s = block_state_new b
      in if bs_parent_block_identifier s = None \<and> b = block_identifier_default
         then set_parent_block_identifier block_identifier_default s else s)"

definition repo_get :: "block_repo \<Rightarrow> block_identifier \<Rightarrow> block_state" where
  "repo_get repo b = (case hm_get repo b of Some s \<Rightarrow> s | None \<Rightarrow> fresh_state b)"

definition repo_set :: "block_identifier \<Rightarrow> block_state \<Rightarrow> block_repo \<Rightarrow> block_repo" where
  "repo_set b s repo = hm_insert b s repo"

definition repo_mut :: "block_identifier \<Rightarrow> (block_state \<Rightarrow> block_state) \<Rightarrow> block_repo \<Rightarrow> block_repo" where
  "repo_mut b f repo = repo_set b (f (repo_get repo b)) repo"

lemma repo_get_set [simp]: "repo_get (repo_set b s repo) x = (if x = b then s else repo_get repo x)"
  by (simp add: repo_get_def repo_set_def hm.get_ins)

lemma repo_get_mut [simp]: "repo_get (repo_mut b f repo) x = (if x = b then f (repo_get repo b) else repo_get repo x)"
  by (simp add: repo_mut_def)

section \<open>Facts are written once\<close>

inductive block_state_step :: "block_state \<Rightarrow> block_state \<Rightarrow> bool" where
  "set_block_seq_no v s = Ok t \<Longrightarrow> block_state_step s t"
| "set_thread_identifier v s = Ok t \<Longrightarrow> block_state_step s t"
| "set_ancestors v s = Ok t \<Longrightarrow> block_state_step s t"
| "set_block_round v s = Ok t \<Longrightarrow> block_state_step s t"
| "set_block_height v s = Ok t \<Longrightarrow> block_state_step s t"
| "set_producer v s = Ok t \<Longrightarrow> block_state_step s t"
| "set_block_time_ms v s = Ok t \<Longrightarrow> block_state_step s t"
| "set_primary_finalization_proof v s = Ok t \<Longrightarrow> block_state_step s t"
| "set_fallback_finalization_proof v s = Ok t \<Longrightarrow> block_state_step s t"
| "set_signatures_verified s = Ok t \<Longrightarrow> block_state_step s t"
| "set_common_checks_passed s = Ok t \<Longrightarrow> block_state_step s t"
| "set_envelope_block_producer_signature_verified v s = Ok t \<Longrightarrow> block_state_step s t"
| "set_validated v s = Ok t \<Longrightarrow> block_state_step s t"
| "set_finalizes_blocks v s = Ok t \<Longrightarrow> block_state_step s t"
| "set_moves_attestation_list_cutoff v s = Ok t \<Longrightarrow> block_state_step s t"
| "block_state_step s (set_must_be_validated s)"
| "block_state_step s (set_must_be_validated_in_fallback_case s)"
| "set_ancestor_blocks_finalization_checkpoints v s = Ok t \<Longrightarrow> block_state_step s t"
| "set_bk_set v s = Ok t \<Longrightarrow> block_state_step s t"
| "set_future_bk_set v s = Ok t \<Longrightarrow> block_state_step s t"
| "set_descendant_bk_set v s = Ok t \<Longrightarrow> block_state_step s t"
| "set_descendant_future_bk_set v s = Ok t \<Longrightarrow> block_state_step s t"
| "block_state_step s (set_has_parent_finalized s)"
| "set_producer_selector_data v s = Ok t \<Longrightarrow> block_state_step s t"
| "set_has_all_cross_thread_ref_data_available s = Ok t \<Longrightarrow> block_state_step s t"
| "block_state_step s (set_has_cross_thread_ref_data_prepared s)"
| "block_state_step s (set_has_primary_attestation_target_met s)"
| "block_state_step s (set_has_fallback_attestation_target_met s)"
| "set_attestation_target v s = Ok t \<Longrightarrow> block_state_step s t"
| "set_block_stats v s = Ok t \<Longrightarrow> block_state_step s t"
| "set_own_attestation v s = Ok t \<Longrightarrow> block_state_step s t"
| "set_own_fallback_attestation v s = Ok t \<Longrightarrow> block_state_step s t"
| "block_state_step s (set_requires_fallback_attestation s)"
| "set_envelope_hash v s = Ok t \<Longrightarrow> block_state_step s t"
| "block_state_step s (set_has_block_attestations_processed s)"
| "block_state_step s (set_parent_block_identifier b s)"
| "block_state_step s (set_finalized s)"
| "block_state_step s (set_invalidated s)"
| "block_state_step s (set_stored h s)"
| "block_state_step s (set_applied s)"
| "block_state_step s (set_stored_zero_state s)"
| "block_state_step s (set_prefinalized p s)"
| "block_state_step s (add_suspicious a g s)"
| "block_state_step s (add_verified_attestations_for b ty sg s)"
| "block_state_step s (add_child th b s)"
| "block_state_step s (add_subscriber n s)"
| "block_state_step s (remove_subscriber n s)"
| "block_state_step s (snd (try_add_attestations_interest n s))"

definition keeps :: "(block_state \<Rightarrow> 'v option) \<Rightarrow> block_state \<Rightarrow> block_state \<Rightarrow> bool" where
  "keeps f s t = (f s = None \<or> f t = f s)"

definition stays_true :: "(block_state \<Rightarrow> bool option) \<Rightarrow> block_state \<Rightarrow> block_state \<Rightarrow> bool" where
  "stays_true f s t = (f s \<noteq> Some True \<or> f t = Some True)"

definition facts_kept :: "block_state \<Rightarrow> block_state \<Rightarrow> bool" where
  "facts_kept s t = (bs_block_identifier t = bs_block_identifier s \<and>
     keeps bs_block_seq_no s t \<and>
     keeps bs_thread_identifier s t \<and>
     keeps bs_ancestors s t \<and>
     keeps bs_block_round s t \<and>
     keeps bs_block_height s t \<and>
     keeps bs_producer s t \<and>
     keeps bs_block_time_ms s t \<and>
     keeps bs_primary_finalization_proof s t \<and>
     keeps bs_fallback_finalization_proof s t \<and>
     keeps bs_signatures_verified s t \<and>
     keeps bs_common_checks_passed s t \<and>
     keeps bs_envelope_block_producer_signature_verified s t \<and>
     keeps bs_validated s t \<and>
     keeps bs_finalizes_blocks s t \<and>
     keeps bs_moves_attestation_list_cutoff s t \<and>
     keeps bs_ancestor_blocks_finalization_checkpoints s t \<and>
     keeps bs_bk_set s t \<and>
     keeps bs_future_bk_set s t \<and>
     keeps bs_descendant_bk_set s t \<and>
     keeps bs_descendant_future_bk_set s t \<and>
     keeps bs_producer_selector_data s t \<and>
     keeps bs_has_all_cross_thread_ref_data_available s t \<and>
     keeps bs_attestation_target s t \<and>
     keeps bs_block_stats s t \<and>
     keeps bs_own_attestation s t \<and>
     keeps bs_own_fallback_attestation s t \<and>
     stays_true bs_finalized s t \<and>
     stays_true bs_invalidated s t \<and>
     stays_true bs_prefinalized s t \<and>
     stays_true bs_stored s t \<and>
     stays_true bs_applied s t \<and>
     stays_true bs_must_be_validated s t \<and>
     stays_true bs_must_be_validated_in_fallback_case s t \<and>
     stays_true bs_has_parent_finalized s t \<and>
     stays_true bs_has_cross_thread_ref_data_prepared s t \<and>
     stays_true bs_has_primary_attestation_target_met s t \<and>
     stays_true bs_has_fallback_attestation_target_met s t \<and>
     stays_true bs_requires_fallback_attestation s t \<and>
     stays_true bs_has_block_attestations_processed s t)"

lemma facts_kept_refl [simp]: "facts_kept s s"
  by (simp add: facts_kept_def keeps_def stays_true_def)

lemma keeps_trans: "keeps f s t \<Longrightarrow> keeps f t u \<Longrightarrow> keeps f s u"
  by (auto simp: keeps_def)

lemma stays_true_trans: "stays_true f s t \<Longrightarrow> stays_true f t u \<Longrightarrow> stays_true f s u"
  by (auto simp: stays_true_def)

lemma facts_kept_trans: "facts_kept s t \<Longrightarrow> facts_kept t u \<Longrightarrow> facts_kept s u"
  unfolding facts_kept_def by (intro conjI; elim conjE; (simp; fail)?; (rule keeps_trans stays_true_trans, assumption+))

lemma set_once_Ok:
  "set_once f u v s = Ok t \<longleftrightarrow>
     (if f s = Some v then t = s else f s = None \<and> t = notify_changed (u (\<lambda>_. Some v) s))"
  by (auto simp: set_once_def)

lemmas block_state_updates = set_again_def notify_changed_def set_parent_block_identifier_def
  set_finalized_def set_invalidated_def set_stored_def set_applied_def set_stored_zero_state_def
  set_prefinalized_def add_suspicious_def try_add_attestations_interest_def
  add_verified_attestations_for_def add_child_def add_subscriber_def remove_subscriber_def Let_def

lemma block_state_step_facts: "block_state_step s t \<Longrightarrow> facts_kept s t"
  by (induction rule: block_state_step.induct)
    (simp_all add: facts_kept_def keeps_def stays_true_def set_once_Ok block_state_updates split: if_splits)



text \<open>
  Three facts are not: the parent and the prefinalization proof are overwritten, and a second set
  of verified attestations replaces the first without a notification.
\<close>

lemma parent_is_overwritten:
  "bs_parent_block_identifier (set_parent_block_identifier c (set_parent_block_identifier b s)) = Some c"
  by (simp add: set_parent_block_identifier_def)

lemma verified_attestations_are_replaced:
  "hm_get (bs_verified_attestations
     (add_verified_attestations_for b ty ys (add_verified_attestations_for b ty xs s))) (b, ty) = Some ys"
  by (simp add: add_verified_attestations_for_def Let_def notify_changed_def hm.get_ins)

end
