(* ===== verification/Threads_Table.thy ===== *)
theory Threads_Table
  imports Identifiers
begin

text \<open>
  Routing of accounts to threads: bitmasks (src/node/src/bitmask/mask.rs), tables of bitmasks
  scanned for the first matching row (src/node/src/bitmask/table.rs) and their instance for
  account routings with the merge of two tables (src/node/src/types/threads_table.rs).
  The generic code is parameterised by the bit-and of its bits type and the default values, as the
  trait bounds of the source are.
\<close>

section \<open>Bitmasks and tables\<close>

record 'b bitmask =
  mask_bits :: 'b
  meaningful_mask_bits :: 'b

definition bitmask_default :: "'b \<Rightarrow> 'b bitmask" where
  "bitmask_default dflt = \<lparr>mask_bits = dflt, meaningful_mask_bits = dflt\<rparr>"

definition mask_is_match :: "('b \<Rightarrow> 'b \<Rightarrow> 'b) \<Rightarrow> 'b bitmask \<Rightarrow> 'b \<Rightarrow> bool" where
  "mask_is_match band m account_address =
     (let msk = band (mask_bits m) (meaningful_mask_bits m);
          meaningful_value = band account_address (meaningful_mask_bits m)
      in meaningful_value = msk)"

type_synonym ('b, 't) bitmasks_table = "('b bitmask \<times> 't) list"

definition table_new :: "'b \<Rightarrow> 't \<Rightarrow> ('b, 't) bitmasks_table" where
  "table_new bits_default target_default = [(bitmask_default bits_default, target_default)]"

fun find_match :: "('b \<Rightarrow> 'b \<Rightarrow> 'b) \<Rightarrow> ('b, 't) bitmasks_table \<Rightarrow> 'b \<Rightarrow> 't option" where
  "find_match band [] bits = None"
| "find_match band ((msk, target) # rows) bits =
     (if mask_is_match band msk bits then Some target else find_match band rows bits)"

definition table_is_match ::
    "('b \<Rightarrow> 'b \<Rightarrow> 'b) \<Rightarrow> ('b, 't) bitmasks_table \<Rightarrow> 'b \<Rightarrow> 't \<Rightarrow> bool option" where
  "table_is_match band table bits target = map_option (\<lambda>t. t = target) (find_match band table bits)"

definition insert_above ::
    "nat \<Rightarrow> 'b bitmask \<Rightarrow> 't \<Rightarrow> ('b, 't) bitmasks_table \<Rightarrow> ('b, 't) bitmasks_table outcome" where
  "insert_above row_index msk thread masks =
     (if row_index = length masks
      then Bail ''It is not allowed to insert below the default row.''
      else if \<not> row_index < length masks
      then Bail ''row_index is outside of the table size.''
      else Ok (take row_index masks @ [(msk, thread)] @ drop row_index masks))"

definition table_remove ::
    "nat \<Rightarrow> ('b, 't) bitmasks_table \<Rightarrow> (('b bitmask \<times> 't) \<times> ('b, 't) bitmasks_table) outcome" where
  "table_remove row_index masks =
     (if row_index + 1 = length masks
      then Bail ''It is not allowed to remove the default row''
      else if \<not> row_index + 1 < length masks
      then Bail ''row_index is out of bounds.''
      else Ok (masks ! row_index, take row_index masks @ drop (Suc row_index) masks))"

section \<open>Account routings\<close>

datatype account_routing = AccountRouting (dapp: bytes) (address: bytes)

definition account_routing_from :: "bytes option \<Rightarrow> bytes \<Rightarrow> account_routing" where
  "account_routing_from d acc = AccountRouting (case d of Some x \<Rightarrow> x | None \<Rightarrow> acc) acc"

definition routing_default :: account_routing where
  "routing_default = AccountRouting (replicate 32 0) (replicate 32 0)"

definition routing_bitand :: "account_routing \<Rightarrow> account_routing \<Rightarrow> account_routing" where
  "routing_bitand x y =
     AccountRouting (address_bitand (dapp x) (dapp y)) (address_bitand (address x) (address y))"

definition routing_get_bit_value :: "account_routing \<Rightarrow> nat \<Rightarrow> bool option" where
  "routing_get_bit_value r index =
     (if index < 256 then get_bit_value (dapp r) index else get_bit_value (address r) (index - 256))"

definition routing_set_bit_value :: "account_routing \<Rightarrow> nat \<Rightarrow> bool \<Rightarrow> account_routing option" where
  "routing_set_bit_value r index value =
     (if index < 256
      then map_option (\<lambda>d. AccountRouting d (address r)) (set_bit_value (dapp r) index value)
      else map_option (AccountRouting (dapp r)) (set_bit_value (address r) (index - 256) value))"

fun routing_bits_shift_loop :: "u8 \<Rightarrow> nat \<Rightarrow> bool list \<Rightarrow> nat list \<Rightarrow> bool list" where
  "routing_bits_shift_loop part inner result [] = result"
| "routing_bits_shift_loop part inner result (shift # shifts) =
     (let bits = push_bit shift (1 :: u8)
      in routing_bits_shift_loop part inner
           (result[inner * 8 + (7 - shift) := ((part AND bits) \<noteq> 0)]) shifts)"

fun routing_bits_inner_loop :: "bytes \<Rightarrow> bool list \<Rightarrow> nat list \<Rightarrow> bool list" where
  "routing_bits_inner_loop part result [] = result"
| "routing_bits_inner_loop part result (inner # rest) =
     routing_bits_inner_loop part
       (routing_bits_shift_loop (part ! inner) inner result [0..<8]) rest"

definition routing_bits :: "account_routing \<Rightarrow> bool list list" where
  "routing_bits r =
     map (\<lambda>part. routing_bits_inner_loop part (replicate 256 False) [0..<32]) [dapp r, address r]"

section \<open>The threads table\<close>

type_synonym threads_table = "(account_routing, thread_identifier) bitmasks_table"

definition threads_table_default :: threads_table where
  "threads_table_default = table_new routing_default thread_identifier_default"

abbreviation default_row :: "account_routing bitmask \<times> thread_identifier" where
  "default_row \<equiv> (bitmask_default routing_default, thread_identifier_default)"

definition route :: "threads_table \<Rightarrow> account_routing \<Rightarrow> thread_identifier option" where
  "route = find_match routing_bitand"

definition list_threads :: "threads_table \<Rightarrow> thread_identifier set" where
  "list_threads table = set (map snd table)"

function merge_loop :: "threads_table \<Rightarrow> threads_table \<Rightarrow> threads_table \<Rightarrow> threads_table outcome" where
  "merge_loop self_rows another_rows merged =
     (if self_rows = [] \<and> another_rows = [] then Ok merged
      else if self_rows \<noteq> [] then
        (let (msk, thread_id) = last self_rows in
         if another_rows = [] then
           obind (insert_above 0 msk thread_id merged) (merge_loop (butlast self_rows) another_rows)
         else
           (let (msk2, thread_id2) = last another_rows in
            if thread_id = thread_id2 then
              (if msk \<noteq> msk2 then Bail ''ensure msk == msk2''
               else obind (insert_above 0 msk thread_id merged)
                      (merge_loop (butlast self_rows) (butlast another_rows)))
            else if \<exists>row\<in>set self_rows. snd row = thread_id2 then
              obind (insert_above 0 msk thread_id merged)
                (merge_loop (butlast self_rows) another_rows)
            else if \<exists>row\<in>set another_rows. snd row = thread_id then
              obind (insert_above 0 msk2 thread_id2 merged)
                (merge_loop self_rows (butlast another_rows))
            else
              obind (insert_above 0 msk thread_id merged)
                (merge_loop (butlast self_rows) another_rows)))
      else
        (let (msk, thread_id) = last another_rows in
         obind (insert_above 0 msk thread_id merged)
           (merge_loop self_rows (butlast another_rows))))"
  by pat_completeness auto
termination
  by (relation "measure (\<lambda>(s, a, m). length s + length a)") (auto simp: length_greater_0_conv [symmetric]
      simp del: length_greater_0_conv)

definition merge :: "threads_table \<Rightarrow> threads_table \<Rightarrow> threads_table outcome" where
  "merge self another =
     (if self = [] \<or> last self \<noteq> default_row then Bail ''ensure self_rows.pop()''
      else if another = [] \<or> last another \<noteq> default_row then Bail ''ensure another_table_rows.pop()''
      else merge_loop (butlast self) (butlast another) threads_table_default)"

declare merge_loop.simps [simp del]

section \<open>Well-formed tables\<close>

definition routing_ok :: "account_routing \<Rightarrow> bool" where
  "routing_ok r = (length (dapp r) = 32 \<and> length (address r) = 32)"

definition table_wf :: "threads_table \<Rightarrow> bool" where
  "table_wf t = (t \<noteq> [] \<and> last t = default_row)"

lemma address_bitand_zero: "address_bitand a (replicate 32 0) = replicate 32 0"
  by (simp add: address_bitand_def list_eq_iff_nth_eq)

lemma default_mask_matches [simp]: "mask_is_match routing_bitand (bitmask_default routing_default) a"
  by (simp add: mask_is_match_def bitmask_default_def routing_default_def routing_bitand_def
      address_bitand_zero)

lemma find_match_append:
  "find_match band (xs @ ys) a =
     (case find_match band xs a of None \<Rightarrow> find_match band ys a | Some t \<Rightarrow> Some t)"
  by (induction xs) auto

lemma find_match_SomeD: "find_match band rows a = Some t \<Longrightarrow>
    \<exists>m. (m, t) \<in> set rows \<and> mask_is_match band m a"
  by (induction rows) (auto split: if_splits)

lemma table_wf_split: "table_wf t \<longleftrightarrow> (\<exists>rows. t = rows @ [default_row])"
  by (metis append_butlast_last_id last_snoc snoc_eq_iff_butlast table_wf_def)

lemma table_wf_default [simp]: "table_wf threads_table_default"
  by (simp add: table_wf_def threads_table_default_def table_new_def)

lemma route_total: "table_wf t \<Longrightarrow> \<exists>thread \<in> list_threads t. route t a = Some thread"
  by (auto simp: table_wf_split route_def list_threads_def find_match_append
      split: option.splits dest!: find_match_SomeD)
    force

lemma insert_above_eq_Ok:
  "insert_above i m th t = Ok t' \<longleftrightarrow> i < length t \<and> t' = take i t @ [(m, th)] @ drop i t"
  by (auto simp: insert_above_def)

lemma insert_above_wf: "table_wf t \<Longrightarrow> insert_above i m th t = Ok t' \<Longrightarrow> table_wf t'"
  by (auto simp: insert_above_eq_Ok table_wf_def)

lemma route_insert_above:
  assumes "insert_above i m th t = Ok t'"
  shows "route t' a =
    (case find_match routing_bitand (take i t) a of
       Some x \<Rightarrow> Some x
     | None \<Rightarrow> if mask_is_match routing_bitand m a then Some th else route t a)"
proof -
  have "route t a = find_match routing_bitand (take i t @ drop i t) a"
    by (simp add: route_def)
  then show ?thesis
    using assms by (auto simp: insert_above_eq_Ok route_def find_match_append simp del: append_take_drop_id
        split: option.splits)
qed

lemma table_remove_eq_Ok:
  "table_remove i t = Ok (row, t') \<longleftrightarrow>
     Suc i < length t \<and> row = t ! i \<and> t' = take i t @ drop (Suc i) t"
  by (auto simp: table_remove_def)

lemma table_remove_wf: "table_wf t \<Longrightarrow> table_remove i t = Ok (row, t') \<Longrightarrow> table_wf t'"
  by (auto simp: table_remove_eq_Ok table_wf_def last_drop)

section \<open>The routing contract\<close>

text \<open>
  What the rest of the node relies on: a well-formed table sends every account to exactly one of
  its threads, and both updates keep that.
\<close>

locale routing_contract =
  fixes send :: "'t \<Rightarrow> 'a \<Rightarrow> 'th option"
    and threads :: "'t \<Rightarrow> 'th set"
    and ok :: "'t \<Rightarrow> bool"
    and upd :: "'t \<Rightarrow> 'u \<Rightarrow> 't \<Rightarrow> bool"
  assumes send_total: "ok t \<Longrightarrow> \<exists>th \<in> threads t. send t a = Some th"
    and upd_ok: "ok t \<Longrightarrow> upd t u t' \<Longrightarrow> ok t'"
begin

lemma no_account_lost: "reach ok upd t \<Longrightarrow> \<exists>th \<in> threads t. send t a = Some th"
proof -
  assume "reach ok upd t"
  then have "ok t" by (induction rule: reach.induct) (auto intro: upd_ok)
  then show ?thesis by (rule send_total)
qed

lemma accounts_partitioned:
  assumes "reach ok upd t"
  shows "(\<Union>th \<in> threads t. {a. send t a = Some th}) = UNIV"
    and "th \<noteq> th' \<Longrightarrow> {a. send t a = Some th} \<inter> {a. send t a = Some th'} = {}"
  using no_account_lost [OF assms] by auto

end

datatype table_update =
    InsertAbove nat "account_routing bitmask" thread_identifier
  | RemoveRow nat

inductive table_step :: "threads_table \<Rightarrow> table_update \<Rightarrow> threads_table \<Rightarrow> bool" where
  step_insert: "insert_above i m th t = Ok t' \<Longrightarrow> table_step t (InsertAbove i m th) t'"
| step_remove: "table_remove i t = Ok (row, t') \<Longrightarrow> table_step t (RemoveRow i) t'"

lemma table_step_wf: "table_step t u t' \<Longrightarrow> table_wf t \<Longrightarrow> table_wf t'"
  by (induction rule: table_step.induct) (auto intro: insert_above_wf table_remove_wf)

interpretation tt: routing_contract route list_threads table_wf table_step
  by unfold_locales (auto intro: route_total table_step_wf)

text \<open>
  C8: no account is ever lost by the threads table: after any sequence of successful
  \<open>insert_above\<close> and \<open>remove\<close> calls from a table whose last row is the default row, \<open>find_match\<close>
  does not panic and returns a thread of the table, for every account routing.
\<close>

theorem threads_table_routes_every_account:
  assumes "reach table_wf table_step t"
  shows "\<exists>th \<in> list_threads t. find_match routing_bitand t a = Some th"
  using tt.no_account_lost [OF assms, of a] by (simp add: route_def)

theorem threads_table_routes_every_account_witness:
  "\<exists>th \<in> list_threads [(bitmask_default routing_default, replicate 34 1), default_row].
     find_match routing_bitand [(bitmask_default routing_default, replicate 34 1), default_row]
       (AccountRouting (replicate 32 9) (replicate 32 9)) = Some th"
proof (rule threads_table_routes_every_account)
  have "table_step threads_table_default
      (InsertAbove 0 (bitmask_default routing_default) (replicate 34 1))
      [(bitmask_default routing_default, replicate 34 1), default_row]"
    by (rule step_insert) (simp add: insert_above_def threads_table_default_def table_new_def)
  then show "reach table_wf table_step
      [(bitmask_default routing_default, replicate 34 1), default_row]"
    by (meson reach.intros table_wf_default)
qed

text \<open>
  \<open>insert_above\<close> changes the route of exactly those accounts that no row above the new one
  matches and that the new mask matches; they go to the new thread. It fails for an index at or
  below the end of the table and for no other.
\<close>

theorem insert_above_routing:
  assumes "i < length t"
  shows "\<exists>t'. insert_above i m th t = Ok t' \<and>
    (\<forall>a. route t' a =
       (if find_match routing_bitand (take i t) a = None \<and> mask_is_match routing_bitand m a
        then Some th else route t a))"
proof -
  obtain t' where t': "insert_above i m th t = Ok t'"
    using assms by (simp add: insert_above_def)
  have "route t' a = (if find_match routing_bitand (take i t) a = None \<and>
      mask_is_match routing_bitand m a then Some th else route t a)" for a
    using route_insert_above [OF t', of a] find_match_append [of routing_bitand "take i t" "drop i t" a]
    by (auto simp: route_def split: option.splits)
  with t' show ?thesis by blast
qed

theorem insert_above_routing_witness:
  "\<exists>t'. insert_above 0 (bitmask_default routing_default) (replicate 34 1) threads_table_default = Ok t' \<and>
     route t' routing_default = Some (replicate 34 1)"
  using insert_above_routing [of 0 threads_table_default "bitmask_default routing_default" "replicate 34 1"]
  by (auto simp: threads_table_default_def table_new_def)

section \<open>Masks and bits\<close>

lemma routing_eq_iff_bits:
  assumes "routing_ok x" and "routing_ok y"
  shows "x = y \<longleftrightarrow> (\<forall>i<512. routing_get_bit_value x i = routing_get_bit_value y i)"
proof -
  have split: "(\<forall>i<512. P i) \<longleftrightarrow> (\<forall>i<256. P i) \<and> (\<forall>i<256. P (i + 256))" for P :: "nat \<Rightarrow> bool"
  proof (intro iffI conjI allI impI)
    fix i assume "(\<forall>i<256. P i) \<and> (\<forall>i<256. P (i + 256))" "(i :: nat) < 512"
    then show "P i" by (cases "i < 256") (auto dest: spec [of _ "i - 256"])
  qed auto
  have "x = y \<longleftrightarrow> dapp x = dapp y \<and> address x = address y"
    by (cases x; cases y) simp
  then show ?thesis
    using assms by (simp add: split routing_ok_def address_eq_iff_bits routing_get_bit_value_def)
qed

lemma routing_bit_bitand:
  "i < 512 \<Longrightarrow> routing_get_bit_value (routing_bitand x y) i =
     Some (the (routing_get_bit_value x i) \<and> the (routing_get_bit_value y i))"
  by (simp add: routing_get_bit_value_def routing_bitand_def get_bit_value_bitand)

text \<open>
  A mask matches an account routing iff the two agree on every one of the 512 bits the mask
  declares meaningful; meaningless bits have no influence.
\<close>

theorem mask_is_match_bits:
  "mask_is_match routing_bitand m a \<longleftrightarrow>
     (\<forall>i<512. the (routing_get_bit_value (meaningful_mask_bits m) i) \<longrightarrow>
        the (routing_get_bit_value a i) = the (routing_get_bit_value (mask_bits m) i))"
proof -
  have "routing_ok (routing_bitand x y)" for x y
    by (simp add: routing_ok_def routing_bitand_def)
  then have "mask_is_match routing_bitand m a \<longleftrightarrow>
      (\<forall>i<512. routing_get_bit_value (routing_bitand a (meaningful_mask_bits m)) i =
         routing_get_bit_value (routing_bitand (mask_bits m) (meaningful_mask_bits m)) i)"
    by (simp add: mask_is_match_def routing_eq_iff_bits)
  then show ?thesis
    by (auto simp: routing_bit_bitand)
qed

definition example_mask :: "account_routing bitmask" where
  "example_mask = \<lparr>mask_bits = AccountRouting (0x80 # replicate 31 0) (replicate 32 0),
     meaningful_mask_bits = AccountRouting (0xC0 # replicate 31 0) (replicate 32 0)\<rparr>"

definition example_account :: account_routing where
  "example_account = AccountRouting (0xBF # replicate 31 7) (replicate 32 7)"

theorem mask_is_match_bits_witness:
  "mask_is_match routing_bitand example_mask example_account \<and>
   the (routing_get_bit_value example_account 1) = the (routing_get_bit_value (mask_bits example_mask) 1)"
proof -
  have "mask_is_match routing_bitand example_mask example_account"
    and "the (routing_get_bit_value (meaningful_mask_bits example_mask) 1)"
    by code_simp+
  then show ?thesis
    using mask_is_match_bits [of example_mask example_account] by simp
qed

lemma length_shift_loop [simp]:
  "length (routing_bits_shift_loop p k r ss) = length r"
  by (induction ss arbitrary: r) (simp_all add: Let_def)

lemma nth_shift_loop:
  assumes "set ss \<subseteq> {..<8}" and "distinct ss" and "k * 8 + 8 \<le> length r"
  shows "routing_bits_shift_loop p k r ss ! i =
    (if i div 8 = k \<and> 7 - i mod 8 \<in> set ss then bit p (7 - i mod 8) else r ! i)"
  using assms
proof (induction ss arbitrary: r)
  case Nil
  then show ?case by simp
next
  case (Cons s ss)
  have s: "s < 8" using Cons.prems(1) by simp
  have pos: "i = k * 8 + (7 - s) \<longleftrightarrow> i div 8 = k \<and> 7 - i mod 8 = s"
  proof
    assume "i = k * 8 + (7 - s)"
    then show "i div 8 = k \<and> 7 - i mod 8 = s" using bit_position [OF s, of k] by metis
  next
    assume a: "i div 8 = k \<and> 7 - i mod 8 = s"
    moreover have "i mod 8 \<le> 7" using mod_less_divisor [of 8 i] by linarith
    ultimately have "i mod 8 = 7 - s" by auto
    with a show "i = k * 8 + (7 - s)" using div_mult_mod_eq [of i 8] by simp
  qed
  define r' where "r' = r[k * 8 + (7 - s) := (p AND push_bit s 1 \<noteq> 0)]"
  have "r' ! i = (if i div 8 = k \<and> 7 - i mod 8 = s then bit p s else r ! i)"
  proof (cases "i = k * 8 + (7 - s)")
    case True
    then have "r' ! i = (p AND push_bit s 1 \<noteq> 0)"
      unfolding r'_def using Cons.prems(3) s by simp
    then show ?thesis
      using True pos bit_iff_and_push_bit_not_eq_0 [of p s] by metis
  next
    case False
    then have "r' ! i = r ! i" unfolding r'_def by (metis nth_list_update_neq)
    then show ?thesis using False pos by metis
  qed
  moreover have "routing_bits_shift_loop p k r (s # ss) = routing_bits_shift_loop p k r' ss"
    by (simp only: routing_bits_shift_loop.simps r'_def Let_def)
  ultimately show ?case
    using Cons.IH [of r'] Cons.prems by (auto simp: r'_def)
qed

lemma nth_inner_loop:
  assumes "set ks \<subseteq> {..<32}" and "length r = 256"
  shows "length (routing_bits_inner_loop part r ks) = 256 \<and>
    routing_bits_inner_loop part r ks ! i =
      (if i div 8 \<in> set ks then bit (part ! (i div 8)) (7 - i mod 8) else r ! i)"
  using assms
proof (induction ks arbitrary: r)
  case Nil
  then show ?case by simp
next
  case (Cons k ks)
  have "k * 8 + 8 \<le> 256" using Cons.prems(1) by auto
  then have "routing_bits_shift_loop (part ! k) k r [0..<8] ! i =
      (if i div 8 = k then bit (part ! k) (7 - i mod 8) else r ! i)"
    using Cons.prems(2) nth_shift_loop [of "[0..<8]" k r "part ! k" i] by (auto simp: atLeast0LessThan)
  then show ?case
    using Cons by auto
qed

text \<open>
  The unpacking of an account routing into two arrays of 256 booleans, used by the load
  balancer, agrees with the bit-by-bit access: bit \<open>i\<close> of part \<open>p\<close> is \<open>get_bit_value(256 * p + i)\<close>.
\<close>

theorem routing_bits_get_bit_value:
  assumes "p < 2" and "i < 256"
  shows "routing_get_bit_value r (256 * p + i) = Some (routing_bits r ! p ! i)"
proof -
  have "i div 8 < 32" using assms(2) by simp
  then have "routing_bits_inner_loop part (replicate 256 False) [0..<32] ! i =
      bit (part ! (i div 8)) (7 - i mod 8)" for part
    by (subst nth_inner_loop [THEN conjunct2]) auto
  moreover have "p = 0 \<or> p = 1" using assms(1) by auto
  ultimately show ?thesis
    using assms(2) by (auto simp: routing_bits_def routing_get_bit_value_def get_bit_value_bit)
qed

theorem routing_bits_get_bit_value_witness:
  "routing_get_bit_value (AccountRouting (replicate 32 0) (1 # replicate 31 0)) 263 =
     Some (routing_bits (AccountRouting (replicate 32 0) (1 # replicate 31 0)) ! 1 ! 7)"
  using routing_bits_get_bit_value [of 1 7 "AccountRouting (replicate 32 0) (1 # replicate 31 0)"]
  by simp

section \<open>Merging two tables\<close>

lemma insert_above_0 [simp]: "m \<noteq> [] \<Longrightarrow> insert_above 0 k t m = Ok ((k, t) # m)"
  by (simp add: insert_above_def)

lemma subseq_snoc_last: "xs \<noteq> [] \<Longrightarrow> subseq (butlast xs) zs \<Longrightarrow> subseq xs (zs @ [last xs])"
  by (metis append_butlast_last_id list_emb_append_mono subseq_order.refl)

lemma set_butlast_last: "xs \<noteq> [] \<Longrightarrow> set xs = insert (last xs) (set (butlast xs))"
  by (metis append_butlast_last_id list.simps(15) rotate1.simps(2) set_rotate1)

lemma butlasts_shorter:
  "xs \<noteq> [] \<Longrightarrow> length (butlast xs) + length (butlast ys) < length xs + length ys"
  by (simp add: add_less_le_mono)

text \<open>One turn of the loop pops a row of one of the tables, or the same row of both.\<close>

lemma merge_loop_turn:
  assumes "merge_loop xs ys acc = Ok r" and "acc \<noteq> []" and "xs \<noteq> [] \<or> ys \<noteq> []"
  obtains
    (Self) "xs \<noteq> []" "merge_loop (butlast xs) ys (last xs # acc) = Ok r"
      "ys = [] \<or> snd (last ys) \<in> snd ` set (butlast xs) \<or> snd (last xs) \<notin> snd ` set ys"
      "ys = [] \<or> snd (last xs) \<noteq> snd (last ys)"
  | (Other) "ys \<noteq> []" "merge_loop xs (butlast ys) (last ys # acc) = Ok r"
      "snd (last ys) \<notin> snd ` set xs"
  | (Both) "xs \<noteq> []" "ys \<noteq> []" "last xs = last ys"
      "merge_loop (butlast xs) (butlast ys) (last xs # acc) = Ok r"
proof -
  obtain m t where x: "last xs = (m, t)" by (cases "last xs")
  obtain m2 t2 where y: "last ys = (m2, t2)" by (cases "last ys")
  consider "xs = []" "ys \<noteq> []" | "xs \<noteq> []" "ys = []" | "xs \<noteq> []" "ys \<noteq> []"
    using assms(3) by auto
  then show thesis
  proof cases
    case 1
    then show thesis
      using assms(2) assms(1) [unfolded merge_loop.simps [of xs ys acc]] y by (intro Other) simp_all
  next
    case 2
    then show thesis
      using assms(2) assms(1) [unfolded merge_loop.simps [of xs ys acc]] x by (intro Self) simp_all
  next
    case 3
    show thesis
      using assms(1,2) 3 x y Self Other Both set_butlast_last [OF 3(1)]
      by (simp add: merge_loop.simps [of xs] image_iff split: if_splits) (metis snd_conv)+
  qed
qed

lemma merge_loop_result:
  assumes "merge_loop xs ys acc = Ok r" and "acc \<noteq> []"
  shows "\<exists>zs. r = zs @ acc \<and> subseq xs zs \<and> subseq ys zs \<and> set zs = set xs \<union> set ys"
  using assms
proof (induction "length xs + length ys" arbitrary: xs ys acc rule: less_induct)
  case less
  show ?case
  proof (cases "xs = [] \<and> ys = []")
    case True
    then show ?thesis using less.prems by (simp add: merge_loop.simps)
  next
    case False
    then have "xs \<noteq> [] \<or> ys \<noteq> []" by simp
    with less.prems show ?thesis
    proof (cases rule: merge_loop_turn)
      case Self
      then obtain zs where "r = zs @ last xs # acc" "subseq (butlast xs) zs" "subseq ys zs"
          "set zs = set (butlast xs) \<union> set ys"
        using less.hyps [of "butlast xs" ys] by auto
      then show ?thesis
        using Self by (intro exI [of _ "zs @ [last xs]"])
          (auto simp: set_butlast_last [OF Self(1)] intro: subseq_snoc_last list_emb_prefix)
    next
      case Other
      then obtain zs where "r = zs @ last ys # acc" "subseq xs zs" "subseq (butlast ys) zs"
          "set zs = set xs \<union> set (butlast ys)"
        using less.hyps [of xs "butlast ys" "last ys # acc"] by auto
      then show ?thesis
        using Other by (intro exI [of _ "zs @ [last ys]"])
          (auto simp: set_butlast_last [OF Other(1)] intro: subseq_snoc_last list_emb_prefix)
    next
      case Both
      then obtain zs where "r = zs @ last xs # acc" "subseq (butlast xs) zs" "subseq (butlast ys) zs"
          "set zs = set (butlast xs) \<union> set (butlast ys)"
        using less.hyps [OF butlasts_shorter [OF Both(1)] Both(4)] by auto
      then show ?thesis
        using Both subseq_snoc_last [OF Both(1)] subseq_snoc_last [OF Both(2)]
        by (intro exI [of _ "zs @ [last xs]"])
          (auto simp: set_butlast_last [OF Both(1)] set_butlast_last [OF Both(2)])
    qed
  qed
qed

lemma merge_loop_self: "acc \<noteq> [] \<Longrightarrow> merge_loop xs xs acc = Ok (xs @ acc)"
proof (induction xs arbitrary: acc rule: rev_induct)
  case Nil
  then show ?case by (simp add: merge_loop.simps)
next
  case (snoc x xs)
  then show ?case by (cases x) (simp add: merge_loop.simps [of "xs @ [x]" for x])
qed

definition masks_agree :: "threads_table \<Rightarrow> threads_table \<Rightarrow> bool" where
  "masks_agree xs ys = (\<forall>x \<in> set xs. \<forall>y \<in> set ys. snd x = snd y \<longrightarrow> x = y)"

definition orders_agree :: "threads_table \<Rightarrow> threads_table \<Rightarrow> bool" where
  "orders_agree xs ys =
     (\<forall>t u. t \<noteq> u \<longrightarrow> subseq [t, u] (map snd xs) \<longrightarrow> \<not> subseq [u, t] (map snd ys))"

lemma masks_agree_butlast:
  "masks_agree xs ys \<Longrightarrow> masks_agree (butlast xs) ys \<and> masks_agree xs (butlast ys) \<and>
     masks_agree (butlast xs) (butlast ys)"
  by (auto simp: masks_agree_def dest!: in_set_butlastD)

lemma subseq_butlast: "subseq (butlast xs) xs"
  by (metis append_butlast_last_id butlast.simps(1) list_emb_prefix subseq_order.refl)

lemma orders_agree_butlast:
  assumes "orders_agree xs ys"
  shows "orders_agree (butlast xs) ys" and "orders_agree xs (butlast ys)"
  using assms subseq_order.trans [OF _ subseq_map [OF subseq_butlast [of xs], of snd]]
    subseq_order.trans [OF _ subseq_map [OF subseq_butlast [of ys], of snd]]
  unfolding orders_agree_def by blast+

lemma merge_loop_succeeds:
  "masks_agree xs ys \<Longrightarrow> acc \<noteq> [] \<Longrightarrow> \<exists>r. merge_loop xs ys acc = Ok r"
proof (induction "length xs + length ys" arbitrary: xs ys acc rule: less_induct)
  case less
  note agree = masks_agree_butlast [OF less.prems(1)]
  have eq: "last xs = last ys" if "xs \<noteq> []" "ys \<noteq> []" "snd (last xs) = snd (last ys)"
    using that less.prems(1) by (simp add: masks_agree_def)
  have self: "\<exists>r. merge_loop (butlast xs) ys (a # acc) = Ok r" if "xs \<noteq> []" for a
    using less.hyps [of "butlast xs" ys "a # acc"] agree that by simp
  have other: "\<exists>r. merge_loop xs (butlast ys) (a # acc) = Ok r" if "ys \<noteq> []" for a
    using less.hyps [of xs "butlast ys" "a # acc"] agree that by simp
  have both: "\<exists>r. merge_loop (butlast xs) (butlast ys) (a # acc) = Ok r" if "xs \<noteq> []" for a
    using less.hyps [of "butlast xs" "butlast ys" "a # acc"] butlasts_shorter [OF that, of ys] agree by simp
  obtain m t m2 t2 where xy: "last xs = (m, t)" "last ys = (m2, t2)"
    by (cases "last xs"; cases "last ys")
  show ?case
    using self other both eq xy less.prems(2)
    by (subst merge_loop.simps, cases "xs = []"; cases "ys = []") simp_all
qed

lemma in_subseq_last: "t \<in> set (butlast us) \<Longrightarrow> subseq [t, last us] us"
  by (metis append_butlast_last_id butlast.simps(1) empty_iff list.set(1) list_emb_append_mono
      subseq_order.refl subseq_singleton_left append_Cons append_Nil)

lemma map_snd_butlast_last:
  "xs \<noteq> [] \<Longrightarrow> snd (last xs) = last (map snd xs) \<and> snd ` set (butlast xs) = set (butlast (map snd xs))"
  by (simp add: last_map map_butlast [symmetric])

lemma merge_loop_distinct:
  assumes "merge_loop xs ys acc = Ok r" and "acc \<noteq> []"
    and "distinct (map snd xs)" and "distinct (map snd ys)" and "orders_agree xs ys"
    and "distinct (map snd acc)" and "snd ` set acc \<inter> snd ` (set xs \<union> set ys) = {}"
  shows "distinct (map snd r)"
  using assms
proof (induction "length xs + length ys" arbitrary: xs ys acc rule: less_induct)
  case less
  have dx: "distinct (map snd (butlast xs))" "xs \<noteq> [] \<Longrightarrow> snd (last xs) \<notin> snd ` set (butlast xs)"
    using less.prems(3) by (cases xs rule: rev_cases; auto)+
  have dy: "distinct (map snd (butlast ys))" "ys \<noteq> [] \<Longrightarrow> snd (last ys) \<notin> snd ` set (butlast ys)"
    using less.prems(4) by (cases ys rule: rev_cases; auto)+
  show ?case
  proof (cases "xs = [] \<and> ys = []")
    case True
    then show ?thesis using less.prems by (simp add: merge_loop.simps)
  next
    case False
    then have "xs \<noteq> [] \<or> ys \<noteq> []" by simp
    with less.prems(1,2) show ?thesis
    proof (cases rule: merge_loop_turn)
      case Self
      have "snd (last xs) \<notin> snd ` set ys"
      proof
        assume a: "snd (last xs) \<in> snd ` set ys"
        then have ne: "ys \<noteq> []" by auto
        with Self(3,4) a have u: "snd (last ys) \<in> snd ` set (butlast xs)" "snd (last xs) \<noteq> snd (last ys)"
          by auto
        with a have "snd (last xs) \<in> snd ` set (butlast ys)"
          using set_butlast_last [OF ne] by auto
        with u show False
          using less.prems(5) Self(1) ne in_subseq_last [of _ "map snd xs"] in_subseq_last [of _ "map snd ys"]
          unfolding orders_agree_def by (metis map_snd_butlast_last)
      qed
      then show ?thesis
        using Self(1,2) less.prems dx orders_agree_butlast(1) [OF less.prems(5)] set_butlast_last [OF Self(1)]
        by (intro less.hyps [of "butlast xs" ys "last xs # acc"]) auto
    next
      case Other
      then show ?thesis
        using less.prems dy orders_agree_butlast(2) [OF less.prems(5)] set_butlast_last [OF Other(1)]
        by (intro less.hyps [of xs "butlast ys" "last ys # acc"]) auto
    next
      case Both
      show ?thesis
        using Both less.prems dx dy set_butlast_last [OF Both(1)] set_butlast_last [OF Both(2)]
          orders_agree_butlast(1) [OF orders_agree_butlast(2) [OF less.prems(5)]]
        by (intro less.hyps [OF butlasts_shorter [OF Both(1)] Both(4)]) auto
    qed
  qed
qed

lemma threads_table_default_ne [simp]: "threads_table_default \<noteq> []"
  by (simp add: threads_table_default_def table_new_def)

lemma merge_wf_eq:
  "table_wf t \<Longrightarrow> table_wf u \<Longrightarrow> merge t u = merge_loop (butlast t) (butlast u) threads_table_default"
  by (simp add: merge_def table_wf_def)

lemma merge_eq_Ok:
  assumes "merge t u = Ok r"
  obtains xs ys zs where "t = xs @ [default_row]" "u = ys @ [default_row]" "r = zs @ [default_row]"
    "merge_loop xs ys threads_table_default = Ok r" "subseq xs zs" "subseq ys zs" "set zs = set xs \<union> set ys"
proof -
  have w: "table_wf t" "table_wf u"
    using assms by (auto simp: merge_def table_wf_def split: if_splits)
  then obtain xs ys where xy: "t = xs @ [default_row]" "u = ys @ [default_row]"
    by (auto simp: table_wf_split)
  with assms w have "merge_loop xs ys threads_table_default = Ok r"
    by (simp add: merge_wf_eq)
  moreover from merge_loop_result [OF this] obtain zs where
    "r = zs @ [default_row]" "subseq xs zs" "subseq ys zs" "set zs = set xs \<union> set ys"
    by (auto simp: threads_table_default_def table_new_def)
  ultimately show thesis using xy that by blast
qed

text \<open>
  C11: a successful \<open>ThreadsTable::merge\<close> returns a well-formed table (default row last) that has
  exactly the rows of the two tables and keeps the relative order of the rows of each, so a
  first-match scan sees the rules of either table in their old priority.
\<close>

theorem merge_is_ordered_union:
  assumes "merge t u = Ok r"
  shows "table_wf r \<and> set r = set t \<union> set u \<and> subseq t r \<and> subseq u r"
  using assms by (rule merge_eq_Ok) (auto simp: table_wf_split intro: list_emb_append_mono)

definition example_row :: "u8 \<Rightarrow> account_routing bitmask \<times> thread_identifier" where
  "example_row b = (\<lparr>mask_bits = AccountRouting (replicate 32 b) (replicate 32 0),
     meaningful_mask_bits = AccountRouting (replicate 32 255) (replicate 32 0)\<rparr>, replicate 34 b)"

lemma example_merge:
  "merge [example_row 1, default_row] [example_row 2, default_row] =
     Ok [example_row 2, example_row 1, default_row]"
  by code_simp

theorem merge_is_ordered_union_witness:
  "table_wf [example_row 2, example_row 1, default_row] \<and>
   set [example_row 2, example_row 1, default_row] =
     set [example_row 1, default_row] \<union> set [example_row 2, default_row] \<and>
   subseq [example_row 1, default_row] [example_row 2, example_row 1, default_row] \<and>
   subseq [example_row 2, default_row] [example_row 2, example_row 1, default_row]"
  by (rule merge_is_ordered_union [OF example_merge])

text \<open>
  Merging never fails on compatible tables: when both end in the default row, list each thread
  once, give a shared thread the same mask and never order two threads oppositely, \<open>merge\<close> succeeds
  and the result lists each thread once. In particular a table merged with itself is unchanged.
\<close>

theorem merge_compatible_tables:
  assumes "table_wf t" and "table_wf u" and "distinct (map snd t)" and "distinct (map snd u)"
    and "masks_agree (butlast t) (butlast u)" and "orders_agree (butlast t) (butlast u)"
  shows "(\<exists>r. merge t u = Ok r \<and> distinct (map snd r)) \<and> merge t t = Ok t"
proof -
  obtain xs ys where xy: "t = xs @ [default_row]" "u = ys @ [default_row]"
    using assms(1,2) by (auto simp: table_wf_split)
  obtain r where r: "merge t u = Ok r"
    using merge_loop_succeeds [OF assms(5), of threads_table_default] assms(1,2)
    by (auto simp: merge_wf_eq)
  then have "merge_loop xs ys threads_table_default = Ok r"
    using assms(1,2) xy by (simp add: merge_wf_eq)
  then have "distinct (map snd r)"
  proof (rule merge_loop_distinct)
    show "distinct (map snd xs)" "distinct (map snd ys)" "orders_agree xs ys"
      using assms(3,4,6) xy by simp_all
    show "snd ` set threads_table_default \<inter> snd ` (set xs \<union> set ys) = {}"
      using assms(3,4) xy by (simp add: threads_table_default_def table_new_def image_Un)
  qed (simp_all add: threads_table_default_def table_new_def)
  moreover have "merge t t = Ok t"
    using assms(1) xy(1) merge_loop_self [of threads_table_default xs]
    by (simp add: merge_wf_eq threads_table_default_def table_new_def)
  ultimately show ?thesis using r by blast
qed

theorem merge_compatible_tables_witness:
  "\<exists>r. merge [example_row 1, default_row] [example_row 2, default_row] = Ok r \<and> distinct (map snd r)"
  by (rule merge_compatible_tables [THEN conjunct1])
    (auto simp: table_wf_def example_row_def thread_identifier_default_def masks_agree_def
      orders_agree_def)

end
