(* ===== verification/Blocks.thy ===== *)
theory Blocks
  imports Block_State Threads_Table
begin

text \<open>
  Blocks of the chain: the common section, the wrapped serialised form with its explicit length
  prefixes and the hash over it (src/node/src/types/ackinacki_block/mod.rs, serialize.rs,
  common_section.rs, hash.rs).

  Of a TVM block only what the node reads of it is kept. The byte encodings of bincode and of the
  TVM library and the SHA-256 function are parameters, collected in \<open>block_codec\<close>. The reason
  carried by a NACK and the changes of the dapp table are left out; no operation modelled here
  reads them.
\<close>

section \<open>The parts of a block\<close>

record tvm_block =
  tb_hash :: block_identifier
  tb_prev_root_hash :: block_identifier
  tb_prev_seq_no :: block_seq_no
  tb_seq_no :: block_seq_no
  tb_gen_utime_ms :: u64

record ack_data =
  ack_block_id :: block_identifier
  ack_block_seq_no :: block_seq_no

record nack_data =
  nack_block_id :: block_identifier
  nack_block_seq_no :: block_seq_no

record common_section =
  cs_block_height :: block_height
  cs_share_state_resources :: "(thread_identifier, block_identifier) hmap option"
  cs_block_attestations :: "attestation list"
  cs_round :: u64
  cs_producer_id :: node_identifier
  cs_thread_id :: thread_identifier
  cs_threads_table :: "threads_table option"
  cs_refs :: "block_identifier list"
  cs_block_keeper_set_changes :: "block_keeper_set_change list"
  cs_verify_complexity :: u16
  cs_acks :: "ack_data envelope list"
  cs_nacks :: "nack_data envelope list"
  cs_producer_selector :: "producer_selector option"

record wrapped_common_section =
  w_round :: u64
  w_share_state_resources :: "(thread_identifier, block_identifier) hmap option"
  w_block_attestations :: bytes
  w_producer_id :: node_identifier
  w_block_keeper_set_changes :: "block_keeper_set_change list"
  w_verify_complexity :: u16
  w_acks :: bytes
  w_nacks :: bytes
  w_producer_selector :: producer_selector
  w_thread_identifier :: thread_identifier
  w_refs :: "block_identifier list"
  w_threads_table :: "threads_table option"
  w_block_height :: block_height

record acki_nacki_block =
  ab_common_section :: common_section
  ab_block :: tvm_block
  ab_tx_cnt :: nat
  ab_hash :: bytes
  ab_raw_data :: "bytes option"

type_synonym block_envelope = "acki_nacki_block envelope"

record block_codec =
  enc_attestations :: "attestation list \<Rightarrow> bytes option"
  dec_attestations :: "bytes \<Rightarrow> attestation list option"
  enc_acks :: "ack_data envelope list \<Rightarrow> bytes option"
  dec_acks :: "bytes \<Rightarrow> ack_data envelope list option"
  enc_nacks :: "nack_data envelope list \<Rightarrow> bytes option"
  dec_nacks :: "bytes \<Rightarrow> nack_data envelope list option"
  enc_wrapped :: "wrapped_common_section \<Rightarrow> bytes option"
  dec_wrapped :: "bytes \<Rightarrow> wrapped_common_section option"
  enc_boc :: "tvm_block \<Rightarrow> bytes option"
  dec_boc :: "bytes \<Rightarrow> tvm_block option"
  sha256 :: "bytes \<Rightarrow> bytes"

section \<open>Reading a block\<close>

definition ab_parent :: "acki_nacki_block \<Rightarrow> block_identifier" where
  "ab_parent b = tb_prev_root_hash (ab_block b)"

definition ab_parent_seq_no :: "acki_nacki_block \<Rightarrow> block_seq_no" where
  "ab_parent_seq_no b = tb_prev_seq_no (ab_block b)"

definition ab_identifier :: "acki_nacki_block \<Rightarrow> block_identifier" where
  "ab_identifier b = tb_hash (ab_block b)"

definition ab_seq_no :: "acki_nacki_block \<Rightarrow> block_seq_no" where
  "ab_seq_no b = tb_seq_no (ab_block b)"

definition ab_time :: "acki_nacki_block \<Rightarrow> u64" where
  "ab_time b = tb_gen_utime_ms (ab_block b)"

definition is_thread_splitting :: "acki_nacki_block \<Rightarrow> bool" where
  "is_thread_splitting b =
     (case cs_threads_table (ab_common_section b) of
        Some this_table \<Rightarrow>
          list_ex (\<lambda>(_, thread_identifier). is_spawning_block thread_identifier (ab_identifier b)) this_table
      | None \<Rightarrow> False)"

section \<open>The common section\<close>

definition common_section_new ::
    "thread_identifier \<Rightarrow> u64 \<Rightarrow> node_identifier \<Rightarrow> block_keeper_set_change list \<Rightarrow> u16 \<Rightarrow>
     block_identifier list \<Rightarrow> threads_table option \<Rightarrow> block_height \<Rightarrow> common_section" where
  "common_section_new thread_id round producer_id changes verify_complexity refs table height =
     \<lparr>cs_block_height = height, cs_share_state_resources = None, cs_block_attestations = [],
      cs_round = round, cs_producer_id = producer_id, cs_thread_id = thread_id,
      cs_threads_table = table, cs_refs = refs, cs_block_keeper_set_changes = changes,
      cs_verify_complexity = verify_complexity, cs_acks = [], cs_nacks = [],
      cs_producer_selector = None\<rparr>"

definition acki_nacki_block_new ::
    "thread_identifier \<Rightarrow> tvm_block \<Rightarrow> node_identifier \<Rightarrow> nat \<Rightarrow> block_keeper_set_change list \<Rightarrow> u16 \<Rightarrow>
     block_identifier list \<Rightarrow> threads_table option \<Rightarrow> u64 \<Rightarrow> block_height \<Rightarrow> acki_nacki_block" where
  "acki_nacki_block_new thread_id block producer_id tx_cnt changes verify_complexity refs table round height =
     \<lparr>ab_common_section =
        common_section_new thread_id round producer_id changes verify_complexity refs table height,
      ab_block = block, ab_tx_cnt = tx_cnt, ab_hash = replicate 32 0, ab_raw_data = None\<rparr>"

definition wrap_serialize :: "block_codec \<Rightarrow> common_section \<Rightarrow> wrapped_common_section outcome" where
  "wrap_serialize c cs =
     obind (expect (enc_attestations c (cs_block_attestations cs)) ''Failed to serialize last finalized blocks'')
       (\<lambda>attestations_data.
     obind (expect (enc_acks c (cs_acks cs)) ''Failed to serialize last finalized blocks'') (\<lambda>acks_data.
     obind (expect (enc_nacks c (cs_nacks cs)) ''Failed to serialize last finalized blocks'') (\<lambda>nacks_data.
     obind (expect (cs_producer_selector cs) ''Producer selector must be set before serialization'')
       (\<lambda>selector.
     Ok \<lparr>w_round = cs_round cs, w_share_state_resources = cs_share_state_resources cs,
         w_block_attestations = attestations_data, w_producer_id = cs_producer_id cs,
         w_block_keeper_set_changes = cs_block_keeper_set_changes cs,
         w_verify_complexity = cs_verify_complexity cs, w_acks = acks_data, w_nacks = nacks_data,
         w_producer_selector = selector, w_thread_identifier = cs_thread_id cs, w_refs = cs_refs cs,
         w_threads_table = cs_threads_table cs, w_block_height = cs_block_height cs\<rparr>))))"

definition wrap_deserialize :: "block_codec \<Rightarrow> wrapped_common_section \<Rightarrow> common_section outcome" where
  "wrap_deserialize c w =
     obind (expect (dec_attestations c (w_block_attestations w)) ''Failed to deserialize block attestations'')
       (\<lambda>attestations.
     obind (expect (dec_acks c (w_acks w)) ''Failed to deserialize acks'') (\<lambda>acks.
     obind (expect (dec_nacks c (w_nacks w)) ''Failed to deserialize nacks'') (\<lambda>nacks.
     Ok \<lparr>cs_block_height = w_block_height w, cs_share_state_resources = w_share_state_resources w,
         cs_block_attestations = attestations, cs_round = w_round w,
         cs_producer_id = w_producer_id w, cs_thread_id = w_thread_identifier w,
         cs_threads_table = w_threads_table w, cs_refs = w_refs w,
         cs_block_keeper_set_changes = w_block_keeper_set_changes w,
         cs_verify_complexity = w_verify_complexity w, cs_acks = acks, cs_nacks = nacks,
         cs_producer_selector = Some (w_producer_selector w)\<rparr>)))"

definition serialize_common_section :: "block_codec \<Rightarrow> common_section \<Rightarrow> bytes outcome" where
  "serialize_common_section c cs =
     obind (wrap_serialize c cs) (\<lambda>w.
     (case enc_wrapped c w of Some bs \<Rightarrow> Ok bs | None \<Rightarrow> Bail ''bincode''))"

definition deserialize_common_section :: "block_codec \<Rightarrow> bytes \<Rightarrow> common_section outcome" where
  "deserialize_common_section c bs =
     (case dec_wrapped c bs of
        None \<Rightarrow> Bail ''Failed to deserialize common section''
      | Some w \<Rightarrow> wrap_deserialize c w)"

section \<open>The serialised block\<close>

text \<open>\<open>usize::to_be_bytes\<close> on a 64-bit target, and back; \<open>split_at\<close> panics past the end.\<close>

fun be_bytes :: "nat \<Rightarrow> nat \<Rightarrow> bytes" where
  "be_bytes 0 n = []"
| "be_bytes (Suc k) n = be_bytes k (n div 256) @ [of_nat (n mod 256)]"

definition to_be_bytes :: "nat \<Rightarrow> bytes" where
  "to_be_bytes n = be_bytes 8 n"

definition from_be_bytes :: "bytes \<Rightarrow> nat" where
  "from_be_bytes bs = foldl (\<lambda>acc b. acc * 256 + unat b) 0 bs"

definition split_at :: "nat \<Rightarrow> bytes \<Rightarrow> (bytes \<times> bytes) outcome" where
  "split_at n bs = (if n \<le> length bs then Ok (take n bs, drop n bs) else Panic ''mid > len'')"

definition get_raw_data_without_hash :: "block_codec \<Rightarrow> acki_nacki_block \<Rightarrow> bytes outcome" where
  "get_raw_data_without_hash c b =
     obind (serialize_common_section c (ab_common_section b)) (\<lambda>common_section.
     (case enc_boc c (ab_block b) of
        None \<Rightarrow> Bail ''Failed to serialize tvm block''
      | Some block_data \<Rightarrow>
          Ok (to_be_bytes (length common_section) @ common_section @
              to_be_bytes (length block_data) @ block_data @ to_be_bytes (ab_tx_cnt b))))"

definition serialize_block :: "block_codec \<Rightarrow> acki_nacki_block \<Rightarrow> bytes outcome" where
  "serialize_block c b =
     (case ab_raw_data b of
        Some data \<Rightarrow> Ok data
      | None \<Rightarrow> obind (get_raw_data_without_hash c b) (\<lambda>data. Ok (data @ ab_hash b)))"

definition deserialize_block :: "block_codec \<Rightarrow> bytes \<Rightarrow> acki_nacki_block outcome" where
  "deserialize_block c raw_data =
     obind (split_at 8 raw_data) (\<lambda>(common_section_len_data, rest1).
     obind (split_at (from_be_bytes common_section_len_data) rest1) (\<lambda>(common_section_data, rest2).
     obind (deserialize_common_section c common_section_data) (\<lambda>common_section.
     obind (split_at 8 rest2) (\<lambda>(block_len_data, rest3).
     obind (split_at (from_be_bytes block_len_data) rest3) (\<lambda>(block_data, rest4).
     (case dec_boc c block_data of
        None \<Rightarrow> Bail ''Failed to deserialize tvm block''
      | Some block \<Rightarrow>
          obind (split_at 8 rest4) (\<lambda>(tx_cnt_data, rest5).
          if length rest5 \<noteq> 32 then Panic ''assertion failed: rest.len() == 32''
          else Ok \<lparr>ab_common_section = common_section, ab_block = block,
                   ab_tx_cnt = from_be_bytes tx_cnt_data, ab_hash = rest5,
                   ab_raw_data = Some raw_data\<rparr>)))))))"

section \<open>The hash\<close>

definition check_hash :: "block_codec \<Rightarrow> acki_nacki_block \<Rightarrow> bool outcome" where
  "check_hash c b =
     obind
       (case ab_raw_data b of
          Some raw_data \<Rightarrow>
            (if length raw_data > 32 then Ok (take (length raw_data - 32) raw_data)
             else Panic ''assertion failed: raw_data.len() > BLOCK_SUFFIX_LEN'')
        | None \<Rightarrow> get_raw_data_without_hash c b)
       (\<lambda>data_for_hash. Ok (ab_hash b = sha256 c data_for_hash))"

definition set_common_section ::
    "block_codec \<Rightarrow> common_section \<Rightarrow> bool \<Rightarrow> acki_nacki_block \<Rightarrow> acki_nacki_block outcome" where
  "set_common_section c cs update_hash b =
     (let b1 = b\<lparr>ab_common_section := cs\<rparr> in
      if update_hash then
        obind (get_raw_data_without_hash c b1) (\<lambda>raw_data.
        let hash = sha256 c raw_data
        in Ok (b1\<lparr>ab_hash := hash, ab_raw_data := Some (raw_data @ hash)\<rparr>))
      else Ok b1)"

section \<open>Round trips\<close>

text \<open>What the code relies on of the encodings: decoding inverts encoding, and a digest has 32 bytes.\<close>

definition codec_ok :: "block_codec \<Rightarrow> bool" where
  "codec_ok c =
     ((\<forall>x bs. enc_attestations c x = Some bs \<longrightarrow> dec_attestations c bs = Some x) \<and>
      (\<forall>x bs. enc_acks c x = Some bs \<longrightarrow> dec_acks c bs = Some x) \<and>
      (\<forall>x bs. enc_nacks c x = Some bs \<longrightarrow> dec_nacks c bs = Some x) \<and>
      (\<forall>x bs. enc_wrapped c x = Some bs \<longrightarrow> dec_wrapped c bs = Some x) \<and>
      (\<forall>x bs. enc_boc c x = Some bs \<longrightarrow> dec_boc c bs = Some x) \<and>
      (\<forall>bs. length (sha256 c bs) = 32))"

text \<open>A vector of the address space: its length fits \<open>usize\<close>.\<close>

definition fits_usize :: "bytes \<Rightarrow> bool" where
  "fits_usize bs = (length bs < 2 ^ 64)"

lemma length_be_bytes [simp]: "length (be_bytes k n) = k"
  by (induction k arbitrary: n) simp_all

lemma length_to_be_bytes [simp]: "length (to_be_bytes n) = 8"
  by (simp add: to_be_bytes_def)

lemma from_be_bytes_snoc: "from_be_bytes (bs @ [b]) = from_be_bytes bs * 256 + unat b"
  by (simp add: from_be_bytes_def)

lemma from_be_bytes_be_bytes: "from_be_bytes (be_bytes k n) = n mod 256 ^ k"
proof (induction k arbitrary: n)
  case 0
  then show ?case by (simp add: from_be_bytes_def)
next
  case (Suc k)
  have "n mod 256 < 2 ^ LENGTH(8)" by simp
  then have u: "unat (of_nat (n mod 256) :: u8) = n mod 256"
    by (simp add: unat_of_nat)
  have "from_be_bytes (be_bytes (Suc k) n) = (n div 256) mod 256 ^ k * 256 + n mod 256"
    by (simp add: from_be_bytes_snoc Suc u)
  also have "\<dots> = n mod (256 * 256 ^ k)"
    by (simp add: mod_mult2_eq mult.commute)
  finally show ?case by simp
qed

lemma from_to_be_bytes [simp]: "n < 2 ^ 64 \<Longrightarrow> from_be_bytes (to_be_bytes n) = n"
  by (simp add: to_be_bytes_def from_be_bytes_be_bytes)

lemma split_at_append [simp]: "split_at (length xs) (xs @ ys) = Ok (xs, ys)"
  by (simp add: split_at_def)

lemma split_at_8 [simp]: "split_at 8 (to_be_bytes n @ ys) = Ok (to_be_bytes n, ys)"
  using split_at_append [of "to_be_bytes n" ys] by simp

lemma common_section_roundtrip:
  assumes "codec_ok c" and "serialize_common_section c cs = Ok bs"
  shows "deserialize_common_section c bs = Ok cs"
  using assms
  by (auto simp: serialize_common_section_def deserialize_common_section_def wrap_serialize_def
      wrap_deserialize_def codec_ok_def split: option.splits)

lemma deserialize_layout:
  assumes "deserialize_common_section c csd = Ok cs" and "dec_boc c bd = Some blk"
    and "fits_usize csd" and "fits_usize bd" and "tx < 2 ^ 64" and "length hash = 32"
  defines "raw \<equiv> to_be_bytes (length csd) @ csd @ to_be_bytes (length bd) @ bd @ to_be_bytes tx @ hash"
  shows "deserialize_block c raw =
    Ok \<lparr>ab_common_section = cs, ab_block = blk, ab_tx_cnt = tx, ab_hash = hash, ab_raw_data = Some raw\<rparr>"
  using assms by (simp add: deserialize_block_def fits_usize_def)

lemma serialized_layout:
  assumes "get_raw_data_without_hash c b = Ok raw"
  obtains csd bd where "serialize_common_section c (ab_common_section b) = Ok csd" "enc_boc c (ab_block b) = Some bd"
    "raw = to_be_bytes (length csd) @ csd @ to_be_bytes (length bd) @ bd @ to_be_bytes (ab_tx_cnt b)"
  using assms that by (auto simp: get_raw_data_without_hash_def split: option.splits)

lemma deserialize_serialized:
  assumes "codec_ok c" and "get_raw_data_without_hash c b = Ok raw" and "length hash = 32"
    and "fits_usize raw" and "ab_tx_cnt b < 2 ^ 64"
  shows "deserialize_block c (raw @ hash) = Ok (b\<lparr>ab_hash := hash, ab_raw_data := Some (raw @ hash)\<rparr>)"
proof -
  obtain csd bd where l: "serialize_common_section c (ab_common_section b) = Ok csd"
    "enc_boc c (ab_block b) = Some bd"
    "raw = to_be_bytes (length csd) @ csd @ to_be_bytes (length bd) @ bd @ to_be_bytes (ab_tx_cnt b)"
    using assms(2) by (rule serialized_layout)
  have "dec_boc c bd = Some (ab_block b)"
    using assms(1) l(2) by (simp add: codec_ok_def)
  moreover have "fits_usize csd" "fits_usize bd"
    using assms(4) l(3) by (simp_all add: fits_usize_def)
  ultimately show ?thesis
    using deserialize_layout [OF common_section_roundtrip [OF assms(1) l(1)], of bd "ab_block b" "ab_tx_cnt b" hash]
      assms(3,5) l(3) by simp
qed


text \<open>A codec with one encodable section and one encodable block, for the example below.\<close>

definition example_tvm_block :: tvm_block where
  "example_tvm_block = \<lparr>tb_hash = [9], tb_prev_root_hash = [8], tb_prev_seq_no = 1, tb_seq_no = 2, tb_gen_utime_ms = 5\<rparr>"

definition example_section :: common_section where
  "example_section = (common_section_new [0] 0 [1] [] 1 [] None \<lparr>bh_thread_identifier = [0], bh_height = 2\<rparr>)
     \<lparr>cs_producer_selector := Some \<lparr>rng_seed_block_id = [8], ps_index = 0\<rparr>\<rparr>"

definition example_wrapped :: wrapped_common_section where
  "example_wrapped = \<lparr>w_round = 0, w_share_state_resources = None, w_block_attestations = [],
     w_producer_id = [1], w_block_keeper_set_changes = [], w_verify_complexity = 1, w_acks = [],
     w_nacks = [], w_producer_selector = \<lparr>rng_seed_block_id = [8], ps_index = 0\<rparr>,
     w_thread_identifier = [0], w_refs = [], w_threads_table = None,
     w_block_height = \<lparr>bh_thread_identifier = [0], bh_height = 2\<rparr>\<rparr>"

definition example_codec :: block_codec where
  "example_codec = \<lparr>
     enc_attestations = (\<lambda>x. if x = [] then Some [] else None), dec_attestations = (\<lambda>_. Some []),
     enc_acks = (\<lambda>x. if x = [] then Some [] else None), dec_acks = (\<lambda>_. Some []),
     enc_nacks = (\<lambda>x. if x = [] then Some [] else None), dec_nacks = (\<lambda>_. Some []),
     enc_wrapped = (\<lambda>x. if x = example_wrapped then Some [1] else None),
     dec_wrapped = (\<lambda>_. Some example_wrapped),
     enc_boc = (\<lambda>x. if x = example_tvm_block then Some [2] else None),
     dec_boc = (\<lambda>_. Some example_tvm_block), sha256 = (\<lambda>_. replicate 32 7)\<rparr>"

definition example_block :: acki_nacki_block where
  "example_block = \<lparr>ab_common_section = example_section, ab_block = example_tvm_block, ab_tx_cnt = 3,
     ab_hash = replicate 32 7, ab_raw_data = None\<rparr>"

lemma example_codec_ok: "codec_ok example_codec"
  by (simp add: codec_ok_def example_codec_def)

lemma example_block_serialized:
  "serialize_block example_codec example_block =
     Ok (to_be_bytes 1 @ [1] @ to_be_bytes 1 @ [2] @ to_be_bytes 3 @ replicate 32 7)"
  by (simp add: serialize_block_def get_raw_data_without_hash_def serialize_common_section_def
      wrap_serialize_def example_codec_def example_block_def example_section_def common_section_new_def
      example_wrapped_def)


text \<open>A block whose section was set last carries the hash of its own bytes.\<close>

lemma set_common_section_check_hash:
  assumes "codec_ok c" and "set_common_section c cs True b = Ok b'"
  shows "check_hash c b' = Ok True"
proof -
  obtain raw where raw: "get_raw_data_without_hash c (b\<lparr>ab_common_section := cs\<rparr>) = Ok raw"
    and b': "b' = b\<lparr>ab_common_section := cs, ab_hash := sha256 c raw, ab_raw_data := Some (raw @ sha256 c raw)\<rparr>"
    using assms(2) by (auto simp: set_common_section_def Let_def)
  have "raw \<noteq> []"
    using serialized_layout [OF raw] length_to_be_bytes by (metis append_is_Nil_conv list.size(3) zero_neq_numeral)
  then show ?thesis
    using assms(1) by (simp add: b' check_hash_def codec_ok_def)
qed

text \<open>
  Reading bytes that did not come from the serialiser is not total: a vector shorter than a length
  prefix, or whose prefix points past its end, panics instead of being reported as malformed.
\<close>

lemma deserialize_block_panics:
  "length raw < 8 \<Longrightarrow> \<exists>e. deserialize_block c raw = Panic e"
  "length raw - 8 < from_be_bytes (take 8 raw) \<Longrightarrow> \<exists>e. deserialize_block c raw = Panic e"
  by (auto simp: deserialize_block_def split_at_def)

end
