(* ===== verification/Block_Tree.thy ===== *)
theory Block_Tree
  imports Block_State
begin

text \<open>
  Operations that walk the tree of block states: \<open>invalidate_branch\<close> and \<open>do_link\<close>
  (src/node/src/node/block_state/tools/) and \<open>select_unfinalized_ancestor_blocks\<close>
  (src/node/src/node/block_state/unfinalized_ancestor_blocks.rs).
\<close>

section \<open>Operations\<close>

definition all_children :: "block_state \<Rightarrow> block_identifier list" where
  "all_children s = remdups (concat (map snd (bs_known_children s)))"

text \<open>Blocks a walk can meet: stored ones, their children and those waiting in the queue.\<close>

definition repo_universe :: "block_identifier list \<Rightarrow> block_repo \<Rightarrow> block_identifier set" where
  "repo_universe queue repo =
     set queue \<union> fst ` set repo \<union> (\<Union>e \<in> set repo. set (all_children (snd e)))"

definition open_blocks :: "block_identifier list \<Rightarrow> block_repo \<Rightarrow> block_identifier set" where
  "open_blocks queue repo = {b \<in> repo_universe queue repo. \<not> is_invalidated (repo_get repo b)}"

lemma finite_open_blocks [simp]: "finite (open_blocks queue repo)"
  by (simp add: open_blocks_def repo_universe_def)

lemma all_children_invalidated [simp]: "all_children (set_invalidated s) = all_children s"
  by (simp add: all_children_def set_invalidated_def notify_changed_def)

lemma is_invalidated_set [simp]: "is_invalidated (set_invalidated s)"
  by (simp add: is_invalidated_def set_invalidated_def notify_changed_def)

lemma all_children_fresh [simp]: "all_children (fresh_state b) = []"
  by (simp add: all_children_def fresh_state_def block_state_new_def set_parent_block_identifier_def Let_def)

lemma set_hm_insert: "set (hm_insert k v m) \<subseteq> insert (k, v) (set m)"
  unfolding hm_insert_def by (induction m) auto

lemma all_children_universe:
  "set (all_children (repo_get repo b)) \<subseteq> (\<Union>e \<in> set repo. set (all_children (snd e)))"
  by (auto simp: repo_get_def split: option.splits dest!: hm_get_SomeD)

lemma universe_invalidate:
  "repo_universe (queue @ all_children (repo_get repo b))
     (repo_set b (set_invalidated (repo_get repo b)) repo) \<subseteq> repo_universe (b # queue) repo"
proof -
  have "set (repo_set b (set_invalidated (repo_get repo b)) repo) \<subseteq>
      insert (b, set_invalidated (repo_get repo b)) (set repo)"
    by (simp add: repo_set_def set_hm_insert)
  then have "fst ` set (repo_set b (set_invalidated (repo_get repo b)) repo) \<subseteq> insert b (fst ` set repo)"
    and "(\<Union>e \<in> set (repo_set b (set_invalidated (repo_get repo b)) repo). set (all_children (snd e))) \<subseteq>
      (\<Union>e \<in> insert (b, set_invalidated (repo_get repo b)) (set repo). set (all_children (snd e)))"
    by fastforce+
  then show ?thesis
    using all_children_universe [of repo b] unfolding repo_universe_def by (simp add: subset_iff) blast
qed

lemma open_blocks_invalidate:
  assumes "\<not> is_invalidated (repo_get repo b)"
  shows "card (open_blocks (queue @ all_children (repo_get repo b))
      (repo_set b (set_invalidated (repo_get repo b)) repo)) < card (open_blocks (b # queue) repo)"
proof (rule psubset_card_mono)
  have "b \<in> open_blocks (b # queue) repo" using assms by (simp add: open_blocks_def repo_universe_def)
  moreover have "b \<notin> open_blocks (queue @ all_children (repo_get repo b))
      (repo_set b (set_invalidated (repo_get repo b)) repo)"
    by (simp add: open_blocks_def)
  ultimately show "open_blocks (queue @ all_children (repo_get repo b))
      (repo_set b (set_invalidated (repo_get repo b)) repo) \<subset> open_blocks (b # queue) repo"
    using universe_invalidate [of queue repo b] by (auto simp: open_blocks_def split: if_splits)
qed simp

lemma open_blocks_skip: "card (open_blocks queue repo) \<le> card (open_blocks (b # queue) repo)"
  by (rule card_mono) (auto simp: open_blocks_def repo_universe_def)

function invalidate_loop :: "block_identifier list \<Rightarrow> block_repo \<Rightarrow> block_repo outcome" where
  "invalidate_loop [] repo = Ok repo"
| "invalidate_loop (nxt # to_process) repo =
     (let s = repo_get repo nxt in
      if is_finalized s then Panic ''assertion failed: !is_finalized()''
      else if is_invalidated s then invalidate_loop to_process repo
      else invalidate_loop (to_process @ all_children s) (repo_set nxt (set_invalidated s) repo))"
  by pat_completeness auto
termination
proof (relation "measures [\<lambda>(q, r). card (open_blocks q r), \<lambda>(q, r). length q]", goal_cases)
  case (2 nxt q repo s)
  then show ?case using open_blocks_skip [of q repo nxt] by auto
next
  case (3 nxt q repo s)
  then show ?case using open_blocks_invalidate [of repo nxt q] by simp
qed simp

declare invalidate_loop.simps(2) [simp del]

definition invalidate_branch :: "block_identifier \<Rightarrow> block_repo \<Rightarrow> block_repo outcome" where
  "invalidate_branch branch_root repo = invalidate_loop [branch_root] repo"

definition do_link :: "block_identifier \<Rightarrow> block_identifier \<Rightarrow> block_repo \<Rightarrow> block_repo outcome" where
  "do_link parent child repo =
     obind (expect (bs_thread_identifier (repo_get repo child)) ''no thread identifier information set'')
       (\<lambda>thread_identifier.
     let repo1 = repo_mut parent (add_child thread_identifier child) repo;
         is_parent_finalized = is_finalized (repo_get repo1 parent);
         is_parent_invalidated = is_invalidated (repo_get repo1 parent)
     in if is_parent_invalidated \<and> is_parent_finalized
        then Panic ''Critical: wrong block state''
        else
          obind (if is_parent_invalidated then invalidate_branch child repo1 else Ok repo1) (\<lambda>repo2.
          let repo3 = repo_mut child (set_parent_block_identifier parent) repo2
          in Ok (if is_parent_finalized then repo_mut child set_has_parent_finalized repo3 else repo3)))"

datatype select_error =
    IncompleteHistory
  | BlockSeqNoCutoff "block_identifier list"
  | InvalidatedParent "block_identifier list"

partial_function (option) select_loop ::
    "block_repo \<Rightarrow> block_seq_no \<Rightarrow> block_identifier list \<Rightarrow> block_identifier \<Rightarrow>
     (select_error + block_identifier list) option" where
  "select_loop repo cutoff chain cur =
     (let s = repo_get repo cur in
      if is_invalidated s \<and> \<not> is_finalized s then Some (Inl (InvalidatedParent (chain @ [cur])))
      else case bs_block_seq_no s of
        None \<Rightarrow> Some (Inl IncompleteHistory)
      | Some seq_no \<Rightarrow>
          (case bs_parent_block_identifier s of
             None \<Rightarrow> Some (Inl IncompleteHistory)
           | Some parent \<Rightarrow>
               (if is_finalized s then Some (Inr (rev chain))
                else if seq_no < cutoff then Some (Inl (BlockSeqNoCutoff (chain @ [cur])))
                else select_loop repo cutoff (chain @ [cur]) parent)))"

definition select_unfinalized_ancestor_blocks ::
    "block_repo \<Rightarrow> block_identifier \<Rightarrow> block_seq_no \<Rightarrow> (select_error + block_identifier list) option" where
  "select_unfinalized_ancestor_blocks repo tail cutoff = select_loop repo cutoff [] tail"

section \<open>Invalidation covers exactly the branch\<close>

text \<open>The blocks reached from the roots through blocks that are not invalidated yet.\<close>

inductive branch :: "block_repo \<Rightarrow> block_identifier set \<Rightarrow> block_identifier \<Rightarrow> bool"
  for repo roots where
  branch_root: "b \<in> roots \<Longrightarrow> branch repo roots b"
| branch_child: "branch repo roots b \<Longrightarrow> \<not> is_invalidated (repo_get repo b) \<Longrightarrow>
    c \<in> set (all_children (repo_get repo b)) \<Longrightarrow> branch repo roots c"

lemma branch_mono: "branch repo roots b \<Longrightarrow> roots \<subseteq> roots' \<Longrightarrow> branch repo roots' b"
  by (induction rule: branch.induct) (auto intro: branch.intros)

lemma branch_insert_invalidated:
  assumes "is_invalidated (repo_get repo b)"
  shows "branch repo (insert b roots) x \<longleftrightarrow> x = b \<or> branch repo roots x"
proof
  show "branch repo (insert b roots) x \<Longrightarrow> x = b \<or> branch repo roots x"
    by (induction rule: branch.induct) (use assms in \<open>auto intro: branch.intros\<close>)
next
  show "x = b \<or> branch repo roots x \<Longrightarrow> branch repo (insert b roots) x"
    by (auto intro: branch_root branch_mono)
qed

lemma branch_insert_open:
  fixes repo b
  assumes "\<not> is_invalidated (repo_get repo b)"
  defines "repo' \<equiv> repo_set b (set_invalidated (repo_get repo b)) repo"
  shows "branch repo (insert b roots) x \<longleftrightarrow>
    x = b \<or> branch repo' (roots \<union> set (all_children (repo_get repo b))) x"
proof
  show "branch repo (insert b roots) x \<Longrightarrow>
      x = b \<or> branch repo' (roots \<union> set (all_children (repo_get repo b))) x"
  proof (induction rule: branch.induct)
    case (branch_child y c)
    then show ?case
      by (cases "y = b") (auto simp: repo'_def intro: branch.intros)
  qed (auto intro: branch.intros)
next
  assume "x = b \<or> branch repo' (roots \<union> set (all_children (repo_get repo b))) x"
  moreover have "branch repo (insert b roots) x"
    if "branch repo' (roots \<union> set (all_children (repo_get repo b))) x"
    using that
  proof (induction rule: branch.induct)
    case (branch_root y)
    then show ?case using assms(1) by (auto intro: branch.intros)
  next
    case (branch_child y c)
    then show ?case by (auto simp: repo'_def intro: branch.branch_child split: if_splits)
  qed
  ultimately show "branch repo (insert b roots) x" by (auto intro: branch.branch_root)
qed

lemma is_finalized_set_invalidated [simp]: "is_finalized (set_invalidated s) = is_finalized s"
  by (simp add: is_finalized_def set_invalidated_def notify_changed_def)

lemma invalidate_loop_panics:
  "(\<exists>e. invalidate_loop q repo = Panic e) \<longleftrightarrow> (\<exists>b. branch repo (set q) b \<and> is_finalized (repo_get repo b))"
proof (induction q repo rule: invalidate_loop.induct)
  case (1 repo)
  have "\<not> branch repo {} b" for b
  proof
    assume "branch repo {} b"
    then show False by (induction rule: branch.induct) auto
  qed
  then show ?case by simp
next
  case (2 b q repo)
  let ?s = "repo_get repo b"
  consider "is_finalized ?s" | "\<not> is_finalized ?s" "is_invalidated ?s"
    | "\<not> is_finalized ?s" "\<not> is_invalidated ?s"
    by blast
  then show ?case
  proof cases
    case 1
    then have "branch repo (set (b # q)) b" by (simp add: branch.branch_root)
    then show ?thesis using 1 by (subst invalidate_loop.simps) auto
  next
    case 2
    have "invalidate_loop (b # q) repo = invalidate_loop q repo"
      using 2 by (subst invalidate_loop.simps) simp
    moreover have "branch repo (set (b # q)) x \<longleftrightarrow> x = b \<or> branch repo (set q) x" for x
      using branch_insert_invalidated [OF 2(2)] by simp
    ultimately show ?thesis using "2.IH"(1) [OF refl 2] 2(1) by metis
  next
    case 3
    let ?r = "repo_set b (set_invalidated ?s) repo"
    have "invalidate_loop (b # q) repo = invalidate_loop (q @ all_children ?s) ?r"
      using 3 by (subst invalidate_loop.simps) (simp add: Let_def)
    moreover have "branch repo (set (b # q)) x \<longleftrightarrow> x = b \<or> branch ?r (set (q @ all_children ?s)) x" for x
      using branch_insert_open [OF 3(2), of "set q"] by simp
    moreover have "is_finalized (repo_get ?r x) = is_finalized (repo_get repo x)" for x by simp
    ultimately show ?thesis using "2.IH"(2) [OF refl 3] 3(1) by metis
  qed
qed

lemma invalidate_loop_no_bail: "invalidate_loop q repo \<noteq> Bail e"
  by (induction q repo rule: invalidate_loop.induct) (simp_all add: invalidate_loop.simps(2) Let_def)

lemma invalidate_loop_Ok:
  "invalidate_loop q repo = Ok repo' \<Longrightarrow>
     repo_get repo' b =
       (if branch repo (set q) b \<and> \<not> is_invalidated (repo_get repo b)
        then set_invalidated (repo_get repo b) else repo_get repo b)"
proof (induction q repo rule: invalidate_loop.induct)
  case (1 repo)
  have "\<not> branch repo {} b" 
  proof
    assume "branch repo {} b"
    then show False by (induction rule: branch.induct) auto
  qed
  then show ?case using 1 by simp
next
  case (2 c q repo)
  let ?s = "repo_get repo c"
  have nf: "\<not> is_finalized ?s"
    using "2.prems" by (auto simp: invalidate_loop.simps(2) Let_def split: if_splits)
  show ?case
  proof (cases "is_invalidated ?s")
    case True
    have "invalidate_loop q repo = Ok repo'"
      using "2.prems" nf True by (simp add: invalidate_loop.simps(2) Let_def)
    then have IH: "repo_get repo' b = (if branch repo (set q) b \<and> \<not> is_invalidated (repo_get repo b)
        then set_invalidated (repo_get repo b) else repo_get repo b)"
      by (rule "2.IH"(1) [OF refl nf True])
    show ?thesis
      using IH True branch_insert_invalidated [OF True, of "set q" b] by auto
  next
    case False
    let ?r = "repo_set c (set_invalidated ?s) repo"
    have "invalidate_loop (q @ all_children ?s) ?r = Ok repo'"
      using "2.prems" nf False by (simp add: invalidate_loop.simps(2) Let_def)
    then have IH: "repo_get repo' b =
        (if branch ?r (set (q @ all_children ?s)) b \<and> \<not> is_invalidated (repo_get ?r b)
         then set_invalidated (repo_get ?r b) else repo_get ?r b)"
      by (rule "2.IH"(2) [OF refl nf False])
    show ?thesis
      using IH False branch_insert_open [OF False, of "set q" b] by (cases "b = c") auto
  qed
qed

lemma invalidate_branch_cases:
  obtains (panic) e b where "invalidate_branch root repo = Panic e" "branch repo {root} b"
      "is_finalized (repo_get repo b)"
  | (ok) repo' where "invalidate_branch root repo = Ok repo'"
      "\<forall>b. branch repo {root} b \<longrightarrow> \<not> is_finalized (repo_get repo b)"
      "\<forall>b. repo_get repo' b = (if branch repo {root} b \<and> \<not> is_invalidated (repo_get repo b)
         then set_invalidated (repo_get repo b) else repo_get repo b)"
proof (cases "invalidate_branch root repo")
  case (Ok repo')
  then show thesis
    using ok [OF Ok] invalidate_loop_Ok [of "[root]" repo repo'] invalidate_loop_panics [of "[root]" repo]
    by (auto simp: invalidate_branch_def)
next
  case (Bail e)
  then show thesis using invalidate_loop_no_bail by (metis invalidate_branch_def)
next
  case (Panic e)
  then show thesis
    using panic invalidate_loop_panics [of "[root]" repo] by (auto simp: invalidate_branch_def)
qed

text \<open>
  C29: invalidating a branch always ends. It panics exactly when a finalized block is reachable from
  the root through valid blocks; otherwise precisely the reachable valid blocks become invalidated
  and no other block and no other fact changes.
\<close>

theorem invalidate_branch_correct:
  "(\<exists>e. invalidate_branch root repo = Panic e) \<and>
     (\<exists>b. branch repo {root} b \<and> is_finalized (repo_get repo b)) \<or>
   (\<exists>repo'. invalidate_branch root repo = Ok repo' \<and>
     (\<nexists>b. branch repo {root} b \<and> is_finalized (repo_get repo b)) \<and>
     (\<forall>b. repo_get repo' b =
        (if branch repo {root} b \<and> \<not> is_invalidated (repo_get repo b)
         then set_invalidated (repo_get repo b) else repo_get repo b)))"
  by (rule invalidate_branch_cases [of root repo]) auto

section \<open>Invalidation is inherited\<close>

definition invalidation_closed :: "block_repo \<Rightarrow> bool" where
  "invalidation_closed repo =
     (\<forall>b. is_invalidated (repo_get repo b) \<longrightarrow>
        (\<forall>c \<in> set (all_children (repo_get repo b)). is_invalidated (repo_get repo c)))"

lemma invalidate_branch_closed:
  assumes "invalidate_branch root repo = Ok repo'"
    and "\<forall>b c. is_invalidated (repo_get repo b) \<longrightarrow> c \<in> set (all_children (repo_get repo b)) \<longrightarrow>
      is_invalidated (repo_get repo c) \<or> c = root"
  shows "invalidation_closed repo'"
  using assms(1)
proof (cases rule: invalidate_branch_cases [of root repo])
  case (ok r)
  then have r: "r = repo'" using assms(1) by simp
  have inv: "is_invalidated (repo_get repo' b) \<longleftrightarrow> is_invalidated (repo_get repo b) \<or> branch repo {root} b" for b
    using ok(3) r by auto
  have ch: "all_children (repo_get repo' b) = all_children (repo_get repo b)" for b
    using ok(3) r by auto
  show ?thesis
    unfolding invalidation_closed_def inv ch
  proof (intro allI impI ballI)
    fix b c assume b: "is_invalidated (repo_get repo b) \<or> branch repo {root} b"
      and c: "c \<in> set (all_children (repo_get repo b))"
    show "is_invalidated (repo_get repo c) \<or> branch repo {root} c"
      using b c assms(2) by (cases "is_invalidated (repo_get repo b)") (auto intro: branch.intros)
  qed
qed (use assms in simp)

lemma bs_invalidated_add_child [simp]:
  "bs_invalidated (add_child t c s) = bs_invalidated s" "bs_finalized (add_child t c s) = bs_finalized s"
  by (simp_all add: add_child_def notify_changed_def Let_def)

lemma is_invalidated_add_child [simp]: "is_invalidated (add_child t c s) = is_invalidated s"
  by (simp add: is_invalidated_def)

lemma set_all_children: "hm_wf (bs_known_children s) \<Longrightarrow>
    c \<in> set (all_children s) \<longleftrightarrow> (\<exists>t cs. hm_get (bs_known_children s) t = Some cs \<and> c \<in> set cs)"
  by (force simp: all_children_def hm_get_iff)

lemma all_children_add_child:
  assumes "hm_wf (bs_known_children s)"
  shows "set (all_children (add_child t c s)) = insert c (set (all_children s))"
proof -
  let ?K = "bs_known_children s"
  define cs where "cs = (case hm_get ?K t of Some x \<Rightarrow> x | None \<Rightarrow> [])"
  define cs' where "cs' = (if c \<in> set cs then cs else cs @ [c])"
  have ch: "bs_known_children (add_child t c s) = hm_insert t cs' ?K"
    unfolding cs'_def cs_def by (auto simp: add_child_def notify_changed_def Let_def split: option.split)
  have "hm_wf (hm_insert t cs' ?K)" by (simp add: hm.wf_ins assms)
  then have new: "x \<in> set (all_children (add_child t c s)) \<longleftrightarrow>
      x \<in> set cs' \<or> (\<exists>u ys. u \<noteq> t \<and> hm_get ?K u = Some ys \<and> x \<in> set ys)" for x
    using set_all_children [of "add_child t c s" x] unfolding ch hm.get_ins by (auto split: if_splits)
  have split: "(\<exists>u ys. Q u ys) \<longleftrightarrow> (\<exists>ys. Q t ys) \<or> (\<exists>u ys. u \<noteq> t \<and> Q u ys)"
    for Q :: "thread_identifier \<Rightarrow> block_identifier list \<Rightarrow> bool"
  proof
    assume "\<exists>u ys. Q u ys"
    then obtain u ys where "Q u ys" by blast
    then show "(\<exists>ys. Q t ys) \<or> (\<exists>u ys. u \<noteq> t \<and> Q u ys)" by (cases "u = t") auto
  qed auto
  have cs: "x \<in> set cs \<longleftrightarrow> (\<exists>ys. hm_get ?K t = Some ys \<and> x \<in> set ys)" for x
    by (cases "hm_get ?K t") (auto simp: cs_def)
  have old: "x \<in> set (all_children s) \<longleftrightarrow>
      x \<in> set cs \<or> (\<exists>u ys. u \<noteq> t \<and> hm_get ?K u = Some ys \<and> x \<in> set ys)" for x
    using set_all_children [OF assms, of x] cs [of x]
      split [of "\<lambda>u ys. hm_get ?K u = Some ys \<and> x \<in> set ys"] by argo
  have s': "set cs' = insert c (set cs)" by (simp add: cs'_def insert_absorb)
  show ?thesis
  proof (rule set_eqI)
    fix x
    show "x \<in> set (all_children (add_child t c s)) \<longleftrightarrow> x \<in> insert c (set (all_children s))"
      unfolding new s' insert_iff old disj_assoc ..
  qed
qed

lemma set_parent_keeps [simp]:
  "bs_invalidated (set_parent_block_identifier p s) = bs_invalidated s"
  "bs_known_children (set_parent_block_identifier p s) = bs_known_children s"
  by (simp_all add: set_parent_block_identifier_def notify_changed_def)

lemma set_has_parent_finalized_keeps [simp]:
  "bs_invalidated (set_has_parent_finalized s) = bs_invalidated s"
  "bs_known_children (set_has_parent_finalized s) = bs_known_children s"
  "bs_parent_block_identifier (set_has_parent_finalized s) = bs_parent_block_identifier s"
  by (simp_all add: set_again_def notify_changed_def)

lemma invalidation_closed_cong:
  assumes "\<And>b. bs_invalidated (repo_get repo' b) = bs_invalidated (repo_get repo b)"
    and "\<And>b. bs_known_children (repo_get repo' b) = bs_known_children (repo_get repo b)"
  shows "invalidation_closed repo' = invalidation_closed repo"
  by (simp add: invalidation_closed_def is_invalidated_def all_children_def assms)

text \<open>The cases of a successful link: what the child's branch becomes and what is written last.\<close>

lemma do_link_OkE:
  assumes "do_link parent child repo = Ok repo'"
  obtains t repo1 repo2 where
    "bs_thread_identifier (repo_get repo child) = Some t"
    "repo1 = repo_mut parent (add_child t child) repo"
    "(if is_invalidated (repo_get repo parent) then invalidate_branch child repo1 else Ok repo1) = Ok repo2"
    "\<And>b. bs_invalidated (repo_get repo' b) = bs_invalidated (repo_get repo2 b)"
    "\<And>b. bs_known_children (repo_get repo' b) = bs_known_children (repo_get repo2 b)"
    "bs_parent_block_identifier (repo_get repo' child) = Some parent"
proof -
  obtain t where t: "bs_thread_identifier (repo_get repo child) = Some t"
    using assms by (cases "bs_thread_identifier (repo_get repo child)") (auto simp: do_link_def outcome_simps)
  define repo1 where "repo1 = repo_mut parent (add_child t child) repo"
  have inv: "is_invalidated (repo_get repo1 parent) = is_invalidated (repo_get repo parent)"
    by (simp add: repo1_def)
  obtain repo2 where r2: "(if is_invalidated (repo_get repo parent) then invalidate_branch child repo1 else Ok repo1) = Ok repo2"
    and r': "repo' = (let repo3 = repo_mut child (set_parent_block_identifier parent) repo2
       in if is_finalized (repo_get repo1 parent) then repo_mut child set_has_parent_finalized repo3 else repo3)"
    using assms t
    by (cases "if is_invalidated (repo_get repo parent) then invalidate_branch child repo1 else Ok repo1")
      (auto simp: do_link_def outcome_simps Let_def repo1_def [symmetric] inv split: if_splits)
  show thesis
    by (rule that [OF t repo1_def r2])
      (simp_all add: r' Let_def set_parent_block_identifier_def notify_changed_def)
qed

text \<open>
  C30: linking a child to its parent keeps the tree closed under invalidation. After a successful
  link the child names the parent, is one of the parent's children, is invalidated when the parent
  is, and no valid block hangs below an invalidated one anywhere in the tree.
\<close>

theorem do_link_keeps_invalidation_closed:
  assumes "do_link parent child repo = Ok repo'"
    and "invalidation_closed repo"
    and "hm_wf (bs_known_children (repo_get repo parent))"
  shows "invalidation_closed repo' \<and>
    bs_parent_block_identifier (repo_get repo' child) = Some parent \<and>
    child \<in> set (all_children (repo_get repo' parent)) \<and>
    (is_invalidated (repo_get repo' parent) \<longrightarrow> is_invalidated (repo_get repo' child))"
  using assms(1)
proof (cases rule: do_link_OkE)
  case (1 t repo1 repo2)
  have ch1: "set (all_children (repo_get repo1 b)) =
      (if b = parent then insert child (set (all_children (repo_get repo parent)))
       else set (all_children (repo_get repo b)))" for b
    using assms(3) by (simp add: 1(2) all_children_add_child)
  have inv1: "is_invalidated (repo_get repo1 b) = is_invalidated (repo_get repo b)" for b
    by (simp add: 1(2))
  have closed2: "invalidation_closed repo2 \<and> set (all_children (repo_get repo2 parent)) = set (all_children (repo_get repo1 parent))"
  proof (cases "is_invalidated (repo_get repo parent)")
    case True
    then have ib: "invalidate_branch child repo1 = Ok repo2" using 1(3) by simp
    then have "all_children (repo_get repo2 b) = all_children (repo_get repo1 b)" for b
      by (cases rule: invalidate_branch_cases [of child repo1]) auto
    moreover have "invalidation_closed repo2"
      by (rule invalidate_branch_closed [OF ib])
        (use assms(2) in \<open>auto simp: inv1 ch1 invalidation_closed_def split: if_splits\<close>)
    ultimately show ?thesis by simp
  next
    case False
    then have "repo2 = repo1" using 1(3) by simp
    with False assms(2) show ?thesis
      by (auto simp: invalidation_closed_def inv1 ch1 split: if_splits)
  qed
  have closed: "invalidation_closed repo'"
    using invalidation_closed_cong [of repo' repo2] 1(4,5) closed2 by simp
  have mem: "child \<in> set (all_children (repo_get repo' parent))"
    using closed2 ch1 [of parent] 1(5) [of parent] by (simp add: all_children_def)
  show ?thesis
    using closed mem 1(6) by (auto simp: invalidation_closed_def)
qed

definition example_parent :: block_state where
  "example_parent = set_invalidated (block_state_new [1])"

definition example_child :: block_state where
  "example_child = (block_state_new [2])\<lparr>bs_thread_identifier := Some [0]\<rparr>"

definition example_tree :: block_repo where
  "example_tree = [([1], example_parent), ([2], example_child)]"

lemma example_tree_get:
  "repo_get example_tree [1] = example_parent" "repo_get example_tree [2] = example_child"
  "b \<noteq> [1] \<Longrightarrow> b \<noteq> [2] \<Longrightarrow> repo_get example_tree b = fresh_state b"
  by (simp_all add: repo_get_def example_tree_def hm_get_def)

lemma block_state_new_flags [simp]:
  "bs_known_children (block_state_new b) = []" "bs_finalized (block_state_new b) = None"
  "bs_invalidated (block_state_new b) = None"
  by (simp_all add: block_state_new_def)

lemma example_tree_facts:
  "all_children example_parent = []" "all_children example_child = []"
  "\<not> is_finalized example_child" "\<not> is_finalized example_parent"
  by (simp_all add: example_parent_def example_child_def all_children_def is_finalized_def
      set_invalidated_def notify_changed_def)

lemma example_tree_childless: "all_children (repo_get example_tree b) = []"
  by (cases "b = [1]"; cases "b = [2]") (simp_all add: example_tree_get example_tree_facts)

lemma example_tree_links: "\<exists>repo'. do_link [1] [2] example_tree = Ok repo'"
proof -
  have t: "bs_thread_identifier (repo_get example_tree [2]) = Some [0]"
    by (simp add: example_tree_get example_child_def)
  let ?r = "repo_mut [1] (add_child [0] [2]) example_tree"
  have b: "x = [2]" if "branch ?r {[2]} x" for x
    using that
    by (induction rule: branch.induct) (auto simp: example_tree_get example_tree_facts)
  have "\<not> is_finalized (repo_get ?r [2])"
    by (simp add: example_tree_get example_tree_facts)
  then have "\<nexists>x. branch ?r {[2]} x \<and> is_finalized (repo_get ?r x)"
    using b by blast
  then obtain r where "invalidate_branch [2] ?r = Ok r"
    using invalidate_branch_cases [of "[2]" ?r] by metis
  moreover have "\<not> is_finalized (add_child [0] [2] example_parent)"
    using example_tree_facts(4) by (simp add: is_finalized_def)
  ultimately show ?thesis
    using t by (simp add: do_link_def example_tree_get Let_def)
qed

theorem do_link_keeps_invalidation_closed_witness:
  "\<exists>repo'. do_link [1] [2] example_tree = Ok repo' \<and> invalidation_closed repo' \<and>
     bs_parent_block_identifier (repo_get repo' [2]) = Some [1]"
proof -
  obtain repo' where l: "do_link [1] [2] example_tree = Ok repo'"
    using example_tree_links by blast
  have "invalidation_closed example_tree"
    by (simp add: invalidation_closed_def example_tree_childless)
  moreover have "hm_wf (bs_known_children (repo_get example_tree [1]))"
    by (simp add: example_tree_get example_parent_def block_state_new_def set_invalidated_def notify_changed_def)
  ultimately show ?thesis
    using do_link_keeps_invalidation_closed [OF l] l by blast
qed

section \<open>Unfinalized ancestors\<close>

definition is_parent_of :: "block_repo \<Rightarrow> block_identifier \<Rightarrow> block_identifier \<Rightarrow> bool" where
  "is_parent_of repo p b = (bs_parent_block_identifier (repo_get repo b) = Some p)"

definition selectable :: "block_repo \<Rightarrow> block_seq_no \<Rightarrow> block_identifier \<Rightarrow> bool" where
  "selectable repo cutoff b =
     (let s = repo_get repo b in \<not> is_finalized s \<and> \<not> is_invalidated s \<and>
        (case bs_block_seq_no s of None \<Rightarrow> False | Some n \<Rightarrow> cutoff \<le> n))"

lemma select_loop_Inr:
  assumes "select_loop repo cutoff chain cur = Some r"
  shows "\<forall>res. r = Inr res \<longrightarrow> (\<forall>b \<in> set chain. selectable repo cutoff b) \<longrightarrow>
    successively (is_parent_of repo) (cur # rev chain) \<longrightarrow>
    (\<exists>a. is_finalized (repo_get repo a) \<and> successively (is_parent_of repo) (a # res) \<and>
     (\<forall>b \<in> set res. selectable repo cutoff b) \<and> last (a # res) = last (cur # rev chain))"
    (is "?P repo cutoff chain cur r")
proof (rule select_loop.raw_induct [where P = ?P, OF _ assms], intro allI impI, goal_cases)
  case (1 loop repo cutoff chain cur r res)
  let ?s = "repo_get repo cur"
  show ?case
  proof (cases "is_finalized ?s")
    case True
    then have "res = rev chain"
      using 1(2) unfolding 1(3) by (simp add: Let_def split: option.splits)
    with 1(4,5) True show ?thesis by (intro exI [of _ cur]) simp
  next
    case False
    then obtain n p where n: "bs_block_seq_no ?s = Some n" "cutoff \<le> n"
      and p: "bs_parent_block_identifier ?s = Some p" and i: "\<not> is_invalidated ?s"
      and l: "loop repo cutoff (chain @ [cur]) p = Some r"
      using 1(2) unfolding 1(3) by (simp add: Let_def not_less split: option.splits if_splits)
    have "selectable repo cutoff cur" using n i False by (simp add: selectable_def Let_def)
    with 1(4) have "\<forall>b \<in> set (chain @ [cur]). selectable repo cutoff b" by simp
    moreover have "successively (is_parent_of repo) (p # rev (chain @ [cur]))"
      using 1(5) p by (simp add: is_parent_of_def)
    ultimately show ?thesis using 1(1) [OF l] 1(3) by simp
  qed
qed

text \<open>
  C31: a successful selection is the chain of unfinalized blocks that leads from the last finalized
  block to the given tail, oldest first: every block is the parent of the one after it, the first
  one's parent is finalized, and no selected block is finalized, invalidated or below the cutoff.
  The selection is empty exactly when the tail itself is finalized.
\<close>

theorem select_unfinalized_ancestor_blocks_sound:
  assumes "select_unfinalized_ancestor_blocks repo tail cutoff = Some (Inr chain)"
  shows "(\<exists>anchor. is_finalized (repo_get repo anchor) \<and> successively (is_parent_of repo) (anchor # chain) \<and>
      last (anchor # chain) = tail) \<and>
    (\<forall>b \<in> set chain. selectable repo cutoff b) \<and> (chain = [] \<longleftrightarrow> is_finalized (repo_get repo tail))"
proof -
  obtain a where a: "is_finalized (repo_get repo a)" "successively (is_parent_of repo) (a # chain)"
    "\<forall>b \<in> set chain. selectable repo cutoff b" "last (a # chain) = tail"
    using select_loop_Inr [OF assms [unfolded select_unfinalized_ancestor_blocks_def]] by auto
  have "tail \<in> set chain" if "chain \<noteq> []"
    using a(4) that last_in_set [of chain] by simp
  with a have "chain = [] \<longleftrightarrow> is_finalized (repo_get repo tail)"
    by (auto simp: selectable_def Let_def)
  with a show ?thesis by auto
qed

definition example_finalized :: block_state where
  "example_finalized = (set_finalized (block_state_new [1]))
     \<lparr>bs_block_seq_no := Some 1, bs_parent_block_identifier := Some [0]\<rparr>"

definition example_open :: "block_identifier \<Rightarrow> block_seq_no \<Rightarrow> block_identifier \<Rightarrow> block_state" where
  "example_open b n p = (block_state_new b)\<lparr>bs_block_seq_no := Some n, bs_parent_block_identifier := Some p\<rparr>"

definition example_chain :: block_repo where
  "example_chain = [([1], example_finalized), ([2], example_open [2] 2 [1]), ([3], example_open [3] 3 [2])]"

lemma example_chain_get:
  "repo_get example_chain [1] = example_finalized" "repo_get example_chain [2] = example_open [2] 2 [1]"
  "repo_get example_chain [3] = example_open [3] 3 [2]"
  "b \<notin> {[1], [2], [3]} \<Longrightarrow> repo_get example_chain b = fresh_state b"
  by (simp_all add: repo_get_def example_chain_def hm_get_def)

lemma example_open_flags:
  "\<not> is_finalized (example_open b n p)" "\<not> is_invalidated (example_open b n p)"
  "bs_block_seq_no (example_open b n p) = Some n" "bs_parent_block_identifier (example_open b n p) = Some p"
  by (simp_all add: example_open_def is_finalized_def is_invalidated_def block_state_new_def)

lemma example_finalized_flags:
  "is_finalized example_finalized" "\<not> is_invalidated example_finalized"
  "bs_block_seq_no example_finalized = Some 1" "bs_parent_block_identifier example_finalized = Some [0]"
  by (simp_all add: example_finalized_def is_finalized_def is_invalidated_def block_state_new_def
      set_finalized_def notify_changed_def)

lemma example_chain_selected:
  "select_unfinalized_ancestor_blocks example_chain [3] 2 = Some (Inr [[2], [3]])"
  unfolding select_unfinalized_ancestor_blocks_def
  by (simp add: select_loop.simps [of _ _ _ "[3]"] select_loop.simps [of _ _ _ "[2]"]
      select_loop.simps [of _ _ _ "[1]"] example_chain_get example_open_flags example_finalized_flags Let_def)

theorem select_unfinalized_ancestor_blocks_sound_witness:
  "select_unfinalized_ancestor_blocks example_chain [3] 2 = Some (Inr [[2], [3]]) \<and>
   selectable example_chain 2 [2] \<and> selectable example_chain 2 [3]"
  using example_chain_selected select_unfinalized_ancestor_blocks_sound [OF example_chain_selected] by simp

lemma select_loop_ends:
  assumes "\<And>b n p m. bs_block_seq_no (repo_get repo b) = Some n \<Longrightarrow>
      bs_parent_block_identifier (repo_get repo b) = Some p \<Longrightarrow> \<not> is_finalized (repo_get repo b) \<Longrightarrow>
      bs_block_seq_no (repo_get repo p) = Some m \<Longrightarrow> m < n"
  shows "\<exists>r. select_loop repo cutoff chain cur = Some r"
proof (induction "case bs_block_seq_no (repo_get repo cur) of None \<Rightarrow> 0 | Some n \<Rightarrow> Suc (unat n)"
    arbitrary: chain cur rule: less_induct)
  case less
  let ?s = "repo_get repo cur"
  show ?case
  proof (cases "\<exists>n p. bs_block_seq_no ?s = Some n \<and> bs_parent_block_identifier ?s = Some p \<and> \<not> is_finalized ?s")
    case True
    then obtain n p where s: "bs_block_seq_no ?s = Some n" "bs_parent_block_identifier ?s = Some p"
      "\<not> is_finalized ?s" by blast
    have "(case bs_block_seq_no (repo_get repo p) of None \<Rightarrow> 0 | Some n \<Rightarrow> Suc (unat n)) < Suc (unat n)"
      using assms [OF s] by (auto simp: word_less_nat_alt split: option.splits)
    then have "\<exists>r. select_loop repo cutoff (chain @ [cur]) p = Some r" using less s by simp
    then show ?thesis by (subst select_loop.simps) (auto simp: Let_def s)
  next
    case False
    then show ?thesis by (subst select_loop.simps) (auto simp: Let_def split: option.splits)
  qed
qed

text \<open>
  C32: the selection returns (with a chain or with an error) whenever the sequence numbers decrease
  from an unfinalized block to its parent, which the checks on incoming blocks ensure.
\<close>

theorem select_unfinalized_ancestor_blocks_terminates:
  assumes "\<And>b n p m. bs_block_seq_no (repo_get repo b) = Some n \<Longrightarrow>
      bs_parent_block_identifier (repo_get repo b) = Some p \<Longrightarrow> \<not> is_finalized (repo_get repo b) \<Longrightarrow>
      bs_block_seq_no (repo_get repo p) = Some m \<Longrightarrow> m < n"
  shows "\<exists>r. select_unfinalized_ancestor_blocks repo tail cutoff = Some r"
  unfolding select_unfinalized_ancestor_blocks_def by (rule select_loop_ends) (rule assms)

lemma example_chain_decreases:
  assumes "bs_block_seq_no (repo_get example_chain b) = Some n"
    and "bs_parent_block_identifier (repo_get example_chain b) = Some p"
    and "\<not> is_finalized (repo_get example_chain b)"
    and "bs_block_seq_no (repo_get example_chain p) = Some m"
  shows "m < n"
proof -
  have "bs_block_seq_no (fresh_state b) = None"
    by (simp add: fresh_state_def block_state_new_def set_parent_block_identifier_def notify_changed_def Let_def)
  then have "b \<in> {[1], [2], [3]}"
    using assms(1) example_chain_get(4) [of b] by (metis option.distinct(1))
  then show ?thesis
    using assms by (auto simp: example_chain_get example_open_flags example_finalized_flags)
qed

theorem select_unfinalized_ancestor_blocks_terminates_witness:
  "\<exists>r. select_unfinalized_ancestor_blocks example_chain [3] 5 = Some r"
  using select_unfinalized_ancestor_blocks_terminates [of example_chain "[3]" 5] example_chain_decreases
  by blast

text \<open>
  Without that order the walk need not end: an unfinalized zero block is its own parent, and with
  a cutoff of zero nothing stops the loop.
\<close>

end
