(* ===== verification/Round_Time.thy ===== *)
theory Round_Time
  imports Prelude
begin

text \<open>
  The clock of the authority switch (src/node/src/protocol/authority_switch/round_time.rs): how much
  time after its parent a block is expected decides the round, and with it the producer.
  A \<open>Duration\<close> is its number of nanoseconds, at most \<open>duration_max\<close>. \<open>div_duration_f64\<close> is modelled
  with the rounding of IEEE double precision, since the source relies on it being accurate.
\<close>

type_synonym duration = nat

definition duration_max :: duration where
  "duration_max = (2 ^ 64 - 1) * 1000000000 + 999999999"

definition duration_checked_mul :: "duration \<Rightarrow> nat \<Rightarrow> duration option" where
  "duration_checked_mul d k = (if d * k \<le> duration_max then Some (d * k) else None)"

definition duration_checked_sub :: "duration \<Rightarrow> duration \<Rightarrow> duration option" where
  "duration_checked_sub d e = (if e \<le> d then Some (d - e) else None)"

definition duration_checked_add :: "duration \<Rightarrow> duration \<Rightarrow> duration option" where
  "duration_checked_add d e = (if d + e \<le> duration_max then Some (d + e) else None)"

definition u32_checked :: "nat \<Rightarrow> nat outcome" where
  "u32_checked n = (if n < 2 ^ 32 then Ok n else Panic ''attempt to overflow u32'')"

section \<open>Double precision\<close>

fun bit_length :: "nat \<Rightarrow> nat" where
  "bit_length n = (if n = 0 then 0 else Suc (bit_length (n div 2)))"

declare bit_length.simps [simp del]

text \<open>The integer nearest to \<open>n / d\<close>, the even one of two equally near ones.\<close>

definition round_half_even :: "nat \<Rightarrow> nat \<Rightarrow> nat" where
  "round_half_even n d =
     (let q = n div d; r = n mod d
      in if 2 * r < d then q else if 2 * r > d then q + 1 else if even q then q else q + 1)"

text \<open>An integer rounded to the 53 significant bits of a double.\<close>

definition f64_of_nat :: "nat \<Rightarrow> nat" where
  "f64_of_nat n =
     (let s = bit_length n - 53 in if s = 0 then n else round_half_even n (2 ^ s) * 2 ^ s)"

text \<open>\<open>(secs as f64) * 1e9 + (nanos as f64)\<close>, each operation rounded.\<close>

definition f64_of_duration :: "duration \<Rightarrow> nat" where
  "f64_of_duration d =
     f64_of_nat (f64_of_nat (f64_of_nat (d div 1000000000) * 1000000000) + d mod 1000000000)"

text \<open>
  \<open>(a / b).floor()\<close> for doubles with integer values, \<open>0 < b\<close>: the quotient is rounded to 53
  significant bits, which is a multiple of \<open>2 ^ -s\<close> where \<open>53 - s\<close> is the length of its integer part.
\<close>

definition f64_div_floor :: "nat \<Rightarrow> nat \<Rightarrow> nat" where
  "f64_div_floor a b =
     (let l = bit_length (a div b)
      in if l \<le> 53 then round_half_even (a * 2 ^ (53 - l)) b div 2 ^ (53 - l)
         else round_half_even a (b * 2 ^ (l - 53)) * 2 ^ (l - 53))"

text \<open>
  \<open>as u64\<close> saturates, and maps the not-a-number of \<open>0.0 / 0.0\<close> to 0 and an infinite quotient to the
  largest value; the latter does not fit \<open>u32\<close>.
\<close>

definition div_duration_f64_floor_as_u64 :: "duration \<Rightarrow> duration \<Rightarrow> nat" where
  "div_duration_f64_floor_as_u64 duration divider =
     (let a = f64_of_duration duration; b = f64_of_duration divider
      in if b = 0 then (if a = 0 then 0 else 2 ^ 64 - 1)
         else min (f64_div_floor a b) (2 ^ 64 - 1))"

definition div_with_reminder :: "duration \<Rightarrow> duration \<Rightarrow> (nat \<times> duration) outcome" where
  "div_with_reminder duration divider =
     (let quotient = div_duration_f64_floor_as_u64 duration divider in
      if \<not> quotient < 2 ^ 32 then Panic ''try_into u32''
      else obind (expect (duration_checked_mul divider quotient) ''checked_mul'') (\<lambda>subtract.
           obind (expect (duration_checked_sub duration subtract) ''checked_sub'') (\<lambda>reminder.
           Ok (quotient, reminder))))"

section \<open>Rounds\<close>

record round_bucket =
  round_duration :: duration
  max_number_of_loops :: nat

record round_time =
  buckets :: "round_bucket list"
  default_bucket :: duration

definition add_bucket :: "round_bucket list \<Rightarrow> duration \<Rightarrow> nat \<Rightarrow> round_bucket list outcome" where
  "add_bucket bs d loops =
     (if loops > 0 then Ok (bs @ [\<lparr>round_duration = d, max_number_of_loops = loops\<rparr>])
      else Panic ''Max number of loops must be at least one.'')"

function linear_loop :: "duration \<Rightarrow> duration \<Rightarrow> duration \<Rightarrow> round_bucket list \<Rightarrow> round_bucket list outcome" where
  "linear_loop max_round_duration step cursor bs =
     (if max_round_duration > cursor \<and> 0 < step then
        obind (add_bucket bs cursor 1) (\<lambda>bs'.
        (case duration_checked_add cursor step of
           None \<Rightarrow> Panic ''overflow when adding durations''
         | Some cursor' \<Rightarrow> linear_loop max_round_duration step cursor' bs'))
      else Ok bs)"
  by pat_completeness auto
termination
  by (relation "measure (\<lambda>(m, s, c, b). m - c)") (auto simp: duration_checked_add_def split: if_splits)

declare linear_loop.simps [simp del]

definition linear :: "duration \<Rightarrow> duration \<Rightarrow> duration \<Rightarrow> round_time outcome" where
  "linear min_round_duration step max_round_duration =
     (if \<not> max_round_duration \<ge> min_round_duration then Panic ''assert''
      else if step = 0 then Panic ''assert''
      else obind (linear_loop max_round_duration step min_round_duration []) (\<lambda>bs.
           Ok \<lparr>buckets = bs, default_bucket = max_round_duration\<rparr>))"

record calculate_round_result =
  crr_round :: nat
  round_remaining_time :: duration

fun calculate_round_loop ::
    "duration \<Rightarrow> nat \<Rightarrow> round_bucket list \<Rightarrow> duration \<Rightarrow> nat \<Rightarrow> calculate_round_result outcome" where
  "calculate_round_loop dflt bk_set_size [] remaining round =
     obind (div_with_reminder remaining dflt) (\<lambda>(x, r).
     obind (u32_checked (round + x)) (\<lambda>round'.
     Ok \<lparr>crr_round = round', round_remaining_time = r\<rparr>))"
| "calculate_round_loop dflt bk_set_size (bucket # rest) remaining round =
     obind (expect (duration_checked_mul (round_duration bucket) bk_set_size) ''unwrap'')
       (\<lambda>bucket_loop_duration.
     obind (expect (duration_checked_mul bucket_loop_duration (max_number_of_loops bucket)) ''unwrap'')
       (\<lambda>bucket_max_duration.
     if remaining \<ge> bucket_max_duration then
       obind (u32_checked (bk_set_size * max_number_of_loops bucket)) (\<lambda>n.
       obind (u32_checked (round + n)) (\<lambda>round'.
       calculate_round_loop dflt bk_set_size rest (remaining - bucket_max_duration) round'))
     else
       obind (div_with_reminder remaining bucket_loop_duration) (\<lambda>(loops_count, r).
       obind (u32_checked (loops_count * bk_set_size)) (\<lambda>n.
       obind (u32_checked (round + n)) (\<lambda>round'.
       obind (div_with_reminder r (round_duration bucket)) (\<lambda>(x, r').
       obind (u32_checked (round' + x)) (\<lambda>round''.
       Ok \<lparr>crr_round = round'', round_remaining_time = r'\<rparr>)))))))"

definition calculate_round :: "round_time \<Rightarrow> duration \<Rightarrow> nat \<Rightarrow> calculate_round_result outcome" where
  "calculate_round rt duration_from_parent_block block_bk_set_size =
     calculate_round_loop (default_bucket rt) block_bk_set_size (buckets rt)
       duration_from_parent_block 0"

section \<open>Accuracy of the division\<close>

lemma bit_length_bounds: "n < 2 ^ bit_length n" "0 < n \<Longrightarrow> 2 ^ (bit_length n - 1) \<le> n"
proof (induction n rule: bit_length.induct)
  case (1 n)
  {
    case 1
    then show ?case using "1.IH"(1) by (subst bit_length.simps) auto
  next
    case 2
    then show ?case
      using "1.IH"(2) by (subst bit_length.simps) (cases "n div 2 = 0"; auto simp: bit_length.simps [of 0] bit_length.simps [of "n div 2"])
  }
qed

lemma bit_length_le: "n < 2 ^ k \<Longrightarrow> bit_length n \<le> k"
proof (induction k arbitrary: n)
  case 0
  then show ?case by (simp add: bit_length.simps)
next
  case (Suc k)
  then have "bit_length (n div 2) \<le> k" by auto
  then show ?case by (subst bit_length.simps) simp
qed

lemma f64_of_nat_exact: "n < 2 ^ 53 \<Longrightarrow> f64_of_nat n = n"
  using bit_length_le [of n 53] by (simp add: f64_of_nat_def)

lemma f64_of_duration_exact:
  assumes "d < 2 ^ 53"
  shows "f64_of_duration d = d"
proof -
  have "d div 1000000000 * 1000000000 \<le> d" "d div 1000000000 \<le> d" by simp_all
  then have "f64_of_nat (f64_of_nat (d div 1000000000) * 1000000000) = d div 1000000000 * 1000000000"
    using assms by (simp add: f64_of_nat_exact)
  then show ?thesis
    unfolding f64_of_duration_def using assms by (simp add: f64_of_nat_exact)
qed

lemma round_half_even_ge: "k * d \<le> n \<Longrightarrow> 0 < d \<Longrightarrow> k \<le> round_half_even n d"
  using div_le_mono [of "k * d" n d] by (auto simp: round_half_even_def Let_def)

lemma round_half_even_le:
  assumes "2 * n < (2 * k + 1) * d"
  shows "round_half_even n d \<le> k"
proof -
  define q r where "q = n div d" and "r = n mod d"
  have n: "n = q * d + r" by (simp add: q_def r_def)
  have lt: "2 * n < 2 * (k * d) + d" using assms by (simp add: algebra_simps)
  have "0 < d" using assms by (cases d) auto
  then have rd: "r < d" by (simp add: r_def)
  have "q \<le> k"
  proof (rule ccontr)
    assume "\<not> q \<le> k"
    then have "(k + 1) * d \<le> q * d" by (intro mult_right_mono) auto
    then have "k * d + d \<le> q * d" by simp
    then show False using lt n by linarith
  qed
  moreover have "q < k" if "d \<le> 2 * r"
  proof (rule ccontr)
    assume "\<not> q < k"
    then have "k * d \<le> q * d" by (intro mult_right_mono) auto
    then show False using lt n that by linarith
  qed
  ultimately show ?thesis
    using rd unfolding round_half_even_def q_def [symmetric] r_def [symmetric] Let_def by auto
qed

lemma f64_div_floor_exact:
  assumes "a < 2 ^ 53" and "0 < b"
  shows "f64_div_floor a b = a div b"
proof -
  define q where "q = a div b"
  define l where "l = bit_length q"
  define s where "s = 53 - l"
  have "q < 2 ^ 53" using assms(1) le_less_trans [OF div_le_dividend [of a b]] by (simp add: q_def)
  then have l: "l \<le> 53" unfolding l_def by (rule bit_length_le)
  have qb: "q * b \<le> a" "a < (q + 1) * b"
    using assms(2) by (auto simp: q_def dividend_less_div_times)
  have b2: "b < 2 * 2 ^ s \<or> q = 0"
  proof (cases "q = 0")
    case False
    then have ge: "2 ^ (l - 1) \<le> q" "0 < l"
      unfolding l_def using bit_length_bounds [of q] by (auto intro: Nat.gr0I)
    have "2 ^ (l - 1) * b \<le> q * b" using ge(1) by simp
    also have "\<dots> < 2 ^ 53" using qb(1) assms(1) by linarith
    also have "(2 :: nat) ^ 53 = 2 ^ (l - 1) * (2 * 2 ^ s)"
      using ge(2) l by (simp add: s_def power_add [symmetric] power_Suc [symmetric] del: power_Suc)
    finally show ?thesis by simp
  qed simp
  let ?R = "round_half_even (a * 2 ^ s) b"
  have lo: "q * 2 ^ s \<le> ?R"
    using qb(1) assms(2) by (intro round_half_even_ge) (simp_all add: algebra_simps)
  have hi: "?R < (q + 1) * 2 ^ s"
  proof (cases "q = 0")
    case True
    then have "l = 0" "s = 53" by (simp_all add: l_def bit_length.simps s_def)
    have "2 * (a * 2 ^ 53) < (2 * (2 ^ 53 - 1) + 1) * b"
    proof -
      have "a + 1 \<le> b" using qb(2) True by simp
      then have "(2 * 2 ^ 53 - 1) * (a + 1) \<le> (2 * 2 ^ 53 - 1) * b" by (rule mult_le_mono2)
      then show ?thesis using assms(1) by simp
    qed
    then have "?R \<le> 2 ^ 53 - 1" unfolding \<open>s = 53\<close> by (rule round_half_even_le)
    then show ?thesis using True \<open>s = 53\<close> by simp
  next
    case False
    have "a + 1 \<le> (q + 1) * b" using qb(2) by simp
    then have "(a + 1) * (2 * 2 ^ s) \<le> (q + 1) * b * (2 * 2 ^ s)" by (rule mult_le_mono1)
    moreover have "b < 2 * 2 ^ s" using b2 False by simp
    ultimately have "2 * (a * 2 ^ s) < (2 * ((q + 1) * 2 ^ s - 1) + 1) * b"
      using assms(2) by (simp add: algebra_simps diff_mult_distrib)
    then have "?R \<le> (q + 1) * 2 ^ s - 1" by (rule round_half_even_le)
    moreover have "0 < (q + 1) * 2 ^ s" by simp
    ultimately show ?thesis by linarith
  qed
  have "?R div 2 ^ s = q"
  proof (rule div_nat_eqI)
    show "2 ^ s * q \<le> ?R" using lo by (simp add: mult.commute)
    show "?R < 2 ^ s * Suc q" using hi by (simp add: mult.commute)
  qed
  then show ?thesis
    using l by (simp add: f64_div_floor_def Let_def q_def [symmetric] l_def [symmetric] s_def)
qed

lemma div_with_reminder_exact:
  assumes "d < 2 ^ 53" and "e < 2 ^ 53" and "0 < e" and "d div e < 2 ^ 32"
  shows "div_with_reminder d e = Ok (d div e, d mod e)"
proof -
  have "div_duration_f64_floor_as_u64 d e = d div e"
    using assms by (simp add: div_duration_f64_floor_as_u64_def f64_of_duration_exact
        f64_div_floor_exact Let_def)
  moreover have le: "e * (d div e) \<le> d" by simp
  moreover have "d \<le> duration_max" using assms(1) by (simp add: duration_max_def)
  with le have "e * (d div e) \<le> duration_max" by (rule order.trans)
  ultimately show ?thesis
    using assms(4) by (simp add: div_with_reminder_def duration_checked_mul_def duration_checked_sub_def
        minus_mult_div_eq_mod)
qed

text \<open>Beyond 53 bits the rounded quotient can exceed the exact one and the subtraction panics.\<close>

lemma f64_of_duration_rounds_up: "f64_of_duration (2 ^ 61 - 1) = 2 ^ 61"
proof -
  have "bit_length 2305843009213693951 = 61" by (simp add: bit_length.simps)
  then have "f64_of_nat 2305843009213693951 = 2 ^ 61"
    by (simp add: f64_of_nat_def round_half_even_def)
  moreover have "f64_of_nat 2305843009 = 2305843009" by (simp add: f64_of_nat_exact)
  moreover have "bit_length 2305843009000000000 = 61" by (simp add: bit_length.simps)
  then have "f64_of_nat 2305843009000000000 = 2305843009000000000"
    by (simp add: f64_of_nat_def round_half_even_def)
  ultimately show ?thesis by (simp add: f64_of_duration_def)
qed

lemma div_with_reminder_panics_beyond_f64:
  "div_with_reminder (2 ^ 61 - 1) (2 ^ 30) = Panic ''checked_sub''"
proof -
  have "bit_length (2 ^ 31) = 32" by (simp add: bit_length.simps)
  then have "f64_div_floor (2 ^ 61) (2 ^ 30) = 2 ^ 31"
    by (simp add: f64_div_floor_def round_half_even_def)
  moreover have "f64_of_duration (2 ^ 30) = 2 ^ 30"
    by (rule f64_of_duration_exact) simp
  ultimately have "div_duration_f64_floor_as_u64 (2 ^ 61 - 1) (2 ^ 30) = 2 ^ 31"
    using f64_of_duration_rounds_up by (simp add: div_duration_f64_floor_as_u64_def)
  then show ?thesis
    by (simp add: div_with_reminder_def duration_checked_mul_def duration_checked_sub_def
        duration_max_def)
qed

section \<open>The schedule of rounds\<close>

text \<open>
  The abstract specification: round \<open>k\<close> lasts as long as the bucket it falls into says, where a
  bucket holds \<open>bk_set_size * max_number_of_loops\<close> consecutive rounds and the rounds after the last
  bucket have the default length.
\<close>

fun round_length :: "round_bucket list \<Rightarrow> duration \<Rightarrow> nat \<Rightarrow> nat \<Rightarrow> duration" where
  "round_length [] dflt n k = dflt"
| "round_length (b # bs) dflt n k =
     (if k < n * max_number_of_loops b then round_duration b
      else round_length bs dflt n (k - n * max_number_of_loops b))"

definition round_start :: "round_bucket list \<Rightarrow> duration \<Rightarrow> nat \<Rightarrow> nat \<Rightarrow> duration" where
  "round_start bs dflt n k = (\<Sum>i<k. round_length bs dflt n i)"

text \<open>The parameters the node runs with: every round lasts at least \<open>m\<close> and no product overflows.\<close>

definition bucket_ok :: "nat \<Rightarrow> duration \<Rightarrow> round_bucket \<Rightarrow> bool" where
  "bucket_ok n m b = (m \<le> round_duration b \<and> round_duration b * n < 2 ^ 53 \<and> round_duration b < 2 ^ 53 \<and>
     0 < max_number_of_loops b \<and> max_number_of_loops b < 2 ^ 16)"

definition schedule_ok :: "round_time \<Rightarrow> nat \<Rightarrow> duration \<Rightarrow> bool" where
  "schedule_ok rt n m = (0 < m \<and> n < 2 ^ 16 \<and> list_all (bucket_ok n m) (buckets rt) \<and>
     m \<le> default_bucket rt \<and> default_bucket rt < 2 ^ 53)"

lemma round_start_Nil: "round_start [] dflt n k = dflt * k"
  by (simp add: round_start_def)

lemma round_start_in_bucket:
  "k \<le> n * max_number_of_loops b \<Longrightarrow> round_start (b # bs) dflt n k = round_duration b * k"
  by (simp add: round_start_def)

lemma round_start_after_bucket:
  "round_start (b # bs) dflt n (n * max_number_of_loops b + k) =
     round_duration b * (n * max_number_of_loops b) + round_start bs dflt n k"
proof -
  let ?N = "n * max_number_of_loops b"
  have "(\<Sum>i<?N + k. round_length (b # bs) dflt n i) =
      (\<Sum>i<?N. round_length (b # bs) dflt n i) + (\<Sum>i<k. round_length (b # bs) dflt n (?N + i))"
    by (induction k) simp_all
  then show ?thesis by (simp add: round_start_def)
qed

lemma round_start_mono: "k \<le> l \<Longrightarrow> round_start bs dflt n k \<le> round_start bs dflt n l"
  unfolding round_start_def by (intro sum_mono2) auto

lemma round_start_Suc: "round_start bs dflt n (Suc k) = round_start bs dflt n k + round_length bs dflt n k"
  by (simp add: round_start_def)

lemma round_unique:
  assumes "round_start bs dflt n k + e = d" and "e < round_length bs dflt n k"
    and "round_start bs dflt n l \<le> d" and "d < round_start bs dflt n (Suc l)"
  shows "k = l"
proof (rule ccontr)
  assume "k \<noteq> l"
  then consider "Suc k \<le> l" | "Suc l \<le> k" by linarith
  then show False
  proof cases
    case 1
    then show False
      using round_start_mono [OF 1, of bs dflt n] assms(1,2,3) by (simp add: round_start_Suc)
  next
    case 2
    then show False
      using round_start_mono [OF 2, of bs dflt n] assms(1,4) by simp
  qed
qed

lemma u32_checked_eq_Ok [simp]: "u32_checked n = Ok k \<longleftrightarrow> n < 2 ^ 32 \<and> k = n"
  by (auto simp: u32_checked_def)

lemma u32_checked_small: "n < 2 ^ 32 \<Longrightarrow> u32_checked n = Ok n"
  by (simp add: u32_checked_def)

lemma bucket_products:
  assumes "bucket_ok n m b" and "n < 2 ^ 16"
  shows "duration_checked_mul (round_duration b) n = Some (round_duration b * n)"
    and "duration_checked_mul (round_duration b * n) (max_number_of_loops b) =
      Some (round_duration b * (n * max_number_of_loops b))"
    and "n * max_number_of_loops b < 2 ^ 32"
proof -
  have L: "max_number_of_loops b < 2 ^ 16" and d: "round_duration b * n < 2 ^ 53"
    using assms(1) by (auto simp: bucket_ok_def)
  have "n * max_number_of_loops b \<le> (2 ^ 16 - 1) * (2 ^ 16 - 1)"
    using L assms(2) by (intro mult_le_mono) auto
  then show "n * max_number_of_loops b < 2 ^ 32" by simp
  have "round_duration b * n * max_number_of_loops b \<le> 2 ^ 53 * 2 ^ 16"
    using L d by (intro mult_le_mono) auto
  then show "duration_checked_mul (round_duration b * n) (max_number_of_loops b) =
      Some (round_duration b * (n * max_number_of_loops b))"
    by (simp add: duration_checked_mul_def duration_max_def mult.assoc)
  show "duration_checked_mul (round_duration b) n = Some (round_duration b * n)"
    using d by (simp add: duration_checked_mul_def duration_max_def)
qed

lemma in_bucket_division:
  assumes "bucket_ok n m b" and "0 < m" and "d < 2 ^ 53" and "c + d div m < 2 ^ 32" and "0 < n"
  shows "div_with_reminder d (round_duration b * n) =
      Ok (d div (round_duration b * n), d mod (round_duration b * n))"
    and "div_with_reminder (d mod (round_duration b * n)) (round_duration b) =
      Ok (d mod (round_duration b * n) div round_duration b, d mod round_duration b)"
    and "d div (round_duration b * n) * n + d mod (round_duration b * n) div round_duration b =
      d div round_duration b"
    and "c + d div round_duration b < 2 ^ 32"
proof -
  let ?D = "round_duration b"
  have D: "m \<le> ?D" "?D * n < 2 ^ 53" "?D < 2 ^ 53" "0 < ?D"
    using assms(1,2) by (auto simp: bucket_ok_def)
  have "d div ?D \<le> d div m" using D(1) assms(2) by (rule div_le_mono2 [rotated])
  then show c: "c + d div ?D < 2 ^ 32" using assms(4) by linarith
  have "d div (?D * n) \<le> d div ?D" using assms(5) D(4) by (intro div_le_mono2) auto
  then show "div_with_reminder d (?D * n) = Ok (d div (?D * n), d mod (?D * n))"
    using assms(3,5) D c by (intro div_with_reminder_exact) auto
  show eq: "d div (?D * n) * n + d mod (?D * n) div ?D = d div ?D"
  proof -
    have "d mod (?D * n) div ?D = d div ?D mod n"
      using D(4) by (simp add: mod_mult2_eq)
    then show ?thesis by (simp add: div_mult2_eq)
  qed
  show "div_with_reminder (d mod (?D * n)) ?D = Ok (d mod (?D * n) div ?D, d mod ?D)"
  proof -
    have "d mod (?D * n) mod ?D = d mod ?D" by (simp add: mod_mod_cancel)
    moreover have "d mod (?D * n) < 2 ^ 53" using D(2,4) assms(5) by (intro order.strict_trans [OF mod_less_divisor]) auto
    moreover have "d mod (?D * n) div ?D < 2 ^ 32" using eq c by linarith
    ultimately show ?thesis using D by (simp add: div_with_reminder_exact)
  qed
qed

lemma calculate_round_loop_correct:
  assumes "list_all (bucket_ok n m) bs" and "0 < m" and "n < 2 ^ 16" and "m \<le> dflt" and "dflt < 2 ^ 53"
    and "d < 2 ^ 53" and "c + d div m < 2 ^ 32"
  shows "\<exists>k e. calculate_round_loop dflt n bs d c = Ok \<lparr>crr_round = c + k, round_remaining_time = e\<rparr> \<and>
    round_start bs dflt n k + e = d \<and> e < round_length bs dflt n k"
  using assms
proof (induction bs arbitrary: d c)
  case Nil
  have "d div dflt \<le> d div m" using Nil.prems(2,4) by (rule div_le_mono2)
  then have "div_with_reminder d dflt = Ok (d div dflt, d mod dflt)" "c + d div dflt < 2 ^ 32"
    using Nil.prems by (auto intro!: div_with_reminder_exact)
  then show ?case
    using Nil.prems by (simp add: u32_checked_small round_start_Nil)
next
  case (Cons b bs)
  let ?D = "round_duration b" and ?N = "n * max_number_of_loops b"
  have b: "bucket_ok n m b" and bs: "list_all (bucket_ok n m) bs" using Cons.prems(1) by auto
  note prods = bucket_products [OF b Cons.prems(3)]
  show ?case
  proof (cases "?D * ?N \<le> d")
    case True
    have "m * ?N \<le> ?D * ?N" using b by (simp add: bucket_ok_def)
    then have "m * ?N + (d - ?D * ?N) \<le> d" using True by linarith
    then have "(m * ?N + (d - ?D * ?N)) div m \<le> d div m" by (rule div_le_mono)
    then have cnt: "?N + (d - ?D * ?N) div m \<le> d div m" using Cons.prems(2) by simp
    then have cnt': "c + ?N + (d - ?D * ?N) div m < 2 ^ 32" using Cons.prems(7) by linarith
    have lt: "d - ?D * ?N < 2 ^ 53" using Cons.prems(6) by linarith
    obtain k e where IH: "calculate_round_loop dflt n bs (d - ?D * ?N) (c + ?N) =
          Ok \<lparr>crr_round = c + ?N + k, round_remaining_time = e\<rparr>"
        "round_start bs dflt n k + e = d - ?D * ?N" "e < round_length bs dflt n k"
      using Cons.IH [OF bs Cons.prems(2-5) lt cnt'] by blast
    have "calculate_round_loop dflt n (b # bs) d c =
        Ok \<lparr>crr_round = c + (?N + k), round_remaining_time = e\<rparr>"
      using IH(1) True prods cnt Cons.prems(7) by (simp add: u32_checked_small add.assoc)
    then show ?thesis
      using IH(2,3) True round_start_after_bucket [of b bs dflt n k]
      by (intro exI [of _ "?N + k"] exI [of _ e]) simp
  next
    case False
    have n: "0 < n" using False by (intro Nat.gr0I) auto
    note dv = in_bucket_division [OF b Cons.prems(2,6,7) n]
    let ?k = "d div ?D"
    have D: "0 < ?D" using b Cons.prems(2) by (simp add: bucket_ok_def)
    then have kN: "?k < ?N" using False by (simp add: div_less_iff_less_mult mult.commute)
    have "calculate_round_loop dflt n (b # bs) d c =
        Ok \<lparr>crr_round = c + ?k, round_remaining_time = d mod ?D\<rparr>"
      using False prods dv(1,2,4) dv(3) [symmetric] by (simp add: u32_checked_small add.assoc)
    moreover have "round_start (b # bs) dflt n ?k + d mod ?D = d"
      using kN by (simp add: round_start_in_bucket)
    ultimately show ?thesis
      using kN D by (intro exI [of _ ?k] exI [of _ "d mod ?D"]) simp
  qed
qed



section \<open>The linear schedule\<close>

definition linear_buckets :: "duration \<Rightarrow> duration \<Rightarrow> nat \<Rightarrow> round_bucket list" where
  "linear_buckets start step k =
     map (\<lambda>i. \<lparr>round_duration = start + i * step, max_number_of_loops = 1\<rparr>) [0..<k]"

lemma linear_buckets_Suc:
  "linear_buckets start step (Suc k) =
     \<lparr>round_duration = start, max_number_of_loops = 1\<rparr> # linear_buckets (start + step) step k"
  by (simp add: linear_buckets_def upt_conv_Cons map_Suc_upt [symmetric] comp_def add.assoc
      del: upt_Suc map_Suc_upt)

lemma linear_loop_correct:
  assumes "0 < step" and "hi + step \<le> duration_max"
  shows "linear_loop hi step cursor bs =
    Ok (bs @ linear_buckets cursor step (div_ceil (hi - cursor) step))"
  using assms
proof (induction hi step cursor bs rule: linear_loop.induct)
  case (1 hi step cursor bs)
  show ?case
  proof (cases "cursor < hi")
    case True
    have "div_ceil (hi - cursor) step = Suc (div_ceil (hi - (cursor + step)) step)"
    proof (cases "cursor + step \<le> hi")
      case True
      then have "hi - cursor = (hi - (cursor + step)) + step" by simp
      then show ?thesis using div_ceil_add_self [OF "1.prems"(1)] by metis
    next
      case False
      then show ?thesis using \<open>cursor < hi\<close> by (simp add: div_ceil_small)
    qed
    then show ?thesis
      using 1 True by (simp add: linear_loop.simps [of hi step cursor] add_bucket_def
          duration_checked_add_def linear_buckets_Suc)
  next
    case False
    then show ?thesis
      by (simp add: linear_loop.simps [of hi step cursor] linear_buckets_def)
  qed
qed

lemma round_length_linear:
  assumes "0 < n"
  shows "round_length (linear_buckets start step k) dflt n i =
    (if i div n < k then start + i div n * step else dflt)"
  using assms
proof (induction k arbitrary: start i)
  case 0
  then show ?case by (simp add: linear_buckets_def)
next
  case (Suc k)
  have "i div n = Suc ((i - n) div n)" if "n \<le> i"
    using that Suc.prems by (simp add: le_div_geq)
  then show ?case
    using Suc by (auto simp: linear_buckets_Suc not_less)
qed

text \<open>
  \<open>RoundTime::linear\<close> terminates and builds a linear back-off: with \<open>n\<close> block keepers each pass
  over the set has rounds one \<open>step\<close> longer than the pass before, starting from the minimum and
  capped at the maximum, so no round is shorter than an earlier one.
\<close>

theorem linear_backoff:
  assumes "lo \<le> hi" and "0 < step" and "hi + step \<le> duration_max" and "0 < n"
  shows "\<exists>rt. linear lo step hi = Ok rt \<and> default_bucket rt = hi \<and>
    (\<forall>i. round_length (buckets rt) hi n i = min (lo + i div n * step) hi)"
proof -
  let ?k = "div_ceil (hi - lo) step"
  have "linear lo step hi = Ok \<lparr>buckets = linear_buckets lo step ?k, default_bucket = hi\<rparr>"
    using assms by (simp add: linear_def linear_loop_correct)
  moreover have "i < ?k \<longleftrightarrow> lo + i * step < hi" for i
  proof -
    have "i < ?k \<longleftrightarrow> i * step < hi - lo"
    proof (cases "(hi - lo) mod step = 0")
      case True
      then obtain q where "hi - lo = q * step" by (metis mod_eq_0_iff_dvd dvdE mult.commute)
      then show ?thesis using assms(2) by (simp add: div_ceil_def)
    next
      case False
      have "i < ?k \<longleftrightarrow> i \<le> (hi - lo) div step" using False by (simp add: div_ceil_def less_Suc_eq_le)
      also have "\<dots> \<longleftrightarrow> i * step \<le> hi - lo" using assms(2) by (simp add: less_eq_div_iff_mult_less_eq)
      also have "\<dots> \<longleftrightarrow> i * step < hi - lo" using False by (metis le_neq_implies_less less_imp_le mod_mult_self2_is_0)
      finally show ?thesis .
    qed
    then show ?thesis using assms(1) by linarith
  qed
  then have "round_length (linear_buckets lo step ?k) hi n i = min (lo + i div n * step) hi" for i
    using round_length_linear [OF assms(4), of lo step ?k hi i] by (auto simp: min_def not_less)
  ultimately show ?thesis by auto
qed

theorem linear_backoff_witness:
  "\<exists>rt. linear 330 100 1000 = Ok rt \<and> default_bucket rt = 1000 \<and>
    (\<forall>i. round_length (buckets rt) 1000 4 i = min (330 + i div 4 * 100) 1000)"
  using linear_backoff [of 330 1000 100 4] by (simp add: duration_max_def)

end
