(* ===== verification/Action_Lock.thy ===== *)
theory Action_Lock
  imports Blocks Block_Tree Round_Time
begin

text \<open>
  The lock a block keeper takes on a block height before it attests a block
  (src/node/src/protocol/authority_switch/action_lock.rs, network_message.rs). The collection of
  locks is a cache in front of a durable store; the shared repository of block states is part of
  the state. The clock is an argument, read once per call. Sets of block ids are lists that are
  compared as sets.
\<close>

section \<open>Locks\<close>

record block_ref =
  br_block_seq_no :: block_seq_no
  br_block_identifier :: block_identifier

datatype block_ref_error = MissingSeqNo | MissingRound

definition block_ref_try_from :: "block_state \<Rightarrow> block_ref_error + block_ref" where
  "block_ref_try_from s =
     (case bs_block_seq_no s of
        None \<Rightarrow> Inl MissingSeqNo
      | Some seq_no \<Rightarrow>
          Inr \<lparr>br_block_seq_no = seq_no, br_block_identifier = bs_block_identifier s\<rparr>)"

definition block_ref_unwrap :: "block_state \<Rightarrow> block_ref outcome" where
  "block_ref_unwrap s =
     (case block_ref_try_from s of Inl _ \<Rightarrow> Panic ''called unwrap on an Err value'' | Inr r \<Rightarrow> Ok r)"

record action_lock =
  al_parent_block_producer_selector_data :: producer_selector
  al_parent_block :: block_ref
  al_parent_prefinalization_proof :: "attestation option"
  al_locked_round :: u64
  al_locked_block :: "(u64 \<times> block_ref) option"
  al_locked_bad_block_nacks :: "block_identifier list"

record siblings_block_height_key =
  sk_parent_block_identifier :: block_identifier
  sk_height :: block_height

section \<open>Messages\<close>

record lock_message =
  lm_parent_block :: block_identifier
  lm_height :: block_height
  lm_next_auth_node_id :: node_identifier
  lm_locked_round :: u64
  lm_locked_block :: "block_identifier option"
  lm_nack_bad_block :: "block_identifier list"

record next_round =
  nr_lock :: "lock_message envelope"
  nr_locked_block_attestation :: "attestation option"
  nr_attestations_for_ancestors :: "attestation list"

text \<open>A proposed block travels in serialised form; \<open>None\<close> when it cannot be decoded.\<close>

record next_round_success =
  ns_node_identifier :: node_identifier
  ns_round :: u64
  ns_block_height :: block_height
  ns_proposed_block :: "block_envelope option"
  ns_attestations_aggregated :: "attestation option"
  ns_requests_aggregated :: "lock_message envelope list"

record next_round_reject =
  rj_thread_identifier :: thread_identifier
  rj_prefinalized_block :: block_envelope
  rj_proof_of_prefinalization :: attestation

record start_block_producer_parameters =
  sp_thread_identifier :: thread_identifier
  sp_parent_block_identifier :: block_identifier
  sp_parent_block_seq_no :: block_seq_no
  sp_round :: u64
  sp_nacked_blocks_bad_block :: "block_envelope list"
  sp_proof_of_valid_start :: "lock_message envelope list"

section \<open>The collection of locks\<close>

record lock_collection =
  lc_preloaded :: "(block_height, action_lock option) hmap"
  lc_stored :: "(block_height, action_lock option) hmap"

definition lock_collection_new :: "(block_height, action_lock option) hmap \<Rightarrow> lock_collection" where
  "lock_collection_new stored = \<lparr>lc_preloaded = [], lc_stored = stored\<rparr>"

definition preload_lock :: "block_height \<Rightarrow> lock_collection \<Rightarrow> lock_collection" where
  "preload_lock h c =
     (if hm_contains (lc_preloaded c) h then c
      else case hm_get (lc_stored c) h of
             None \<Rightarrow> c
           | Some lock \<Rightarrow> c\<lparr>lc_preloaded := hm_insert h lock (lc_preloaded c)\<rparr>)"

definition lock_is_active :: "block_repo \<Rightarrow> block_height \<Rightarrow> lock_collection \<Rightarrow> bool" where
  "lock_is_active repo h c =
     (case hm_get (lc_preloaded c) h of
        Some (Some lock) \<Rightarrow>
          (case al_locked_block lock of
             Some (_, r) \<Rightarrow> \<not> is_invalidated (repo_get repo (br_block_identifier r))
           | None \<Rightarrow> True)
      | _ \<Rightarrow> True)"

definition lock_insert :: "block_height \<Rightarrow> action_lock \<Rightarrow> lock_collection \<Rightarrow> lock_collection" where
  "lock_insert h lock c = c\<lparr>lc_preloaded := hm_insert h (Some lock) (lc_preloaded c)\<rparr>"

definition lock_remove :: "block_height \<Rightarrow> lock_collection \<Rightarrow> lock_collection" where
  "lock_remove h c = c\<lparr>lc_preloaded := hm_insert h None (lc_preloaded c)\<rparr>"

text \<open>The lock, if any, and the collection after the call; a lock on an invalidated block is dropped.\<close>

definition lock_get_mut :: "block_repo \<Rightarrow> block_height \<Rightarrow> lock_collection \<Rightarrow> action_lock option \<times> lock_collection" where
  "lock_get_mut repo h c =
     (let c1 = preload_lock h c;
          c2 = (if lock_is_active repo h c1 then c1 else lock_remove h c1)
      in (case hm_get (lc_preloaded c2) h of None \<Rightarrow> None | Some inner \<Rightarrow> inner, c2))"

definition lock_get :: "block_repo \<Rightarrow> block_height \<Rightarrow> lock_collection \<Rightarrow> action_lock option \<times> lock_collection" where
  "lock_get repo h c =
     (let c1 = preload_lock h c
      in (if lock_is_active repo h c1
          then (case hm_get (lc_preloaded c1) h of None \<Rightarrow> None | Some inner \<Rightarrow> inner) else None, c1))"

definition drop_old_locks :: "block_height \<Rightarrow> lock_collection \<Rightarrow> lock_collection" where
  "drop_old_locks h c = c\<lparr>lc_preloaded := hm_retain (\<lambda>k _. bh_thread_identifier k \<noteq> bh_thread_identifier h \<or>
       bh_height k \<ge> bh_height h) (lc_preloaded c)\<rparr>"

definition save_lock :: "block_height \<Rightarrow> lock_collection \<Rightarrow> lock_collection" where
  "save_lock h c =
     (case hm_get (lc_preloaded c) h of
        None \<Rightarrow> c
      | Some data \<Rightarrow> c\<lparr>lc_stored := hm_insert h data (lc_stored c)\<rparr>)"

section \<open>The authority of a thread\<close>

record thread_authority =
  ta_thread_id :: thread_identifier
  ta_round_buckets :: round_time
  ta_node_identifier :: node_identifier
  ta_bls_keys_map :: "(pub_key, secret \<times> bytes) hmap"
  ta_action_lock :: lock_collection
  ta_confirmed_bad_block_nacks :: "(siblings_block_height_key, block_identifier list) hmap"
  ta_collecting_next_round :: "(siblings_block_height_key \<times> u64, next_round list) hmap"
  ta_closed_round :: "(siblings_block_height_key, u64) hmap"
  ta_block_producers :: "start_block_producer_parameters list option"
  ta_repo :: block_repo
  ta_bp_production_count :: int
  ta_node_joining_timeout :: nat
  ta_last_node_joining_sent :: nat
  ta_shutdown :: bool

definition set_locks :: "lock_collection \<Rightarrow> thread_authority \<Rightarrow> thread_authority" where
  "set_locks c ta = ta\<lparr>ta_action_lock := c\<rparr>"

definition nacks_at :: "block_identifier \<Rightarrow> block_height \<Rightarrow> thread_authority \<Rightarrow> block_identifier list" where
  "nacks_at parent h ta =
     (case hm_get (ta_confirmed_bad_block_nacks ta) \<lparr>sk_parent_block_identifier = parent, sk_height = h\<rparr> of
        Some nacks \<Rightarrow> nacks | None \<Rightarrow> [])"

text \<open>The time since the parent block, in the rounds of the local clock.\<close>

definition local_round_at :: "round_time \<Rightarrow> u64 \<Rightarrow> u64 \<Rightarrow> block_keeper_set \<Rightarrow> calculate_round_result outcome" where
  "local_round_at rt now parent_block_time bk_set =
     (if \<not> bk_set_len bk_set < 2 ^ 16 then Panic ''try_into u16''
      else calculate_round rt (unat (now - parent_block_time) * 1000000) (bk_set_len bk_set))"

section \<open>Attesting a block\<close>

datatype action_lock_result = OkSendAttestation | Rejected

text \<open>The effect of an attestation on an existing lock, and whether the lock changed.\<close>

definition lock_block ::
    "u64 \<Rightarrow> u64 \<Rightarrow> block_identifier \<Rightarrow> block_ref \<Rightarrow> action_lock \<Rightarrow> action_lock_result \<times> action_lock \<times> bool" where
  "lock_block block_round local_round block_identifier block_ref lock =
     (if block_round > al_locked_round lock then
        (OkSendAttestation,
         lock\<lparr>al_locked_block := Some (block_round, block_ref), al_locked_round := block_round\<rparr>, True)
      else if block_round = al_locked_round lock \<and> al_locked_block lock = None then
        (OkSendAttestation,
         lock\<lparr>al_locked_block := Some (block_round, block_ref), al_locked_round := local_round + 1\<rparr>, True)
      else case al_locked_block lock of
             None \<Rightarrow> (Rejected, lock, False)
           | Some (_, r) \<Rightarrow>
               (if br_block_identifier r = block_identifier then OkSendAttestation else Rejected, lock, False))"

text \<open>
  The checks before the lock is looked at: either the answer is already known, or the block can be
  attested as far as the facts about it and its parent go.
\<close>

record attestable_block =
  ac_block_height :: block_height
  ac_block_round :: u64
  ac_parent_block_id :: block_identifier
  ac_local_round :: u64
  ac_block_ref :: block_ref

definition attestable ::
    "u64 \<Rightarrow> block_identifier \<Rightarrow> thread_authority \<Rightarrow> (action_lock_result + attestable_block) outcome" where
  "attestable now b ta =
     (let s = repo_get (ta_repo ta) b in
      if is_finalized s \<or> is_prefinalized s then Ok (Inl OkSendAttestation)
      else if is_invalidated s then Ok (Inl Rejected)
      else if \<not> has_all_nacks_resolved s then Ok (Inl Rejected)
      else case (bs_block_height s, bs_block_round s, bs_parent_block_identifier s) of
        (Some block_height, Some block_round, Some parent_block_id) \<Rightarrow>
          (let p = repo_get (ta_repo ta) parent_block_id in
           case (bs_descendant_bk_set p, bs_block_time_ms p) of
             (Some bk_set, Some parent_block_time) \<Rightarrow>
               (if parent_block_time > now then Ok (Inl Rejected)
                else
                  obind (local_round_at (ta_round_buckets ta) now parent_block_time bk_set) (\<lambda>r.
                  obind (block_ref_unwrap s) (\<lambda>block_ref.
                  Ok (Inr \<lparr>ac_block_height = block_height, ac_block_round = block_round,
                           ac_parent_block_id = parent_block_id, ac_local_round = of_nat (crr_round r),
                           ac_block_ref = block_ref\<rparr>))))
           | _ \<Rightarrow> Ok (Inl Rejected))
      | _ \<Rightarrow> Ok (Inl Rejected))"

definition first_lock ::
    "producer_selector \<Rightarrow> block_ref \<Rightarrow> attestable_block \<Rightarrow> block_identifier list \<Rightarrow> action_lock" where
  "first_lock selector parent_ref a nacks =
     \<lparr>al_parent_block_producer_selector_data = selector, al_parent_block = parent_ref,
      al_parent_prefinalization_proof = None, al_locked_round = ac_local_round a,
      al_locked_block = Some (ac_block_round a, ac_block_ref a), al_locked_bad_block_nacks = nacks\<rparr>"

definition try_lock_send_attestation_action ::
    "u64 \<Rightarrow> block_identifier \<Rightarrow> thread_authority \<Rightarrow> (action_lock_result \<times> thread_authority) outcome" where
  "try_lock_send_attestation_action now b ta =
     obind (attestable now b ta) (\<lambda>a.
     case a of
       Inl result \<Rightarrow> Ok (result, ta)
     | Inr a \<Rightarrow>
         (let h = ac_block_height a;
              (found, c1) = lock_get_mut (ta_repo ta) h (ta_action_lock ta) in
          case found of
            Some lock \<Rightarrow>
              (let (result, lock', updated) =
                     lock_block (ac_block_round a) (ac_local_round a) b (ac_block_ref a) lock;
                   c2 = lock_insert h lock' c1;
                   c3 = (if updated then save_lock h c2 else c2)
               in Ok (result, set_locks c3 ta))
          | None \<Rightarrow>
              (let p = repo_get (ta_repo ta) (ac_parent_block_id a) in
               case bs_producer_selector_data p of
                 None \<Rightarrow> Ok (Rejected, set_locks c1 ta)
               | Some selector \<Rightarrow>
                   obind (block_ref_unwrap p) (\<lambda>parent_ref.
                   let lock = first_lock selector parent_ref a (nacks_at (ac_parent_block_id a) h ta)
                   in Ok (OkSendAttestation, set_locks (save_lock h (lock_insert h lock c1)) ta)))))"

section \<open>A successful round of another node\<close>

text \<open>The new lock and the block the majority abandoned.\<close>

definition adopt_block ::
    "u64 \<Rightarrow> u64 \<Rightarrow> block_ref \<Rightarrow> block_identifier list \<Rightarrow> action_lock \<Rightarrow>
     (action_lock \<times> (u64 \<times> block_ref) option) outcome" where
  "adopt_block round block_round leader nacks e =
     (let (e1, inv1) =
        (if round \<ge> al_locked_round e then
           (let e' = e\<lparr>al_locked_round := round\<rparr>;
                newer = (case al_locked_block e of None \<Rightarrow> True | Some (r, _) \<Rightarrow> block_round > r)
            in ((if newer then e'\<lparr>al_locked_block := Some (block_round, leader)\<rparr> else e')
                  \<lparr>al_locked_bad_block_nacks := nacks\<rparr>,
                if newer then al_locked_block e else None))
         else (e, None)) in
      if al_locked_round e1 = round \<and>
         (case al_locked_block e1 of None \<Rightarrow> True | Some (r, _) \<Rightarrow> block_round > r) then
        obind (expect (checked_add round 1) ''attempt to add with overflow'') (\<lambda>next_round.
        Ok (e1\<lparr>al_locked_round := next_round, al_locked_block := Some (block_round, leader),
               al_locked_bad_block_nacks := nacks\<rparr>,
            case al_locked_block e1 of
              Some prev \<Rightarrow>
                (if br_block_identifier (snd prev) \<noteq> br_block_identifier leader then Some prev else inv1)
            | None \<Rightarrow> inv1))
      else Ok (e1, inv1))"

definition on_next_round_success :: "next_round_success \<Rightarrow> thread_authority \<Rightarrow> thread_authority outcome" where
  "on_next_round_success msg ta =
     (case ns_proposed_block msg of
        None \<Rightarrow> Ok ta
      | Some proposed \<Rightarrow>
          (let block = env_data proposed;
               h = ns_block_height msg;
               block_round = cs_round (ab_common_section block);
               parent_id = ab_parent block;
               p = repo_get (ta_repo ta) parent_id in
           if bs_prefinalization_proof p = None \<and> parent_id \<noteq> block_identifier_default then Ok ta
           else case bs_producer_selector_data p of
             None \<Rightarrow> Ok ta
           | Some selector \<Rightarrow>
               (let envelope_nacks = map (\<lambda>e. nack_block_id (env_data e)) (cs_nacks (ab_common_section block));
                    leader = \<lparr>br_block_seq_no = ab_seq_no block, br_block_identifier = ab_identifier block\<rparr>;
                    (found, c1) = lock_get_mut (ta_repo ta) h (ta_action_lock ta) in
                case found of
                  Some e \<Rightarrow>
                    obind (adopt_block (ns_round msg) block_round leader envelope_nacks e) (\<lambda>(e', to_invalidate).
                    let ta' = set_locks (lock_insert h e' c1) ta in
                    case to_invalidate of
                      None \<Rightarrow> Ok ta'
                    | Some (_, r) \<Rightarrow>
                        obind (invalidate_branch (br_block_identifier r) (ta_repo ta)) (\<lambda>repo'.
                        Ok (ta'\<lparr>ta_repo := repo'\<rparr>)))
                | None \<Rightarrow>
                    obind (block_ref_unwrap p) (\<lambda>parent_ref.
                    let lock = \<lparr>al_parent_block_producer_selector_data = selector,
                                al_parent_block = parent_ref,
                                al_parent_prefinalization_proof = bs_prefinalization_proof p,
                                al_locked_round = ns_round msg,
                                al_locked_block = Some (block_round, leader),
                                al_locked_bad_block_nacks = envelope_nacks\<rparr>
                    in Ok (set_locks (lock_insert h lock c1) ta)))))"

definition on_block_finalized :: "block_height \<Rightarrow> thread_authority \<Rightarrow> thread_authority" where
  "on_block_finalized h ta = set_locks (drop_old_locks h (ta_action_lock ta)) ta"

text \<open>A stalled producer moves the round of an existing lock forward.\<close>

definition advance_lock :: "u64 \<Rightarrow> action_lock \<Rightarrow> action_lock \<times> bool" where
  "advance_lock local_round lock =
     (if local_round \<ge> al_locked_round lock then (lock\<lparr>al_locked_round := local_round\<rparr>, True) else (lock, False))"

section \<open>One attestation per round\<close>

text \<open>
  The lock of one height under the operations that change it, together with the attestations the
  node has given out. \<open>rd\<close> is the round a block was produced in, and the clock of the node is not
  behind the round of a block it attests.
\<close>

datatype lock_event =
    Attest block_ref u64
  | Advance u64
  | Adopt u64 block_ref "block_identifier list"

type_synonym lock_history = "(u64 \<times> block_identifier) set \<times> action_lock option"

inductive lock_step :: "(block_identifier \<Rightarrow> u64) \<Rightarrow> lock_history \<Rightarrow> lock_event \<Rightarrow> lock_history \<Rightarrow> bool"
  for rd where
  first_attest: "al_locked_round lock = local_round \<Longrightarrow> al_locked_block lock = Some (rd (br_block_identifier r), r) \<Longrightarrow>
    rd (br_block_identifier r) \<le> local_round \<Longrightarrow>
    lock_step rd (votes, None) (Attest r local_round)
      (insert (rd (br_block_identifier r), br_block_identifier r) votes, Some lock)"
| attest: "lock_block (rd (br_block_identifier r)) local_round (br_block_identifier r) r lock = (OkSendAttestation, lock', updated) \<Longrightarrow>
    rd (br_block_identifier r) \<le> local_round \<Longrightarrow> unat local_round < 2 ^ 32 \<Longrightarrow>
    lock_step rd (votes, Some lock) (Attest r local_round)
      (insert (rd (br_block_identifier r), br_block_identifier r) votes, Some lock')"
| advance: "advance_lock local_round lock = (lock', moved) \<Longrightarrow>
    lock_step rd (votes, Some lock) (Advance local_round) (votes, Some lock')"
| adopt: "adopt_block round (rd (br_block_identifier r)) r nacks lock = Ok (lock', abandoned) \<Longrightarrow>
    lock_step rd (votes, Some lock) (Adopt round r nacks) (votes, Some lock')"

inductive_cases lock_stepE: "lock_step rd s e t"

definition lock_start :: "lock_history \<Rightarrow> bool" where
  "lock_start s = (fst s = {} \<and> (case snd s of None \<Rightarrow> True | Some lock \<Rightarrow> al_locked_block lock = None))"

definition covered :: "action_lock \<Rightarrow> u64 \<Rightarrow> block_identifier \<Rightarrow> bool" where
  "covered lock r b = (r \<le> al_locked_round lock \<and>
     (\<exists>r' ref. al_locked_block lock = Some (r', ref) \<and> (r < r' \<or> r = r' \<and> br_block_identifier ref = b)))"

definition lock_inv :: "(block_identifier \<Rightarrow> u64) \<Rightarrow> lock_history \<Rightarrow> bool" where
  "lock_inv rd s = (case snd s of
       None \<Rightarrow> fst s = {}
     | Some lock \<Rightarrow>
         (\<forall>(r, b) \<in> fst s. covered lock r b) \<and>
         (\<forall>r ref. al_locked_block lock = Some (r, ref) \<longrightarrow> r = rd (br_block_identifier ref)) \<and>
         (\<forall>(r, b) \<in> fst s. \<forall>(r', b') \<in> fst s. r = r' \<longrightarrow> b = b'))"

text \<open>The later of the two branches of the source that adopt a block never runs.\<close>

lemma adopt_block_simp:
  "adopt_block round br leader nacks e =
     Ok (if round \<ge> al_locked_round e then
           (let newer = (case al_locked_block e of None \<Rightarrow> True | Some (r, _) \<Rightarrow> br > r)
            in (e\<lparr>al_locked_round := round,
                  al_locked_block := (if newer then Some (br, leader) else al_locked_block e),
                  al_locked_bad_block_nacks := nacks\<rparr>,
                if newer then al_locked_block e else None))
         else (e, None))"
  by (cases "al_locked_block e") (auto simp: adopt_block_def Let_def)

lemma lock_block_accepted:
  assumes "lock_block br lr b ref lock = (OkSendAttestation, lock', updated)" and "br_block_identifier ref = b"
  obtains (newer) "br > al_locked_round lock" "al_locked_round lock' = br" "al_locked_block lock' = Some (br, ref)" "updated"
  | (fresh) "br = al_locked_round lock" "al_locked_block lock = None" "al_locked_round lock' = lr + 1"
      "al_locked_block lock' = Some (br, ref)" "updated"
  | (same) r ref' where "br \<le> al_locked_round lock" "al_locked_block lock = Some (r, ref')"
      "br_block_identifier ref' = b" "lock' = lock" "\<not> updated"
  using assms by (auto simp: lock_block_def not_less split: if_splits option.splits)

lemma covered_step:
  assumes "covered lock r b" and "al_locked_round lock \<le> al_locked_round lock'"
    and "al_locked_block lock' = al_locked_block lock \<or>
      (\<exists>r0 ref0 r1 ref1. al_locked_block lock = Some (r0, ref0) \<and> al_locked_block lock' = Some (r1, ref1) \<and> r0 < r1)"
  shows "covered lock' r b"
  using assms by (auto simp: covered_def intro: order_trans less_trans)

lemma lock_inv_keep:
  assumes "lock_inv rd (votes, Some lock)" and "\<And>r b. covered lock r b \<Longrightarrow> covered lock' r b"
    and "\<And>r ref. al_locked_block lock' = Some (r, ref) \<Longrightarrow> r = rd (br_block_identifier ref)"
  shows "lock_inv rd (votes, Some lock')"
  using assms unfolding lock_inv_def by fastforce

lemma lock_inv_vote:
  assumes "lock_inv rd (votes, Some lock)" and "\<And>r b. (r, b) \<in> votes \<Longrightarrow> covered lock' r b"
    and "covered lock' (rd b0) b0"
    and "al_locked_block lock' = Some (rd b0, ref)" and "br_block_identifier ref = b0"
    and "\<And>r b. (r, b) \<in> votes \<Longrightarrow> r < rd b0 \<or> r = rd b0 \<and> b = b0"
  shows "lock_inv rd (insert (rd b0, b0) votes, Some lock')"
  using assms unfolding lock_inv_def by simp fast

lemma lock_inv_D:
  assumes "lock_inv rd (votes, Some lock)"
  shows "(r, b) \<in> votes \<Longrightarrow> covered lock r b"
    and "al_locked_block lock = Some (r, ref) \<Longrightarrow> r = rd (br_block_identifier ref)"
    and "al_locked_block lock = None \<Longrightarrow> votes = {}"
  using assms by (auto simp: lock_inv_def covered_def)

lemma lock_inv_attest:
  assumes inv: "lock_inv rd (votes, Some lock)"
    and acc: "lock_block (rd b0) lr b0 ref lock = (OkSendAttestation, lock', updated)"
    and b0: "br_block_identifier ref = b0" and lr: "rd b0 \<le> lr" "unat lr < 2 ^ 32"
  shows "lock_inv rd (insert (rd b0, b0) votes, Some lock')"
  using acc b0
proof (cases rule: lock_block_accepted)
  case newer
  have old: "r < rd b0" if "(r, b) \<in> votes" for r b
    using lock_inv_D(1) [OF inv that] newer(1) by (auto simp: covered_def intro: le_less_trans)
  show ?thesis
    by (rule lock_inv_vote [OF inv]) (use newer old b0 in \<open>auto simp: covered_def intro: less_imp_le\<close>)
next
  case fresh
  have "votes = {}" using lock_inv_D(3) [OF inv fresh(2)] .
  moreover have "lr + 1 > lr"
    using lr(2) by (simp add: word_less_nat_alt unat_word_ariths)
  then have "rd b0 \<le> lr + 1" using lr(1) by (meson less_imp_le order_trans)
  ultimately show ?thesis
    using fresh b0 by (auto simp: lock_inv_def covered_def)
next
  case (same r ref')
  have r: "r = rd b0" using lock_inv_D(2) [OF inv same(2)] same(3) by simp
  have old: "covered lock r1 b1" "r1 < rd b0 \<or> r1 = rd b0 \<and> b1 = b0" if "(r1, b1) \<in> votes" for r1 b1
    using lock_inv_D(1) [OF inv that] same(2,3) r by (auto simp: covered_def)
  show ?thesis
    by (rule lock_inv_vote [OF inv, where ref = ref']) (use same r old in \<open>auto simp: covered_def\<close>)
qed

lemma lock_inv_step:
  assumes "lock_inv rd s" and "lock_step rd s e t"
  shows "lock_inv rd t"
  using assms(2)
proof (cases rule: lock_step.cases)
  case (first_attest lock lr r votes)
  then show ?thesis using assms(1) by (auto simp: lock_inv_def covered_def)
next
  case (attest r lr lock lock' updated votes)
  then show ?thesis
    using assms(1) lock_inv_attest [of rd votes lock "br_block_identifier r" lr r lock' updated] by simp
next
  case (advance lr lock lock' moved votes)
  have "covered lock' r b" if "covered lock r b" for r b
    by (rule covered_step [OF that]) (use advance(4) in \<open>auto simp: advance_lock_def split: if_splits\<close>)
  moreover have "al_locked_block lock' = al_locked_block lock"
    using advance(4) by (auto simp: advance_lock_def split: if_splits)
  ultimately show ?thesis
    using assms(1) advance lock_inv_D(2) by (auto intro!: lock_inv_keep [of rd votes lock lock'])
next
  case (adopt round r nacks lock lock' abandoned votes)
  have new: "al_locked_block lock' = al_locked_block lock \<or> al_locked_block lock' = Some (rd (br_block_identifier r), r)"
    using adopt(4) by (auto simp: adopt_block_simp Let_def split: if_splits)
  have none: "votes = {}" if "al_locked_block lock = None"
    using assms(1) adopt(1) that lock_inv_D(3) by blast
  have cov: "covered lock' r1 b1" if "covered lock r1 b1" for r1 b1
    by (rule covered_step [OF that])
      (use adopt(4) that in \<open>auto simp: covered_def adopt_block_simp Let_def split: if_splits\<close>)
  have "r1 = rd (br_block_identifier ref1)" if "al_locked_block lock' = Some (r1, ref1)" for r1 ref1
    using new that assms(1) adopt(1) lock_inv_D(2) [of rd votes lock r1 ref1] by auto
  then show ?thesis
    using assms(1) adopt(1,3) cov by (auto intro!: lock_inv_keep [of rd votes lock lock'])
qed

interpretation lock_safety: inductive_invariant lock_start "lock_step rd" "lock_inv rd" for rd
proof unfold_locales
  fix s assume "lock_start s"
  then show "lock_inv rd s"
    by (cases s) (auto simp: lock_start_def lock_inv_def split: option.splits)
qed (rule lock_inv_step)


definition example_ref :: "u8 \<Rightarrow> block_ref" where
  "example_ref n = \<lparr>br_block_seq_no = 7, br_block_identifier = [n]\<rparr>"

definition example_lock :: action_lock where
  "example_lock = \<lparr>al_parent_block_producer_selector_data = \<lparr>rng_seed_block_id = [], ps_index = 0\<rparr>,
     al_parent_block = \<lparr>br_block_seq_no = 6, br_block_identifier = [0]\<rparr>,
     al_parent_prefinalization_proof = None, al_locked_round = 2,
     al_locked_block = None, al_locked_bad_block_nacks = []\<rparr>"

definition example_rounds :: "block_identifier \<Rightarrow> u64" where
  "example_rounds b = (if b = [1] then 2 else 4)"

definition example_locked :: "u64 \<Rightarrow> u64 \<Rightarrow> u8 \<Rightarrow> action_lock" where
  "example_locked locked round n =
     example_lock\<lparr>al_locked_block := Some (round, example_ref n), al_locked_round := locked\<rparr>"

lemma example_votes:
  "reach lock_start (lock_step example_rounds) ({(4, [2]), (2, [1])}, Some (example_locked 4 4 2))"
proof -
  have "reach lock_start (lock_step example_rounds) ({}, Some example_lock)"
    by (rule reach_start) (simp add: lock_start_def example_lock_def)
  moreover have "lock_step example_rounds ({}, Some example_lock) (Attest (example_ref 1) 2)
      ({(2, [1])}, Some (example_locked 3 2 1))"
    using attest [of example_rounds "example_ref 1" 2 example_lock "example_locked 3 2 1" True "{}"]
    by (simp add: lock_block_def example_locked_def example_lock_def example_ref_def example_rounds_def)
  moreover have "lock_step example_rounds ({(2, [1])}, Some (example_locked 3 2 1)) (Attest (example_ref 2) 5)
      ({(4, [2]), (2, [1])}, Some (example_locked 4 4 2))"
    using attest [of example_rounds "example_ref 2" 5 "example_locked 3 2 1" "example_locked 4 4 2" True "{(2, [1])}"]
    by (simp add: lock_block_def example_locked_def example_lock_def example_ref_def example_rounds_def)
  ultimately show ?thesis by (blast intro: reach_step)
qed


text \<open>
  With a clock that lags behind the round of the blocks the lock does not protect: the round it
  remembers is computed from the clock, and a second block of the same round is accepted.
\<close>

lemma lagging_clock_attests_twice:
  defines "lock0 \<equiv> example_lock\<lparr>al_locked_round := 5\<rparr>"
  shows "fst (lock_block 5 2 [1] (example_ref 1) lock0) = OkSendAttestation"
    and "fst (lock_block 5 2 [2] (example_ref 2) (fst (snd (lock_block 5 2 [1] (example_ref 1) lock0)))) =
      OkSendAttestation"
    and "al_locked_round (fst (snd (lock_block 5 2 [1] (example_ref 1) lock0))) < al_locked_round lock0"
  by (simp_all add: lock0_def lock_block_def example_lock_def example_ref_def)

section \<open>Durability\<close>

text \<open>The authority of a thread after the node was started again: the store is all that is left.\<close>

definition thread_authority_restart :: "thread_authority \<Rightarrow> thread_authority" where
  "thread_authority_restart ta = ta\<lparr>ta_action_lock := lock_collection_new (lc_stored (ta_action_lock ta)),
     ta_confirmed_bad_block_nacks := [], ta_collecting_next_round := [], ta_closed_round := [],
     ta_block_producers := None\<rparr>"

definition durable :: "lock_collection \<Rightarrow> bool" where
  "durable c = (\<forall>h lock. hm_get (lc_preloaded c) h = Some (Some lock) \<longrightarrow>
     hm_get (lc_stored c) h = Some (Some lock))"

lemma durable_get_mut:
  assumes "durable c" and "lock_get_mut repo h c = (found, c')"
  shows "durable c'" and "found = Some lock \<Longrightarrow> hm_get (lc_preloaded c') h = Some (Some lock)"
  using assms
  by (auto simp: durable_def lock_get_mut_def preload_lock_def lock_remove_def Let_def hm_simps
      split: option.splits if_splits)

lemma durable_save: "durable c \<Longrightarrow> durable (save_lock h (lock_insert h lock c))"
  by (auto simp: durable_def save_lock_def lock_insert_def hm_simps split: if_splits)

lemma durable_keep:
  "durable c \<Longrightarrow> hm_get (lc_preloaded c) h = Some (Some lock) \<Longrightarrow> durable (lock_insert h lock c)"
  by (auto simp: durable_def lock_insert_def hm_simps split: if_splits)

lemma restarted_lock:
  assumes "hm_get (lc_stored c) h = Some (Some lock)" and "al_locked_block lock = Some (r, ref)"
    and "\<not> is_invalidated (repo_get repo (br_block_identifier ref))"
  shows "fst (lock_get repo h (lock_collection_new (lc_stored c))) = Some lock"
  using assms
  by (simp add: lock_get_def lock_collection_new_def preload_lock_def lock_is_active_def Let_def hm_simps)

lemma attestable_InrD:
  assumes "attestable now b ta = Ok (Inr a)"
  shows "bs_block_height (repo_get (ta_repo ta) b) = Some (ac_block_height a)"
    and "bs_block_round (repo_get (ta_repo ta) b) = Some (ac_block_round a)"
    and "br_block_identifier (ac_block_ref a) = bs_block_identifier (repo_get (ta_repo ta) b)"
    and "\<not> is_invalidated (repo_get (ta_repo ta) b)"
  using assms
  by (auto simp: attestable_def block_ref_unwrap_def block_ref_try_from_def Let_def
      split: if_splits option.splits sum.splits)

lemma attestable_Inl:
  assumes "attestable now b ta = Ok (Inl OkSendAttestation)"
  shows "is_finalized (repo_get (ta_repo ta) b) \<or> is_prefinalized (repo_get (ta_repo ta) b)"
  using assms by (auto simp: attestable_def Let_def split: if_splits option.splits)

text \<open>An accepted attestation leaves a durable lock on the block.\<close>

lemma try_lock_accepted:
  assumes dur: "durable (ta_action_lock ta)"
    and acc: "try_lock_send_attestation_action now b ta = Ok (OkSendAttestation, ta')"
    and a: "attestable now b ta = Ok (Inr a)"
    and b: "bs_block_identifier (repo_get (ta_repo ta) b) = b"
  shows "durable (ta_action_lock ta') \<and> (\<exists>lock r ref.
    hm_get (lc_stored (ta_action_lock ta')) (ac_block_height a) = Some (Some lock) \<and>
    al_locked_block lock = Some (r, ref) \<and> br_block_identifier ref = b)"
proof -
  let ?h = "ac_block_height a"
  obtain found c1 where gm: "lock_get_mut (ta_repo ta) ?h (ta_action_lock ta) = (found, c1)" by force
  note d1 = durable_get_mut [OF dur gm]
  have ref: "br_block_identifier (ac_block_ref a) = b" using attestable_InrD(3) [OF a] b by simp
  show ?thesis
  proof (cases found)
    case None
    then obtain selector parent_ref where ta': "ta_action_lock ta' = save_lock ?h
        (lock_insert ?h (first_lock selector parent_ref a (nacks_at (ac_parent_block_id a) ?h ta)) c1)"
      using acc a gm
      by (auto simp: try_lock_send_attestation_action_def Let_def set_locks_def split: option.splits)
    show ?thesis
      using d1(1) ref durable_save [of c1 ?h] by (simp add: ta') (simp add: save_lock_def lock_insert_def first_lock_def hm_simps)
  next
    case (Some lock)
    then obtain lock' updated where
      lb: "lock_block (ac_block_round a) (ac_local_round a) b (ac_block_ref a) lock = (OkSendAttestation, lock', updated)"
      and ta': "ta_action_lock ta' = (if updated then save_lock ?h (lock_insert ?h lock' c1) else lock_insert ?h lock' c1)"
      using acc a gm
      by (auto simp: try_lock_send_attestation_action_def Let_def set_locks_def split: prod.splits)
    have pre: "hm_get (lc_preloaded c1) ?h = Some (Some lock)" using d1(2) Some by simp
    then have st: "hm_get (lc_stored c1) ?h = Some (Some lock)" using d1(1) by (simp add: durable_def)
    from lb ref show ?thesis
    proof (cases rule: lock_block_accepted)
      case (same r ref')
      then show ?thesis
        using durable_keep [OF d1(1) pre] st by (simp add: ta' lock_insert_def)
    qed (use ref durable_save [OF d1(1)] in \<open>auto simp: ta' save_lock_def lock_insert_def hm_simps\<close>)
  qed
qed


definition example_repo :: block_repo where
  "example_repo =
     [([1], (block_state_new [1])\<lparr>bs_block_seq_no := Some 1, bs_descendant_bk_set := Some bk_set_new,
        bs_block_time_ms := Some 100, bs_producer_selector_data := Some \<lparr>rng_seed_block_id = [1], ps_index = 0\<rparr>\<rparr>),
      ([2], (block_state_new [2])\<lparr>bs_block_seq_no := Some 2, bs_parent_block_identifier := Some [1],
        bs_block_height := Some \<lparr>bh_thread_identifier = [0], bh_height = 2\<rparr>, bs_block_round := Some 0\<rparr>)]"

definition example_authority :: thread_authority where
  "example_authority = \<lparr>ta_thread_id = [0], ta_round_buckets = \<lparr>buckets = [], default_bucket = 1000\<rparr>,
     ta_node_identifier = [5], ta_bls_keys_map = [], ta_action_lock = lock_collection_new [],
     ta_confirmed_bad_block_nacks = [], ta_collecting_next_round = [], ta_closed_round = [],
     ta_block_producers = None, ta_repo = example_repo, ta_bp_production_count = 0,
     ta_node_joining_timeout = 0, ta_last_node_joining_sent = 0, ta_shutdown = False\<rparr>"

lemma local_round_zero: "\<exists>r. calculate_round \<lparr>buckets = [], default_bucket = 1000\<rparr> 0 0 = Ok r"
  using calculate_round_loop_correct [of 0 1 "[]" 1000 0 0] by (auto simp: calculate_round_def)

lemma example_attestation:
  "\<exists>ta'. try_lock_send_attestation_action 100 [2] example_authority = Ok (OkSendAttestation, ta')"
proof -
  obtain r where r: "calculate_round \<lparr>buckets = [], default_bucket = 1000\<rparr> 0 0 = Ok r"
    using local_round_zero by blast
  show ?thesis
    by (simp add: try_lock_send_attestation_action_def attestable_def example_authority_def example_repo_def
      repo_get_def hm_get_def Let_def is_finalized_def is_prefinalized_def is_invalidated_def
      has_all_nacks_resolved_def has_bad_block_nacks_resolved_def block_state_new_def local_round_at_def
      bk_set_len_def bk_set_new_def hm_len_def r block_ref_unwrap_def block_ref_try_from_def
      lock_get_mut_def preload_lock_def lock_collection_new_def lock_is_active_def hm_contains_def)
qed


text \<open>A block adopted from another node's round changes the lock in the cache only.\<close>

lemma lock_get_mut_stored: "lock_get_mut repo h c = (found, c') \<Longrightarrow> lc_stored c' = lc_stored c"
  by (auto simp: lock_get_mut_def preload_lock_def lock_remove_def Let_def split: option.splits if_splits)

lemma on_next_round_success_not_saved:
  assumes "on_next_round_success msg ta = Ok ta'"
  shows "lc_stored (ta_action_lock ta') = lc_stored (ta_action_lock ta)"
  using assms
  by (auto simp: on_next_round_success_def Let_def set_locks_def lock_insert_def dest!: lock_get_mut_stored
      split: option.splits if_splits prod.splits)

end
