(* ===== verification/Authority_Switch.thy ===== *)
theory Authority_Switch
  imports Action_Lock
begin

text \<open>
  The protocol that moves block production to the next keeper when the producer is stalled
  (src/node/src/protocol/authority_switch/action_lock.rs, find_last_prefinalized.rs): the request a
  node sends for the next round, and the handling of such requests by the keeper whose turn it is.

  What the operations read besides their own state is collected in \<open>authority_env\<close>: the signature
  schemes, the shuffle of the keepers, the cache of unprocessed blocks, the stored finalized blocks
  and the last finalized block of a thread. The channel to the block producer is open as long as it
  is registered. Deadlines are given relative to the time of the call.
\<close>

record authority_env =
  ae_lock_bls :: "lock_message blst"
  ae_success_bls :: "next_round_success blst"
  ae_attestation_bls :: "attestation_data blst"
  ae_shuffle :: shuffle_fn
  ae_unprocessed :: "block_identifier \<Rightarrow> block_envelope option"
  ae_finalized :: "block_identifier \<Rightarrow> block_envelope option outcome"
  ae_last_finalized :: "thread_identifier \<Rightarrow> (block_identifier \<times> block_seq_no) option outcome"

datatype sent_message =
    SendRequest node_identifier next_round
  | BroadcastNodeJoining node_identifier thread_identifier

section \<open>The last prefinalized block\<close>

fun find_next_loop ::
    "block_repo \<Rightarrow> block_identifier list \<Rightarrow> block_identifier option \<Rightarrow> block_identifier option outcome" where
  "find_next_loop repo [] candidate = Ok candidate"
| "find_next_loop repo (child # children) candidate =
     (let s = repo_get repo child in
      if is_finalized s then Ok (Some child)
      else if is_prefinalized s \<and> \<not> is_invalidated s then
        (if candidate = None then find_next_loop repo children (Some child)
         else Panic ''Somehow we have a situation of more than 1 block prefinalized'')
      else find_next_loop repo children candidate)"

definition find_next_prefinalized ::
    "block_identifier \<Rightarrow> thread_identifier \<Rightarrow> block_repo \<Rightarrow> block_identifier option outcome" where
  "find_next_prefinalized b thread_identifier repo =
     (case known_children thread_identifier (repo_get repo b) of
        None \<Rightarrow> Ok None
      | Some children \<Rightarrow> find_next_loop repo children None)"

text \<open>The descent from a block to the last prefinalized one; \<open>None\<close> when it does not end.\<close>

partial_function (option) descend_prefinalized ::
    "block_repo \<Rightarrow> thread_identifier \<Rightarrow> block_identifier \<Rightarrow> block_identifier outcome option" where
  "descend_prefinalized repo thread_identifier cur =
     (case find_next_prefinalized cur thread_identifier repo of
        Panic e \<Rightarrow> Some (Panic e)
      | Bail e \<Rightarrow> Some (Bail e)
      | Ok None \<Rightarrow> Some (if bs_block_seq_no (repo_get repo cur) = None then Panic ''Must be set'' else Ok cur)
      | Ok (Some nxt) \<Rightarrow> descend_prefinalized repo thread_identifier nxt)"

definition find_last_prefinalized ::
    "authority_env \<Rightarrow> thread_identifier \<Rightarrow> block_repo \<Rightarrow> block_identifier outcome option" where
  "find_last_prefinalized env thread_identifier repo =
     (case ae_last_finalized env thread_identifier of
        Bail e \<Rightarrow> Some (Bail e)
      | Panic e \<Rightarrow> Some (Panic e)
      | Ok (Some (last_id, _)) \<Rightarrow> descend_prefinalized repo thread_identifier last_id
      | Ok None \<Rightarrow>
          (let root = spawning_block_id thread_identifier;
               children = (case known_children thread_identifier (repo_get repo root) of Some c \<Rightarrow> c | None \<Rightarrow> [])
           in if list_ex (\<lambda>child. is_finalized (repo_get repo child)) children
              then Some (Panic ''The assumption above is wrong. needs an investigation'')
              else descend_prefinalized repo thread_identifier root))"

section \<open>Asking for the next round\<close>

record stalled_result =
  sr_next_deadline :: duration
  sr_next_round :: "next_round option"
  sr_block_height :: "block_height option"

definition retry_later :: "block_height option \<Rightarrow> stalled_result" where
  "retry_later h = \<lparr>sr_next_deadline = 30000000, sr_next_round = None, sr_block_height = h\<rparr>"

text \<open>A lock on another parent than the prefinalized one is dropped.\<close>

definition drop_foreign_lock ::
    "block_identifier \<Rightarrow> block_height \<Rightarrow> thread_authority \<Rightarrow> thread_authority" where
  "drop_foreign_lock parent h ta =
     (let (active, c1) = lock_get (ta_repo ta) h (ta_action_lock ta);
          valid = (case active of None \<Rightarrow> False
                   | Some lock \<Rightarrow> br_block_identifier (al_parent_block lock) = parent);
          c2 = (if valid then c1 else lock_remove h c1);
          (_, c3) = lock_get (ta_repo ta) h c2
      in set_locks c3 ta)"

text \<open>What the parent has to provide, and the round of the local clock.\<close>

record round_context =
  rc_bk_set :: block_keeper_set
  rc_parent_prefinalization_proof :: "attestation option"
  rc_local_round :: u64
  rc_round_remaining_time :: duration

definition round_context_of ::
    "u64 \<Rightarrow> block_identifier \<Rightarrow> block_height \<Rightarrow> thread_authority \<Rightarrow> (stalled_result + round_context) outcome" where
  "round_context_of now parent h ta =
     (let p = repo_get (ta_repo ta) parent in
      case bs_descendant_bk_set p of
        None \<Rightarrow> Ok (Inl (retry_later (Some h)))
      | Some bk_set \<Rightarrow>
          (if bs_prefinalization_proof p = None \<and> parent \<noteq> block_identifier_default
           then Panic ''prefinalization_proof must be set''
           else case bs_block_time_ms p of
             None \<Rightarrow> Ok (Inl (retry_later (Some h)))
           | Some parent_block_time \<Rightarrow>
               (if parent_block_time > now then Ok (Inl (retry_later (Some h)))
                else
                  obind (local_round_at (ta_round_buckets ta) now parent_block_time bk_set) (\<lambda>r.
                  if crr_round r = 0
                  then Ok (Inl \<lparr>sr_next_deadline = round_remaining_time r, sr_next_round = None,
                                sr_block_height = Some h\<rparr>)
                  else Ok (Inr \<lparr>rc_bk_set = bk_set,
                                rc_parent_prefinalization_proof = bs_prefinalization_proof p,
                                rc_local_round = of_nat (crr_round r),
                                rc_round_remaining_time = round_remaining_time r\<rparr>)))))"

text \<open>The lock of the height moved to the round, or a new one; \<open>False\<close> when it is already ahead.\<close>

definition lock_for_round ::
    "round_context \<Rightarrow> block_identifier \<Rightarrow> block_height \<Rightarrow> thread_authority \<Rightarrow>
     (action_lock \<times> bool \<times> thread_authority) outcome" where
  "lock_for_round rc parent h ta =
     (let (found, c1) = lock_get_mut (ta_repo ta) h (ta_action_lock ta) in
      case found of
        Some existing \<Rightarrow>
          (let (lock, updated) = advance_lock (rc_local_round rc) existing;
               c2 = lock_insert h lock c1
           in Ok (lock, updated, set_locks (if updated then save_lock h c2 else c2) ta))
      | None \<Rightarrow>
          (let p = repo_get (ta_repo ta) parent in
           obind (expect (bs_producer_selector_data p) ''unwrap'') (\<lambda>selector.
           obind (block_ref_unwrap p) (\<lambda>parent_ref.
           let lock = \<lparr>al_parent_block_producer_selector_data = selector, al_parent_block = parent_ref,
                       al_parent_prefinalization_proof = rc_parent_prefinalization_proof rc,
                       al_locked_round = rc_local_round rc, al_locked_block = None,
                       al_locked_bad_block_nacks = nacks_at parent h ta\<rparr>
           in Ok (lock, True, set_locks (save_lock h (lock_insert h lock c1)) ta)))))"

definition unwrap_outcome :: "'a outcome \<Rightarrow> 'a outcome" where
  "unwrap_outcome x = (case x of Bail e \<Rightarrow> Panic e | _ \<Rightarrow> x)"

definition producers_of_round ::
    "authority_env \<Rightarrow> round_context \<Rightarrow> action_lock \<Rightarrow> (node_identifier \<times> node_identifier) outcome" where
  "producers_of_round env rc lock =
     (let selector = al_parent_block_producer_selector_data lock;
          bk_set = rc_bk_set rc;
          n = unat (rc_local_round rc) in
      obind (move_index selector (n - 1) (bk_set_len bk_set)) (\<lambda>cur_selector.
      obind (unwrap_outcome (get_producer_node_id (ae_shuffle env) cur_selector bk_set)) (\<lambda>cur_producer.
      obind (move_index selector n (bk_set_len bk_set)) (\<lambda>next_selector.
      obind (unwrap_outcome (get_producer_node_id (ae_shuffle env) next_selector bk_set)) (\<lambda>next_producer.
      Ok (cur_producer, next_producer))))))"

text \<open>The locked block with its attestation, and whether the attestation could be locked.\<close>

definition candidate_attestation ::
    "u64 \<Rightarrow> action_lock \<Rightarrow> thread_authority \<Rightarrow>
     (block_identifier option \<times> attestation option \<times> bool \<times> thread_authority) outcome" where
  "candidate_attestation now lock ta =
     (case al_locked_block lock of
        None \<Rightarrow> Ok (None, None, True, ta)
      | Some (_, r) \<Rightarrow>
          (let b = br_block_identifier r;
               s = repo_get (ta_repo ta) b in
           case bs_prefinalization_proof s of
             Some proof \<Rightarrow> Ok (Some b, Some proof, True, ta)
           | None \<Rightarrow>
               obind (try_lock_send_attestation_action now b ta) (\<lambda>(result, ta').
               if result = OkSendAttestation then Ok (Some b, bs_own_attestation s, True, ta')
               else Ok (Some b, None, False, ta'))))"

definition required_fallback_attestations :: "finalization_checkpoints \<Rightarrow> block_identifier list" where
  "required_fallback_attestations c = filter (\<lambda>e. \<not> hm_contains (ckpt_primary c) e) (hm_keys (ckpt_fallback c))"

definition required_primary_attestations :: "finalization_checkpoints \<Rightarrow> block_identifier list" where
  "required_primary_attestations c =
     filter (\<lambda>e. e \<notin> set (required_fallback_attestations c)) (hm_keys (ckpt_primary c))"

text \<open>\<open>None\<close> stands for the early return when an own attestation is missing.\<close>

fun ancestor_attestations ::
    "u64 \<Rightarrow> (block_state \<Rightarrow> attestation option) \<Rightarrow> block_identifier list \<Rightarrow> bool \<Rightarrow> attestation list \<Rightarrow>
     thread_authority \<Rightarrow> ((bool \<times> attestation list) option \<times> thread_authority) outcome" where
  "ancestor_attestations now own [] all_locked acc ta = Ok (Some (all_locked, acc), ta)"
| "ancestor_attestations now own (b # bs) all_locked acc ta =
     obind (try_lock_send_attestation_action now b ta) (\<lambda>(result, ta').
     (case own (repo_get (ta_repo ta) b) of
        None \<Rightarrow> Ok (None, ta')
      | Some a \<Rightarrow>
          ancestor_attestations now own bs (all_locked \<and> result = OkSendAttestation) (acc @ [a]) ta'))"

definition attestations_for_ancestors ::
    "u64 \<Rightarrow> block_identifier \<Rightarrow> block_identifier option \<Rightarrow> thread_authority \<Rightarrow>
     ((bool \<times> attestation list) option \<times> thread_authority) outcome" where
  "attestations_for_ancestors now parent block ta =
     (if block \<noteq> None then Ok (Some (True, []), ta)
      else case bs_ancestor_blocks_finalization_checkpoints (repo_get (ta_repo ta) parent) of
             None \<Rightarrow> Ok (None, ta)
           | Some checkpoints \<Rightarrow>
               obind (ancestor_attestations now bs_own_fallback_attestation
                        (required_fallback_attestations checkpoints) True [] ta) (\<lambda>(r1, ta1).
               (case r1 of
                  None \<Rightarrow> Ok (None, ta1)
                | Some (locked1, acc1) \<Rightarrow>
                    ancestor_attestations now bs_own_attestation
                      (required_primary_attestations checkpoints) locked1 acc1 ta1)))"

text \<open>A node that cannot sign announces that it is joining, at most once per timeout.\<close>

definition announce_joining ::
    "nat \<Rightarrow> block_identifier \<Rightarrow> thread_authority \<Rightarrow> (sent_message list \<times> thread_authority) outcome" where
  "announce_joining instant parent ta =
     (if instant - ta_last_node_joining_sent ta > ta_node_joining_timeout ta then
        obind (expect (bs_thread_identifier (repo_get (ta_repo ta) parent))
                 ''Thread id must be set for parent block'') (\<lambda>thread_id.
        Ok ([BroadcastNodeJoining (ta_node_identifier ta) thread_id], ta\<lparr>ta_last_node_joining_sent := instant\<rparr>))
      else Ok ([], ta))"

definition send_next_round ::
    "authority_env \<Rightarrow> nat \<Rightarrow> round_context \<Rightarrow> action_lock \<Rightarrow> block_identifier \<Rightarrow> block_height \<Rightarrow>
     node_identifier \<times> node_identifier \<Rightarrow> block_identifier option \<Rightarrow> attestation option \<Rightarrow> attestation list \<Rightarrow>
     thread_authority \<Rightarrow> (stalled_result \<times> sent_message list \<times> thread_authority) outcome" where
  "send_next_round env instant rc snapshot parent h producers block attestations ancestors ta =
     (case producers of (cur_producer, next_producer) \<Rightarrow>
      let lock = \<lparr>lm_parent_block = parent, lm_height = h, lm_next_auth_node_id = next_producer,
                  lm_locked_round = al_locked_round snapshot, lm_locked_block = block,
                  lm_nack_bad_block = al_locked_bad_block_nacks snapshot\<rparr>;
          (signed, shutdown) = sealed (ae_lock_bls env) (ta_node_identifier ta) (rc_bk_set rc)
             (ta_bls_keys_map ta) lock (ta_shutdown ta);
          ta1 = ta\<lparr>ta_shutdown := shutdown\<rparr> in
      case signed of
        Panic e \<Rightarrow> Panic e
      | Bail _ \<Rightarrow>
          obind (announce_joining instant parent ta1) (\<lambda>(sent, ta2).
          Ok (retry_later (Some h), sent, ta2))
      | Ok lock_envelope \<Rightarrow>
          (let nr = \<lparr>nr_lock = lock_envelope, nr_locked_block_attestation = attestations,
                     nr_attestations_for_ancestors = ancestors\<rparr>
           in Ok (\<lparr>sr_next_deadline = rc_round_remaining_time rc, sr_next_round = Some nr,
                   sr_block_height = Some h\<rparr>,
                  [SendRequest next_producer nr, SendRequest cur_producer nr], ta1)))"

definition start_next_round ::
    "authority_env \<Rightarrow> u64 \<Rightarrow> nat \<Rightarrow> block_identifier \<Rightarrow> block_height \<Rightarrow> thread_authority \<Rightarrow>
     (stalled_result \<times> sent_message list \<times> thread_authority) outcome" where
  "start_next_round env now instant parent h ta0 =
     (let ta = drop_foreign_lock parent h ta0 in
      obind (round_context_of now parent h ta) (\<lambda>rc.
      case rc of
        Inl result \<Rightarrow> Ok (result, [], ta)
      | Inr rc \<Rightarrow>
          obind (lock_for_round rc parent h ta) (\<lambda>(snapshot, updated, ta1).
          if \<not> updated then
            Ok (\<lparr>sr_next_deadline = rc_round_remaining_time rc, sr_next_round = None,
                 sr_block_height = Some h\<rparr>, [], ta1)
          else
            obind (producers_of_round env rc snapshot) (\<lambda>producers.
            obind (candidate_attestation now snapshot ta1) (\<lambda>(block, attestations, locked, ta2).
            obind (attestations_for_ancestors now parent block ta2) (\<lambda>(ancestors, ta3).
            case ancestors of
              None \<Rightarrow> Ok (retry_later (Some h), [], ta3)
            | Some (locked', ancestor_list) \<Rightarrow>
                (if \<not> (locked \<and> locked') then Ok (retry_later (Some h), [], ta3)
                 else send_next_round env instant rc snapshot parent h producers block attestations
                        ancestor_list ta3)))))))"

definition on_bad_block_nack_confirmed ::
    "authority_env \<Rightarrow> u64 \<Rightarrow> nat \<Rightarrow> block_identifier \<Rightarrow> thread_authority \<Rightarrow>
     (sent_message list \<times> thread_authority) outcome" where
  "on_bad_block_nack_confirmed env now instant b ta =
     (let s = repo_get (ta_repo ta) b in
      case (bs_parent_block_identifier s, bs_block_height s) of
        (Some parent, Some h) \<Rightarrow>
          obind (start_next_round env now instant parent h ta) (\<lambda>(_, sent, ta'). Ok (sent, ta'))
      | _ \<Rightarrow> Panic ''Somehow we got a block confirmed to be malicious yet some of the mandatory state fields missing.'')"

definition on_block_producer_stalled ::
    "authority_env \<Rightarrow> u64 \<Rightarrow> nat \<Rightarrow> thread_authority \<Rightarrow>
     (stalled_result \<times> sent_message list \<times> thread_authority) outcome option" where
  "on_block_producer_stalled env now instant ta =
     (case find_last_prefinalized env (ta_thread_id ta) (ta_repo ta) of
        None \<Rightarrow> None
      | Some (Panic e) \<Rightarrow> Some (Panic e)
      | Some (Bail _) \<Rightarrow> Some (Ok (retry_later None, [], ta))
      | Some (Ok parent) \<Rightarrow>
          Some (obind (expect (bs_block_height (repo_get (ta_repo ta) parent)) ''unwrap'') (\<lambda>parent_height.
                obind (expect (block_height_next parent_height (ta_thread_id ta)) ''attempt to add with overflow'')
                  (\<lambda>h. start_next_round env now instant parent h ta))))"

section \<open>Answering a request for the next round\<close>

datatype incoming_result =
    DoNothing
  | StartingBlockProducer
  | Broadcast "next_round_success envelope"
  | Reject next_round_reject node_identifier
  | RejectTooOldRequest node_identifier

definition ask_get_block :: "authority_env \<Rightarrow> block_identifier \<Rightarrow> block_envelope option outcome" where
  "ask_get_block env b =
     (case ae_unprocessed env b of
        Some block \<Rightarrow> Ok (Some block)
      | None \<Rightarrow> unwrap_outcome (ae_finalized env b))"

text \<open>The keepers of the requested height and the sender, when the request is authentic.\<close>

definition check_request ::
    "authority_env \<Rightarrow> next_round \<Rightarrow> thread_authority \<Rightarrow> (block_keeper_set \<times> node_identifier) option outcome" where
  "check_request env msg ta =
     (case hm_keys (signature_occurrences (nr_lock msg)) of
        [signer_index] \<Rightarrow>
          (let parent = repo_get (ta_repo ta) (lm_parent_block (env_data (nr_lock msg))) in
           if \<not> is_prefinalized parent \<and> \<not> is_finalized parent then Ok None
           else if is_invalidated parent then Ok None
           else if \<not> has_all_nacks_resolved parent then Ok None
           else case bs_descendant_bk_set parent of
             None \<Rightarrow> Ok None
           | Some bk_set \<Rightarrow>
               (case verify_signatures (ae_lock_bls env) (nr_lock msg) (get_pubkeys_by_signers bk_set) of
                  Panic e \<Rightarrow> Panic e
                | Bail _ \<Rightarrow> Ok None
                | Ok False \<Rightarrow> Ok None
                | Ok True \<Rightarrow>
                    Ok (map_option (\<lambda>data. (bk_set, bk_node_id data)) (get_by_signer bk_set signer_index))))
      | _ \<Rightarrow> Ok None)"

text \<open>The answer when a block of the height is prefinalized already.\<close>

definition reject_with ::
    "authority_env \<Rightarrow> thread_identifier \<Rightarrow> node_identifier \<Rightarrow> block_identifier \<Rightarrow> thread_authority \<Rightarrow> incoming_result outcome" where
  "reject_with env thread_identifier node_id prefinalized ta =
     (let s = repo_get (ta_repo ta) prefinalized;
          unavailable = (if is_finalized s then RejectTooOldRequest node_id else DoNothing) in
      obind (ask_get_block env prefinalized) (\<lambda>available.
      case available of
        None \<Rightarrow> Ok unavailable
      | Some _ \<Rightarrow>
          (let found = (case ae_unprocessed env prefinalized of
                          Some block \<Rightarrow> Some block
                        | None \<Rightarrow> (case ae_finalized env prefinalized of Ok (Some block) \<Rightarrow> Some block | _ \<Rightarrow> None))
           in case found of
                None \<Rightarrow> Ok unavailable
              | Some block \<Rightarrow>
                  obind (expect (bs_prefinalization_proof s) ''unwrap'') (\<lambda>proof.
                  Ok (Reject \<lparr>rj_thread_identifier = thread_identifier, rj_prefinalized_block = block,
                              rj_proof_of_prefinalization = proof\<rparr> node_id)))))"

definition round_key_of :: "lock_message \<Rightarrow> siblings_block_height_key \<times> u64" where
  "round_key_of lock =
     (\<lparr>sk_parent_block_identifier = lm_parent_block lock, sk_height = lm_height lock\<rparr>, lm_locked_round lock)"

text \<open>Whether the request is stale, or its round is closed, or it is meant for another node.\<close>

definition request_is_refused :: "lock_message \<Rightarrow> action_lock option \<Rightarrow> thread_authority \<Rightarrow> bool" where
  "request_is_refused lock current_lock ta =
     ((case current_lock of None \<Rightarrow> False | Some l \<Rightarrow> al_locked_round l > lm_locked_round lock) \<or>
      (case hm_get (ta_closed_round ta) (fst (round_key_of lock)) of
         None \<Rightarrow> False | Some closed_round \<Rightarrow> closed_round \<ge> lm_locked_round lock) \<or>
      lm_next_auth_node_id lock \<noteq> ta_node_identifier ta)"

definition collect_request :: "next_round \<Rightarrow> thread_authority \<Rightarrow> thread_authority" where
  "collect_request msg ta =
     ta\<lparr>ta_collecting_next_round :=
        hm_modify_or_insert (round_key_of (env_data (nr_lock msg))) (\<lambda>requests. requests @ [msg]) [msg]
          (ta_collecting_next_round ta)\<rparr>"

fun collect_voters ::
    "next_round list \<Rightarrow> signer_index set \<Rightarrow> attestation list \<Rightarrow> signer_index set \<times> attestation list" where
  "collect_voters [] voters attestations = (voters, attestations)"
| "collect_voters (e # es) voters attestations =
     (let signatures = set (hm_keys (signature_occurrences (nr_lock e))) in
      if signatures \<subseteq> voters then collect_voters es voters attestations
      else collect_voters es (voters \<union> signatures)
             (case nr_locked_block_attestation e of None \<Rightarrow> attestations | Some a \<Rightarrow> attestations @ [a]))"

definition votes_target :: "nat \<Rightarrow> nat" where
  "votes_target n = div_ceil (n + 1) 2"

text \<open>The locked block of the highest round the node can load, and the requests without a block.\<close>

fun max_locked ::
    "authority_env \<Rightarrow> next_round list \<Rightarrow> (u64 \<times> block_envelope) option \<Rightarrow> nat \<Rightarrow>
     ((u64 \<times> block_envelope) option \<times> nat) outcome" where
  "max_locked env [] best none_count = Ok (best, none_count)"
| "max_locked env (e # es) best none_count =
     (case lm_locked_block (env_data (nr_lock e)) of
        None \<Rightarrow> max_locked env es best (none_count + 1)
      | Some b \<Rightarrow>
          obind (ask_get_block env b) (\<lambda>found.
          case found of
            None \<Rightarrow> max_locked env es best none_count
          | Some block \<Rightarrow>
              (let block_round = cs_round (ab_common_section (env_data block)) in
               max_locked env es
                 (case best of
                    Some (r, _) \<Rightarrow> (if block_round > r then Some (block_round, block) else best)
                  | None \<Rightarrow> Some (block_round, block)) none_count)))"

fun aggregate_attestations ::
    "attestation_data blst \<Rightarrow> attestation_data \<Rightarrow> attestation list \<Rightarrow> attestation option \<Rightarrow> attestation option outcome" where
  "aggregate_attestations bls data [] acc = Ok acc"
| "aggregate_attestations bls data (a # as) acc =
     (if env_data a \<noteq> data then aggregate_attestations bls data as acc
      else case acc of
        None \<Rightarrow> aggregate_attestations bls data as (Some a)
      | Some agg \<Rightarrow>
          obind (add_occurrences (signature_occurrences a) (signature_occurrences agg)) (\<lambda>occ.
          obind (unwrap_outcome (bls_merge bls (aggregated_signature agg) (aggregated_signature a))) (\<lambda>sig.
          aggregate_attestations bls data as (Some (envelope_create sig occ data)))))"

text \<open>
  The shutdown flag can be set once; a missing secret sets it in \<open>sealed\<close> and again here.
\<close>

definition broadcast_success ::
    "authority_env \<Rightarrow> block_keeper_set \<Rightarrow> next_round_success \<Rightarrow> thread_authority \<Rightarrow>
     (incoming_result \<times> thread_authority) outcome" where
  "broadcast_success env bk_set success ta =
     (let (signed, shutdown) = sealed (ae_success_bls env) (ta_node_identifier ta) bk_set
        (ta_bls_keys_map ta) success (ta_shutdown ta) in
      case signed of
        Panic e \<Rightarrow> Panic e
      | Bail _ \<Rightarrow>
          (if shutdown then Panic ''SHUTDOWN_FLAG'' else Ok (DoNothing, ta\<lparr>ta_shutdown := True\<rparr>))
      | Ok envelope \<Rightarrow> Ok (Broadcast envelope, ta\<lparr>ta_shutdown := shutdown\<rparr>))"

text \<open>A quorum with a locked block: it is sent again with the attestations collected for it.\<close>

definition resend_locked_block ::
    "authority_env \<Rightarrow> block_keeper_set \<Rightarrow> lock_message \<Rightarrow> block_envelope \<Rightarrow> attestation list \<Rightarrow> thread_authority \<Rightarrow>
     (incoming_result \<times> thread_authority) outcome" where
  "resend_locked_block env bk_set lock block collected ta =
     (let data = env_data block;
          s = repo_get (ta_repo ta) (ab_identifier data) in
      if \<not> has_all_nacks_resolved s \<or> is_invalidated s then Ok (DoNothing, ta)
      else
        obind (expect (bs_envelope_hash s) ''unwrap'') (\<lambda>hash.
        obind (aggregate_attestations (ae_attestation_bls env)
                 \<lparr>ad_parent_block_id = ab_parent data, ad_block_id = ab_identifier data,
                  ad_block_seq_no = ab_seq_no data, ad_envelope_hash = hash, ad_target_type = Primary\<rparr>
                 collected None) (\<lambda>aggregated.
        broadcast_success env bk_set
          \<lparr>ns_node_identifier = ta_node_identifier ta, ns_round = lm_locked_round lock,
           ns_block_height = lm_height lock, ns_proposed_block = Some block,
           ns_attestations_aggregated = aggregated, ns_requests_aggregated = []\<rparr> ta)))"

fun load_nacked :: "authority_env \<Rightarrow> block_identifier list \<Rightarrow> block_envelope list outcome" where
  "load_nacked env [] = Ok []"
| "load_nacked env (b # bs) =
     (let found = (case ae_unprocessed env b of
                     Some block \<Rightarrow> Some block
                   | None \<Rightarrow> (case ae_finalized env b of Ok (Some block) \<Rightarrow> Some block | _ \<Rightarrow> None))
      in obind (expect found ''must have a block. collected rounds can not have an unknown block. checked above.'')
           (\<lambda>block. obind (load_nacked env bs) (\<lambda>blocks. Ok (block # blocks))))"

text \<open>A quorum without a block: this node starts to produce, when enough of the round is left.\<close>

definition start_producer ::
    "authority_env \<Rightarrow> u64 \<Rightarrow> block_keeper_set \<Rightarrow> lock_message \<Rightarrow> block_identifier list \<Rightarrow> thread_authority \<Rightarrow>
     (incoming_result \<times> thread_authority) outcome" where
  "start_producer env now bk_set lock nacked ta =
     (let parent_id = lm_parent_block lock;
          parent = repo_get (ta_repo ta) parent_id;
          round = lm_locked_round lock in
      case bs_block_time_ms parent of
        None \<Rightarrow> Ok (DoNothing, ta)
      | Some parent_block_time \<Rightarrow>
          (if parent_block_time > now then Ok (DoNothing, ta)
           else
             obind (local_round_at (ta_round_buckets ta) now parent_block_time bk_set) (\<lambda>r.
             if of_nat (crr_round r) > round \<or> round_remaining_time r < 330000000 then Ok (DoNothing, ta)
             else
               obind (expect (ta_block_producers ta)
                        ''must have producer service for this thread registered already'') (\<lambda>commands.
               obind (expect (bs_block_seq_no parent) ''unwrap'') (\<lambda>seq_no.
               obind (load_nacked env nacked) (\<lambda>blocks.
               Ok (StartingBlockProducer,
                   ta\<lparr>ta_block_producers := Some (commands @
                     [\<lparr>sp_thread_identifier = bh_thread_identifier (lm_height lock),
                       sp_parent_block_identifier = parent_id, sp_parent_block_seq_no = seq_no,
                       sp_round = round, sp_nacked_blocks_bad_block = blocks,
                       sp_proof_of_valid_start = []\<rparr>])\<rparr>)))))))"

text \<open>\<open>as i32\<close> keeps the low 32 bits.\<close>

definition round_generation :: "u64 \<Rightarrow> nat \<Rightarrow> int outcome" where
  "round_generation round n =
     (if n = 0 then Panic ''attempt to divide by zero''
      else Ok (sint (of_nat (div_ceil (unat round) n) :: u32)))"

definition answer_round ::
    "authority_env \<Rightarrow> u64 \<Rightarrow> next_round \<Rightarrow> block_keeper_set \<Rightarrow> thread_authority \<Rightarrow>
     (incoming_result \<times> thread_authority) outcome" where
  "answer_round env now msg bk_set ta =
     (let lock = env_data (nr_lock msg);
          nacked = nacks_at (lm_parent_block lock) (lm_height lock) ta;
          requests = filter (\<lambda>e. set (lm_nack_bad_block (env_data (nr_lock e))) = set nacked)
            (case hm_get (ta_collecting_next_round ta) (round_key_of lock) of Some es \<Rightarrow> es | None \<Rightarrow> []);
          (voters, attestations) = collect_voters requests {} [];
          target = votes_target (bk_set_len bk_set) in
      if card voters < target then Ok (DoNothing, ta)
      else
        obind (max_locked env requests None 0) (\<lambda>(best, none_count).
        if best = None \<and> none_count < target then Ok (DoNothing, ta)
        else
          obind (round_generation (lm_locked_round lock) (bk_set_len bk_set)) (\<lambda>generation.
          if generation \<le> ta_bp_production_count ta then Ok (DoNothing, ta)
          else
            (let ta' = ta\<lparr>ta_closed_round :=
               hm_insert (fst (round_key_of lock)) (lm_locked_round lock) (ta_closed_round ta)\<rparr> in
             case best of
               Some (_, block) \<Rightarrow> resend_locked_block env bk_set lock block attestations ta'
             | None \<Rightarrow> start_producer env now bk_set lock nacked ta'))))"

definition on_next_round_incoming_request ::
    "authority_env \<Rightarrow> u64 \<Rightarrow> next_round \<Rightarrow> thread_authority \<Rightarrow> (incoming_result \<times> thread_authority) outcome" where
  "on_next_round_incoming_request env now msg ta =
     obind (check_request env msg ta) (\<lambda>checked.
     case checked of
       None \<Rightarrow> Ok (DoNothing, ta)
     | Some (bk_set, node_id) \<Rightarrow>
         (let lock = env_data (nr_lock msg);
              thread_identifier = bh_thread_identifier (lm_height lock) in
          obind (find_next_prefinalized (lm_parent_block lock) thread_identifier (ta_repo ta)) (\<lambda>prefinalized.
          case prefinalized of
            Some b \<Rightarrow> obind (reject_with env thread_identifier node_id b ta) (\<lambda>r. Ok (r, ta))
          | None \<Rightarrow>
              (let (current_lock, c1) = lock_get (ta_repo ta) (lm_height lock) (ta_action_lock ta);
                   ta1 = set_locks c1 ta in
               if request_is_refused lock current_lock ta1 then Ok (DoNothing, ta1)
               else answer_round env now msg bk_set (collect_request msg ta1)))))"

section \<open>Quorums\<close>

lemma votes_target_half: "votes_target n = n div 2 + 1"
  unfolding votes_target_def by (rule div_ceil_half)

interpretation votes: majority votes_target
  by unfold_locales (simp add: votes_target_half)

definition request_signers :: "next_round \<Rightarrow> signer_index set" where
  "request_signers e = set (hm_keys (signature_occurrences (nr_lock e)))"

lemma collect_voters_fst:
  "fst (collect_voters es voters attestations) = voters \<union> (\<Union>e \<in> set es. request_signers e)"
  by (induction es voters attestations rule: collect_voters.induct)
    (auto simp: Let_def request_signers_def)

text \<open>Every collected request is filed under its own round and signed by one keeper of the height.\<close>

definition request_ok :: "block_repo \<Rightarrow> siblings_block_height_key \<times> u64 \<Rightarrow> next_round \<Rightarrow> bool" where
  "request_ok repo key e = (round_key_of (env_data (nr_lock e)) = key \<and>
     (\<exists>bk_set. bs_descendant_bk_set (repo_get repo (sk_parent_block_identifier (fst key))) = Some bk_set \<and>
       request_signers e \<subseteq> dom (get_by_signer bk_set)))"

definition requests_ok :: "thread_authority \<Rightarrow> bool" where
  "requests_ok ta = (\<forall>(key, es) \<in> set (ta_collecting_next_round ta). \<forall>e \<in> set es. request_ok (ta_repo ta) key e)"

definition keepers :: "block_keeper_set \<Rightarrow> signer_index set" where
  "keepers bk_set = dom (get_by_signer bk_set)"

lemma requests_ok_cong:
  "ta_collecting_next_round ta' = ta_collecting_next_round ta \<Longrightarrow> ta_repo ta' = ta_repo ta \<Longrightarrow>
   requests_ok ta' = requests_ok ta"
  by (simp add: requests_ok_def)

lemma requests_ok_get:
  assumes "requests_ok ta" and "hm_get (ta_collecting_next_round ta) key = Some es" and "e \<in> set es"
  shows "request_ok (ta_repo ta) key e"
  using assms hm_get_SomeD [OF assms(2)] by (auto simp: requests_ok_def)

lemma check_request_ok:
  assumes "check_request env msg ta = Ok (Some (bk_set, node_id))"
  shows "request_ok (ta_repo ta) (round_key_of (env_data (nr_lock msg))) msg"
    and "bs_descendant_bk_set (repo_get (ta_repo ta) (lm_parent_block (env_data (nr_lock msg)))) = Some bk_set"
  using assms
  by (auto simp: check_request_def request_ok_def request_signers_def round_key_of_def Let_def
      simp del: hm_keys_set split: list.splits option.splits if_splits outcome.splits bool.splits)

lemma requests_ok_collect:
  assumes "requests_ok ta" and "request_ok (ta_repo ta) (round_key_of (env_data (nr_lock msg))) msg"
  shows "requests_ok (collect_request msg ta)"
proof -
  let ?k = "round_key_of (env_data (nr_lock msg))" and ?m = "ta_collecting_next_round ta"
  define es where "es = (case hm_get ?m ?k of None \<Rightarrow> [msg] | Some es \<Rightarrow> es @ [msg])"
  have "request_ok (ta_repo ta) ?k e" if "e \<in> set es" for e
    using that assms requests_ok_get [OF assms(1), of ?k _ e]
    by (auto simp: es_def split: option.splits)
  moreover have "set (hm_modify_or_insert ?k (\<lambda>r. r @ [msg]) [msg] ?m) \<subseteq> insert (?k, es) (set ?m)"
    unfolding hm_modify_or_insert_def es_def by (rule set_hm_insert)
  ultimately show ?thesis
    using assms(1) by (fastforce simp: requests_ok_def collect_request_def)
qed

lemma broadcast_keeps:
  assumes "broadcast_success env bk_set success ta = Ok (r, ta')"
  shows "ta_collecting_next_round ta' = ta_collecting_next_round ta" "ta_repo ta' = ta_repo ta"
    "ta_closed_round ta' = ta_closed_round ta"
  using assms by (auto simp: broadcast_success_def Let_def split: if_splits outcome.splits prod.splits)

lemma resend_keeps:
  assumes "resend_locked_block env bk_set lock block as ta = Ok (r, ta')"
  shows "ta_collecting_next_round ta' = ta_collecting_next_round ta" "ta_repo ta' = ta_repo ta"
    "ta_closed_round ta' = ta_closed_round ta"
  using assms by (auto simp: resend_locked_block_def Let_def dest: broadcast_keeps split: if_splits)

lemma start_producer_keeps:
  assumes "start_producer env now bk_set lock nacked ta = Ok (r, ta')"
  shows "ta_collecting_next_round ta' = ta_collecting_next_round ta" "ta_repo ta' = ta_repo ta"
    "ta_closed_round ta' = ta_closed_round ta"
  using assms by (auto simp: start_producer_def Let_def split: if_splits option.splits)

definition answered :: "incoming_result \<Rightarrow> bool" where
  "answered r = (case r of Broadcast _ \<Rightarrow> True | StartingBlockProducer \<Rightarrow> True | _ \<Rightarrow> False)"

definition collected_requests :: "thread_authority \<Rightarrow> lock_message \<Rightarrow> next_round list" where
  "collected_requests ta lock =
     (case hm_get (ta_collecting_next_round ta) (round_key_of lock) of Some es \<Rightarrow> es | None \<Rightarrow> [])"

lemma answer_round_keeps:
  assumes "answer_round env now msg bk_set ta = Ok (r, ta')"
  shows "ta_collecting_next_round ta' = ta_collecting_next_round ta \<and> ta_repo ta' = ta_repo ta"
  using assms
  by (auto simp: answer_round_def Let_def dest: resend_keeps start_producer_keeps
      split: if_splits option.splits prod.splits)

lemma answer_round_answered:
  assumes "answer_round env now msg bk_set ta = Ok (r, ta')" and "answered r"
  shows "\<exists>requests. set requests \<subseteq> set (collected_requests ta (env_data (nr_lock msg))) \<and>
      votes_target (bk_set_len bk_set) \<le> card (\<Union>e \<in> set requests. request_signers e) \<and>
      hm_get (ta_closed_round ta') (fst (round_key_of (env_data (nr_lock msg)))) =
        Some (lm_locked_round (env_data (nr_lock msg)))"
proof -
  let ?lock = "env_data (nr_lock msg)"
  let ?nacked = "nacks_at (lm_parent_block ?lock) (lm_height ?lock) ta"
  define requests where "requests =
    filter (\<lambda>e. set (lm_nack_bad_block (env_data (nr_lock e))) = set ?nacked) (collected_requests ta ?lock)"
  have voters: "fst (collect_voters requests {} []) = (\<Union>e \<in> set requests. request_signers e)"
    by (simp add: collect_voters_fst)
  have quorum: "votes_target (bk_set_len bk_set) \<le> card (\<Union>e \<in> set requests. request_signers e)"
    using assms voters unfolding answer_round_def Let_def requests_def [symmetric] collected_requests_def [symmetric]
    by (auto simp: answered_def not_less split: prod.splits if_splits)
  have closed: "hm_get (ta_closed_round ta') (fst (round_key_of ?lock)) = Some (lm_locked_round ?lock)"
    using assms
    by (auto simp: answer_round_def Let_def answered_def hm_simps dest!: resend_keeps(3) start_producer_keeps(3)
        split: if_splits option.splits prod.splits)
  show ?thesis
    using quorum closed by (intro exI [of _ requests]) (auto simp: requests_def)
qed

lemma requests_ok_set_locks [simp]:
  "requests_ok (set_locks c ta) = requests_ok ta" "ta_repo (set_locks c ta) = ta_repo ta"
  by (simp_all add: requests_ok_def set_locks_def)

text \<open>Where an answer can come from.\<close>

lemma incoming_answeredE:
  assumes "on_next_round_incoming_request env now msg ta = Ok (r, ta')" and "answered r"
  obtains bk_set node_id c1 current_lock where "check_request env msg ta = Ok (Some (bk_set, node_id))"
    "\<not> request_is_refused (env_data (nr_lock msg)) current_lock (set_locks c1 ta)"
    "answer_round env now msg bk_set (collect_request msg (set_locks c1 ta)) = Ok (r, ta')"
proof -
  obtain checked where c: "check_request env msg ta = Ok checked"
    using assms(1) by (auto simp: on_next_round_incoming_request_def)
  obtain bk_set node_id where k: "checked = Some (bk_set, node_id)"
    using assms c by (cases checked) (auto simp: on_next_round_incoming_request_def answered_def)
  obtain p where p: "find_next_prefinalized (lm_parent_block (env_data (nr_lock msg)))
      (bh_thread_identifier (lm_height (env_data (nr_lock msg)))) (ta_repo ta) = Ok p"
    using assms(1) c k by (auto simp: on_next_round_incoming_request_def Let_def)
  have "p = None"
    using assms c k p
    by (cases p) (auto simp: on_next_round_incoming_request_def Let_def reject_with_def answered_def
        split: option.splits if_splits)
  then show thesis
    using that assms c k p
    by (auto simp: on_next_round_incoming_request_def Let_def answered_def split: prod.splits if_splits)
qed

lemma answered_quorum:
  assumes "on_next_round_incoming_request env now msg ta = Ok (r, ta')" and "answered r" and "requests_ok ta"
  defines "lock \<equiv> env_data (nr_lock msg)"
  shows "\<exists>bk_set voters.
    bs_descendant_bk_set (repo_get (ta_repo ta) (lm_parent_block lock)) = Some bk_set \<and>
    voters \<subseteq> keepers bk_set \<and> votes_target (bk_set_len bk_set) \<le> card voters \<and>
    (\<forall>i \<in> voters. \<exists>e. i \<in> request_signers e \<and> round_key_of (env_data (nr_lock e)) = round_key_of lock)"
    and "hm_get (ta_closed_round ta') (fst (round_key_of lock)) = Some (lm_locked_round lock)"
    and "hm_get (ta_closed_round ta) (fst (round_key_of lock)) = Some closed \<Longrightarrow> closed < lm_locked_round lock"
    and "requests_ok ta'"
proof -
  obtain bk_set node_id c1 current_lock where c: "check_request env msg ta = Ok (Some (bk_set, node_id))"
    and nref: "\<not> request_is_refused (env_data (nr_lock msg)) current_lock (set_locks c1 ta)"
    and ans: "answer_round env now msg bk_set (collect_request msg (set_locks c1 ta)) = Ok (r, ta')"
    using assms(1,2) by (rule incoming_answeredE)
  let ?ta1 = "collect_request msg (set_locks c1 ta)"
  note ck = check_request_ok [OF c]
  have ok1: "requests_ok ?ta1"
    using assms(3) ck(1) by (intro requests_ok_collect) simp_all
  have repo1: "ta_repo ?ta1 = ta_repo ta" by (simp add: collect_request_def set_locks_def)
  obtain requests where req: "set requests \<subseteq> set (collected_requests ?ta1 lock)"
    "votes_target (bk_set_len bk_set) \<le> card (\<Union>e \<in> set requests. request_signers e)"
    "hm_get (ta_closed_round ta') (fst (round_key_of lock)) = Some (lm_locked_round lock)"
    using answer_round_answered [OF ans assms(2)] unfolding lock_def by blast
  have each: "request_ok (ta_repo ta) (round_key_of lock) e" if "e \<in> set requests" for e
    using that req(1) requests_ok_get [OF ok1, of "round_key_of lock" _ e] repo1
    by (cases "hm_get (ta_collecting_next_round ?ta1) (round_key_of lock)") (auto simp: collected_requests_def)
  have "request_signers e \<subseteq> keepers bk_set \<and> round_key_of (env_data (nr_lock e)) = round_key_of lock"
    if "e \<in> set requests" for e
    using each [OF that] ck(2) by (auto simp: request_ok_def keepers_def round_key_of_def lock_def)
  then show "\<exists>bk_set voters.
      bs_descendant_bk_set (repo_get (ta_repo ta) (lm_parent_block lock)) = Some bk_set \<and>
      voters \<subseteq> keepers bk_set \<and> votes_target (bk_set_len bk_set) \<le> card voters \<and>
      (\<forall>i \<in> voters. \<exists>e. i \<in> request_signers e \<and> round_key_of (env_data (nr_lock e)) = round_key_of lock)"
    using req(2) ck(2)
    by (intro exI [of _ bk_set] exI [of _ "\<Union>e \<in> set requests. request_signers e"]) (auto simp: lock_def)
  show "hm_get (ta_closed_round ta') (fst (round_key_of lock)) = Some (lm_locked_round lock)" by (rule req(3))
  show "closed < lm_locked_round lock"
    if "hm_get (ta_closed_round ta) (fst (round_key_of lock)) = Some closed"
    using nref that by (auto simp: request_is_refused_def lock_def set_locks_def not_le)
  show "requests_ok ta'"
    using ok1 answer_round_keeps [OF ans] requests_ok_cong by metis
qed



section \<open>An answered round\<close>

text \<open>One keeper, whose signature the scheme accepts, asks for round 1 on a finalized parent.\<close>

definition accepting_bls :: "'d blst" where
  "accepting_bls = \<lparr>blst_sign = (\<lambda>_ _. []), blst_aggregate_keys = (\<lambda>_. Some []), blst_verify = (\<lambda>_ _ _. True),
     blst_aggregate_sigs = (\<lambda>_. Some []), blst_add_signature = (\<lambda>_ _. Some []), bincode_serialize = (\<lambda>_. Some [])\<rparr>"

definition example_env :: authority_env where
  "example_env = \<lparr>ae_lock_bls = accepting_bls, ae_success_bls = accepting_bls, ae_attestation_bls = accepting_bls,
     ae_shuffle = (\<lambda>_ nodes. nodes), ae_unprocessed = (\<lambda>_. None), ae_finalized = (\<lambda>_. Ok None),
     ae_last_finalized = (\<lambda>_. Ok None)\<rparr>"

definition one_keeper :: block_keeper_set where
  "one_keeper = bk_set_insert 1 (example_keeper 1 10) bk_set_new"

definition asking_repo :: block_repo where
  "asking_repo = [([1], (block_state_new [1])\<lparr>bs_block_seq_no := Some 1, bs_finalized := Some True,
     bs_descendant_bk_set := Some one_keeper, bs_block_time_ms := Some 100\<rparr>)]"

definition asking_authority :: thread_authority where
  "asking_authority = example_authority\<lparr>ta_repo := asking_repo, ta_block_producers := Some [],
     ta_round_buckets := \<lparr>buckets = [], default_bucket = 1000000000\<rparr>\<rparr>"

definition example_request :: next_round where
  "example_request = \<lparr>nr_lock = envelope_create [] [(1, 1)]
       \<lparr>lm_parent_block = [1], lm_height = \<lparr>bh_thread_identifier = [0], bh_height = 2\<rparr>,
        lm_next_auth_node_id = [5], lm_locked_round = 1, lm_locked_block = None, lm_nack_bad_block = []\<rparr>,
     nr_locked_block_attestation = None, nr_attestations_for_ancestors = []\<rparr>"

lemma asking_parent:
  "repo_get asking_repo [1] = (block_state_new [1])\<lparr>bs_block_seq_no := Some 1, bs_finalized := Some True,
     bs_descendant_bk_set := Some one_keeper, bs_block_time_ms := Some 100\<rparr>"
  by (simp add: asking_repo_def repo_get_def hm_get_def)

lemma one_keeper_facts:
  "get_by_signer one_keeper 1 = Some (example_keeper 1 10)" "bk_set_len one_keeper = 1"
  "hm_get (get_pubkeys_by_signers one_keeper) 1 = Some (bk_pubkey (example_keeper 1 10))"
  "bk_keys_ok one_keeper"
  by (simp_all add: one_keeper_def get_by_signer_def bk_set_len_def get_pubkeys_by_signers_def
      bk_set_insert_def bk_set_new_def hm_insert_def hm_len_def hm_get_def Let_def bk_keys_ok_def hm_wf_def)

lemma example_request_checked:
  "check_request example_env example_request asking_authority = Ok (Some (one_keeper, bk_node_id (example_keeper 1 10)))"
  by (simp add: check_request_def example_request_def envelope_create_def hm_keys_def asking_authority_def
      asking_parent is_prefinalized_def is_finalized_def is_invalidated_def has_all_nacks_resolved_def
      has_bad_block_nacks_resolved_def block_state_new_def Let_def verify_signatures_def bls_verify_def
      example_env_def accepting_bls_def one_keeper_facts)

lemma example_round:
  "local_round_at \<lparr>buckets = [], default_bucket = 1000000000\<rparr> 500 100 one_keeper =
     Ok \<lparr>crr_round = 0, round_remaining_time = 400000000\<rparr>"
proof -
  obtain k e where ke: "calculate_round_loop 1000000000 1 [] 400000000 0 = Ok \<lparr>crr_round = 0 + k, round_remaining_time = e\<rparr>"
    "round_start [] 1000000000 1 k + e = 400000000" "e < round_length [] 1000000000 1 k"
    using calculate_round_loop_correct [of 1 1000 "[]" 1000000000 400000000 0] by auto
  have "k = 0" using ke(2) by (cases k) (simp_all add: round_start_Nil)
  then show ?thesis
    using ke by (simp add: local_round_at_def one_keeper_facts calculate_round_def round_start_Nil)
qed

lemma example_answer:
  "\<exists>ta'. answer_round example_env 500 example_request one_keeper (collect_request example_request asking_authority) =
     Ok (StartingBlockProducer, ta')"
proof -
  let ?lock = "env_data (nr_lock example_request)" and ?ta = "collect_request example_request asking_authority"
  have req: "hm_get (ta_collecting_next_round ?ta) (round_key_of ?lock) = Some [example_request]"
    by (simp add: collect_request_def asking_authority_def example_authority_def hm_simps)
  have nacked: "nacks_at (lm_parent_block ?lock) (lm_height ?lock) ?ta = []"
    by (simp add: nacks_at_def collect_request_def asking_authority_def example_authority_def)
  have own: "lm_nack_bad_block ?lock = []" "lm_locked_block ?lock = None" "lm_locked_round ?lock = 1"
    "lm_parent_block ?lock = [1]" "hm_keys (signature_occurrences (nr_lock example_request)) = [1]"
    "nr_locked_block_attestation example_request = None"
    by (simp_all add: example_request_def envelope_create_def hm_keys_def)
  have voters: "collect_voters [example_request] {} [] = ({1}, [])"
    by (simp add: own Let_def del: hm_keys_set)
  have gen: "round_generation 1 (Suc 0) = Ok 1"
    by (simp add: round_generation_def div_ceil_def)
  have "\<exists>ta''. start_producer example_env 500 one_keeper ?lock [] (?ta\<lparr>ta_closed_round :=
      hm_insert (fst (round_key_of ?lock)) (lm_locked_round ?lock) (ta_closed_round ?ta)\<rparr>) = Ok (StartingBlockProducer, ta'')"
    by (simp add: start_producer_def Let_def own collect_request_def asking_authority_def asking_parent
        example_authority_def block_state_new_def example_round)
  moreover have "ta_bp_production_count ?ta = 0"
    by (simp add: collect_request_def asking_authority_def example_authority_def)
  ultimately show ?thesis
    unfolding answer_round_def Let_def req nacked
    by (simp add: own voters gen one_keeper_facts votes_target_half del: collect_voters.simps)
qed

lemma example_answered:
  "\<exists>ta'. on_next_round_incoming_request example_env 500 example_request asking_authority = Ok (StartingBlockProducer, ta')"
proof -
  let ?lock = "env_data (nr_lock example_request)"
  have "find_next_prefinalized (lm_parent_block ?lock) t (ta_repo asking_authority) = Ok None" for t
    by (simp add: find_next_prefinalized_def example_request_def envelope_create_def asking_authority_def
        asking_parent known_children_def block_state_new_def)
  moreover have "lock_get (ta_repo asking_authority) h (ta_action_lock asking_authority) = (None, ta_action_lock asking_authority)" for h
    by (simp add: lock_get_def asking_authority_def example_authority_def preload_lock_def lock_collection_new_def
        lock_is_active_def hm_contains_def Let_def)
  moreover have "set_locks (ta_action_lock asking_authority) asking_authority = asking_authority"
    by (simp add: set_locks_def)
  moreover have "\<not> request_is_refused ?lock None asking_authority"
    by (simp add: request_is_refused_def example_request_def envelope_create_def asking_authority_def example_authority_def)
  ultimately show ?thesis
    using example_answer by (simp add: on_next_round_incoming_request_def example_request_checked Let_def)
qed

lemma asking_requests_ok: "requests_ok asking_authority"
  by (simp add: requests_ok_def asking_authority_def example_authority_def)



text \<open>
  The votes for producing a new block are counted per request and not per keeper: one keeper that
  repeats its request raises the count.
\<close>

lemma repeated_requests_are_counted:
  assumes "lm_locked_block (env_data (nr_lock e)) = None"
  shows "max_locked env (replicate n e) None m = Ok (None, m + n)"
    and "fst (collect_voters (replicate (Suc n) e) {} []) = request_signers e"
  using assms by (induction n arbitrary: m) (simp_all add: collect_voters_fst del: collect_voters.simps)

text \<open>A missing secret for the own key sets the shutdown flag twice, which panics.\<close>

lemma missing_secret_panics:
  assumes "get_by_node_id bk_set (ta_node_identifier ta) = Some k"
    and "hm_get (ta_bls_keys_map ta) (bk_pubkey k) = None"
  shows "broadcast_success env bk_set success ta = Panic ''SHUTDOWN_FLAG''"
  using assms by (simp add: broadcast_success_def sealed_def)

end
