(* ===== verification/Block_Attestations.thy ===== *)
theory Block_Attestations
  imports Blocks Block_Tree
begin

text \<open>
  What the attestations carried by a block do: verification of all signatures of a candidate block,
  inheritance of the checkpoints of its ancestors, and the update of the ancestors' states
  (src/node/src/node/services/block_processor/service.rs, attestation_target_checkpoints.rs), with
  the producer's forecast of the same verdict (services/attestations_target/service.rs).

  The repository of block states is threaded through; what is sent to other services is returned as
  a list of effects. Timestamps for metrics are left out.
\<close>

datatype bp_effect =
    BlockPrefinalized thread_identifier "block_height option"
  | BlockApplied thread_identifier "block_height option"
  | SendForValidation block_identifier
  | SendNackBadBlock block_identifier
  | AwaitCrossThreadRefs block_identifier "block_identifier list"
  | CrossThreadRefsPrepared block_identifier
  | CacheOptimisticState block_identifier
  | SaveOptimisticState block_identifier
  | ShareState thread_identifier block_identifier
  | StoreCrossThreadRefData block_identifier

section \<open>Checkpoints of the next block\<close>

definition own_primary_checkpoint :: "attestation_targets \<Rightarrow> attestation_target_checkpoint" where
  "own_primary_checkpoint t = \<lparr>current_distance = 0, deadline = generation_deadline (at_primary t),
     ckpt_required_attestation_count = required_attestation_count (at_primary t),
     attestation_target_type = Primary\<rparr>"

definition own_fallback_checkpoints :: "attestation_targets \<Rightarrow> attestation_target_checkpoint list" where
  "own_fallback_checkpoints t =
     [\<lparr>current_distance = 0, deadline = generation_deadline (at_primary t),
       ckpt_required_attestation_count = required_attestation_count (at_fallback t),
       attestation_target_type = Primary\<rparr>,
      \<lparr>current_distance = 0, deadline = generation_deadline (at_fallback t),
       ckpt_required_attestation_count = required_attestation_count (at_fallback t),
       attestation_target_type = Fallback\<rparr>]"

definition inherit_all :: "finalization_checkpoints \<Rightarrow> finalization_checkpoints" where
  "inherit_all c = \<lparr>ckpt_primary = hm_map_values inherit_checkpoint (ckpt_primary c),
     ckpt_fallback = hm_map_values (map inherit_checkpoint) (ckpt_fallback c)\<rparr>"

definition inherit_ancestor_blocks_finalization_distances ::
    "block_state \<Rightarrow> block_state \<Rightarrow> finalization_checkpoints outcome" where
  "inherit_ancestor_blocks_finalization_distances parent s =
     (case (bs_thread_identifier parent, bs_ancestor_blocks_finalization_checkpoints parent,
            bs_thread_identifier s, bs_attestation_target s) of
        (Some parent_thread, Some prototype, Some thread, Some target) \<Rightarrow>
          (let nxt = (if thread = parent_thread then inherit_all prototype
                      else \<lparr>ckpt_primary = [], ckpt_fallback = []\<rparr>)
           in Ok \<lparr>ckpt_primary =
                     hm_insert (bs_block_identifier s) (own_primary_checkpoint target) (ckpt_primary nxt),
                   ckpt_fallback =
                     hm_insert (bs_block_identifier s) (own_fallback_checkpoints target) (ckpt_fallback nxt)\<rparr>)
      | _ \<Rightarrow> Bail ''block is not ready'')"

type_synonym verified_attestations =
  "(block_identifier \<times> attestation_target_type, signer_index list) hmap"

definition attestation_counts_of :: "verified_attestations \<Rightarrow> attestation_counts" where
  "attestation_counts_of m = hm_map_values length m"

definition evaluate_if_next_block_ancestors_required_attestations_will_be_met ::
    "thread_identifier \<Rightarrow> block_state \<Rightarrow> verified_attestations \<Rightarrow> bool outcome" where
  "evaluate_if_next_block_ancestors_required_attestations_will_be_met thread parent next_block_attestations =
     (case (bs_thread_identifier parent, bs_ancestor_blocks_finalization_checkpoints parent) of
        (Some parent_thread, Some prototype) \<Rightarrow>
          (if thread \<noteq> parent_thread then Ok True
           else
             (let r = update_checkpoints (attestation_counts_of next_block_attestations)
                        (into_builder (inherit_all prototype))
              in Ok (failed r = [])))
      | _ \<Rightarrow> Bail ''FailedToLoadBlockState'')"

section \<open>Verification of the signatures\<close>

text \<open>
  The signature of the producer on the envelope: \<open>None\<close> when the keepers of the block are not known
  yet. The outcome is remembered in the state of the block.
\<close>

definition verify_producer_signature ::
    "acki_nacki_block blst \<Rightarrow> block_envelope \<Rightarrow> block_identifier \<Rightarrow> block_repo \<Rightarrow>
     (bool option \<times> block_repo) outcome" where
  "verify_producer_signature bls candidate b repo =
     (let s = repo_get repo b in
      case bs_envelope_block_producer_signature_verified s of
        Some valid \<Rightarrow> Ok (Some valid, repo)
      | None \<Rightarrow>
          (case bs_bk_set s of
             None \<Rightarrow> Ok (None, repo)
           | Some bk_set \<Rightarrow>
               (case verify_signatures bls candidate (get_pubkeys_by_signers bk_set) of
                  Ok is_valid \<Rightarrow>
                    (case get_by_node_id bk_set (cs_producer_id (ab_common_section (env_data candidate))) of
                       None \<Rightarrow> Ok (Some False, repo)
                     | Some data \<Rightarrow>
                         (if \<not> has_signer_index candidate (bk_signer_index data) then Ok (Some False, repo)
                          else
                            obind (set_envelope_block_producer_signature_verified is_valid s) (\<lambda>s'.
                            Ok (Some is_valid, repo_set b s' repo))))
                | _ \<Rightarrow> Panic ''Signatures verification should not crash.'')))"

text \<open>
  The attestations of the block that still have to be recorded: those of blocks that are known,
  valid and have their keepers set. \<open>None\<close> when one of them does not verify.
\<close>

fun verify_attestations ::
    "attestation_data blst \<Rightarrow> block_repo \<Rightarrow> (block_identifier \<times> attestation_target_type) list \<Rightarrow>
     block_identifier list \<Rightarrow> attestation list \<Rightarrow> attestation list option outcome" where
  "verify_attestations bls repo previously skipped [] = Ok (Some [])"
| "verify_attestations bls repo previously skipped (a # as) =
     (let d = env_data a;
          ancestor = repo_get repo (ad_block_id d);
          rest = verify_attestations bls repo previously skipped as in
      if (ad_block_id d, ad_target_type d) \<in> set previously then rest
      else if ad_block_id d \<in> set skipped then rest
      else if is_invalidated ancestor then rest
      else case bs_envelope_hash ancestor of
        None \<Rightarrow> rest
      | Some envelope_hash \<Rightarrow>
          (if envelope_hash \<noteq> ad_envelope_hash d then Ok None
           else case bs_bk_set ancestor of
             None \<Rightarrow> rest
           | Some bk_set \<Rightarrow>
               (case verify_signatures bls a (get_pubkeys_by_signers bk_set) of
                  Ok True \<Rightarrow> obind rest (\<lambda>r. Ok (map_option (\<lambda>l. a # l) r))
                | Ok False \<Rightarrow> Ok None
                | _ \<Rightarrow> Panic ''Attestation signatures verification should not crash.'')))"

definition record_attestation :: "attestation \<Rightarrow> block_state \<Rightarrow> block_state" where
  "record_attestation a s =
     add_verified_attestations_for (ad_block_id (env_data a)) (ad_target_type (env_data a)) (signers a) s"

definition verify_all_block_signatures ::
    "acki_nacki_block blst \<Rightarrow> attestation_data blst \<Rightarrow> block_envelope \<Rightarrow> block_identifier \<Rightarrow>
     block_identifier list \<Rightarrow> block_repo \<Rightarrow> (bool option \<times> block_repo) outcome" where
  "verify_all_block_signatures block_bls bls candidate b skipped repo =
     obind (verify_producer_signature block_bls candidate b repo) (\<lambda>(verdict, repo1).
     if verdict \<noteq> Some True then Ok (verdict, repo1)
     else
       (let attestations = cs_block_attestations (ab_common_section (env_data candidate));
            previously = hm_keys (bs_verified_attestations (repo_get repo1 b)) in
        if length previously = length attestations then Ok (Some True, repo1)
        else
          obind (verify_attestations bls repo1 previously skipped attestations) (\<lambda>r.
          case r of
            None \<Rightarrow> Ok (Some False, repo1)
          | Some verified \<Rightarrow> Ok (Some True, repo_mut b (fold record_attestation verified) repo1))))"

section \<open>Processing of the attestations\<close>

definition find_attestation ::
    "block_envelope \<Rightarrow> block_identifier \<Rightarrow> attestation_target_type \<Rightarrow> attestation outcome" where
  "find_attestation candidate b ty =
     expect (List.find (\<lambda>a. ad_block_id (env_data a) = b \<and> ad_target_type (env_data a) = ty)
               (cs_block_attestations (ab_common_section (env_data candidate))))
       ''Attestation must be here, it is present in the verified list''"

definition prefinalize_ancestor ::
    "block_envelope \<Rightarrow> block_identifier \<Rightarrow> block_state \<Rightarrow> (block_state \<times> bp_effect list) outcome" where
  "prefinalize_ancestor candidate b s =
     (if bs_prefinalization_proof s \<noteq> None then Ok (s, [])
      else
        obind (find_attestation candidate b Primary) (\<lambda>a.
        let s' = set_prefinalized a s in
        obind (expect (bs_thread_identifier s') ''Prefinalized block must have thread id set'') (\<lambda>thread.
        Ok (s', [BlockPrefinalized thread (bs_block_height s')]))))"

type_synonym finalized_ancestor = "(block_seq_no \<times> block_identifier) option"

definition note_finalized_ancestor ::
    "block_seq_no \<Rightarrow> block_identifier \<Rightarrow> finalized_ancestor \<Rightarrow> finalized_ancestor" where
  "note_finalized_ancestor seq_no b best =
     (case best of
        None \<Rightarrow> Some (seq_no, b)
      | Some (n, _) \<Rightarrow> (if n > seq_no then Some (seq_no, b) else best))"

definition mark_primary ::
    "block_envelope \<Rightarrow> block_identifier \<Rightarrow> block_state \<Rightarrow> (block_state \<times> bp_effect list) outcome" where
  "mark_primary candidate b s =
     obind (prefinalize_ancestor candidate b s) (\<lambda>(s1, effects).
     obind (if bs_primary_finalization_proof s1 \<noteq> None then Ok s1
            else obind (find_attestation candidate b Primary) (\<lambda>a. set_primary_finalization_proof a s1)) (\<lambda>s2.
     Ok (if bs_has_primary_attestation_target_met s2 = None
         then set_has_primary_attestation_target_met s2 else s2, effects)))"

definition mark_fallback ::
    "block_envelope \<Rightarrow> block_identifier \<Rightarrow> block_state \<Rightarrow> block_state outcome" where
  "mark_fallback candidate b s =
     obind (if bs_fallback_finalization_proof s \<noteq> None then Ok s
            else obind (find_attestation candidate b Fallback) (\<lambda>a. set_fallback_finalization_proof a s)) (\<lambda>s1.
     Ok (if bs_has_fallback_attestation_target_met s1 = None
         then set_has_fallback_attestation_target_met s1 else s1))"

fun mark_all_primary ::
    "block_envelope \<Rightarrow> block_identifier list \<Rightarrow> finalized_ancestor \<Rightarrow> block_repo \<Rightarrow>
     (finalized_ancestor \<times> block_repo \<times> bp_effect list) outcome" where
  "mark_all_primary candidate [] best repo = Ok (best, repo, [])"
| "mark_all_primary candidate (b # bs) best repo =
     obind (mark_primary candidate b (repo_get repo b)) (\<lambda>(s, effects).
     obind (expect (bs_block_seq_no s) ''unwrap'') (\<lambda>seq_no.
     obind (mark_all_primary candidate bs (note_finalized_ancestor seq_no b best) (repo_set b s repo))
       (\<lambda>(best', repo', effects'). Ok (best', repo', effects @ effects'))))"

fun prefinalize_all ::
    "block_envelope \<Rightarrow> block_identifier list \<Rightarrow> block_repo \<Rightarrow> (block_repo \<times> bp_effect list) outcome" where
  "prefinalize_all candidate [] repo = Ok (repo, [])"
| "prefinalize_all candidate (b # bs) repo =
     obind (prefinalize_ancestor candidate b (repo_get repo b)) (\<lambda>(s, effects).
     obind (prefinalize_all candidate bs (repo_set b s repo)) (\<lambda>(repo', effects').
     Ok (repo', effects @ effects')))"

text \<open>A block that missed its primary target: it may have to be validated after all.\<close>

definition move_to_fallback :: "block_identifier \<Rightarrow> block_state \<Rightarrow> block_state \<times> bp_effect list" where
  "move_to_fallback candidate_id s =
     (if bs_must_be_validated s = None \<and> bs_must_be_validated_in_fallback_case s = Some True
      then (set_requires_fallback_attestation (set_must_be_validated s), [SendForValidation candidate_id])
      else (set_requires_fallback_attestation s, []))"

fun move_all_to_fallback ::
    "block_identifier \<Rightarrow> block_identifier list \<Rightarrow> block_repo \<Rightarrow> block_repo \<times> bp_effect list" where
  "move_all_to_fallback candidate_id [] repo = (repo, [])"
| "move_all_to_fallback candidate_id (b # bs) repo =
     (let (s, effects) = move_to_fallback candidate_id (repo_get repo b);
          (repo', effects') = move_all_to_fallback candidate_id bs (repo_set b s repo)
      in (repo', effects @ effects'))"

fun mark_all_fallback ::
    "block_envelope \<Rightarrow> block_identifier list \<Rightarrow> finalized_ancestor \<Rightarrow> block_repo \<Rightarrow>
     (finalized_ancestor \<times> block_repo) outcome" where
  "mark_all_fallback candidate [] best repo = Ok (best, repo)"
| "mark_all_fallback candidate (b # bs) best repo =
     obind (mark_fallback candidate b (repo_get repo b)) (\<lambda>s.
     obind (expect (bs_block_seq_no s) ''unwrap'') (\<lambda>seq_no.
     mark_all_fallback candidate bs (note_finalized_ancestor seq_no b best) (repo_set b s repo)))"

text \<open>What the block itself remembers of the ancestors it finalizes.\<close>

definition record_finalized ::
    "block_identifier list \<Rightarrow> finalized_ancestor \<Rightarrow> block_state \<Rightarrow> block_state outcome" where
  "record_finalized finalizes best s =
     (if (case bs_finalizes_blocks s of None \<Rightarrow> True | Some old \<Rightarrow> set old \<noteq> set finalizes) then
        obind (set_finalizes_blocks finalizes s) (\<lambda>s1.
        case best of
          None \<Rightarrow> Ok s1
        | Some cutoff \<Rightarrow> set_moves_attestation_list_cutoff cutoff s1)
      else Ok s)"

definition record_checkpoints :: "finalization_checkpoints \<Rightarrow> block_state \<Rightarrow> block_state outcome" where
  "record_checkpoints c s =
     (if bs_ancestor_blocks_finalization_checkpoints s = None
      then set_ancestor_blocks_finalization_checkpoints c s else Ok s)"

definition add_interest :: "node_identifier \<Rightarrow> block_identifier list \<Rightarrow> block_repo \<Rightarrow> block_repo" where
  "add_interest producer bs repo =
     fold (\<lambda>b r. repo_mut b (\<lambda>s. snd (try_add_attestations_interest producer s)) r) bs repo"

definition process_block_attestations ::
    "block_envelope \<Rightarrow> block_identifier \<Rightarrow> block_identifier \<Rightarrow> block_repo \<Rightarrow>
     (bool \<times> block_repo \<times> bp_effect list) outcome" where
  "process_block_attestations candidate b parent repo =
     (let s = repo_get repo b in
      if bs_has_block_attestations_processed s = Some True then Ok (True, repo, [])
      else case inherit_ancestor_blocks_finalization_distances (repo_get repo parent) s of
        Ok distances \<Rightarrow>
          (let r = update_checkpoints (attestation_counts_of (bs_verified_attestations s)) (into_builder distances) in
           if failed r \<noteq> [] then
             obind (invalidate_branch b repo) (\<lambda>repo'. Ok (False, repo', []))
           else
             obind (mark_all_primary candidate (passed_primary r) None repo) (\<lambda>(best1, repo1, effects1).
             obind (prefinalize_all candidate (passed_fallback_preattestation r) repo1) (\<lambda>(repo2, effects2).
             let (repo3, effects3) = move_all_to_fallback b (transitioned_to_fallback r) repo2 in
             obind (mark_all_fallback candidate (passed_fallback r) best1 repo3) (\<lambda>(best, repo4).
             obind (record_finalized (remdups (passed_fallback r @ passed_primary r)) best (repo_get repo4 b)) (\<lambda>s5.
             obind (record_checkpoints (remaining_checkpoints r) s5) (\<lambda>s6.
             let dependent = remdups (filter (\<lambda>x. x \<noteq> b)
                   (hm_keys (ckpt_primary (remaining_checkpoints r)) @ hm_keys (ckpt_fallback (remaining_checkpoints r))));
                 repo7 = add_interest (cs_producer_id (ab_common_section (env_data candidate))) dependent (repo_set b s6 repo4)
             in Ok (True, repo_mut b set_has_block_attestations_processed repo7, effects1 @ effects2 @ effects3)))))))
      | _ \<Rightarrow> Ok (False, repo, []))"

section \<open>The forecast of the producer is exact\<close>

text \<open>
  Which blocks fail depends on the set of attestations only: those whose primary checkpoint is not
  met and that have an unmet checkpoint at its deadline.
\<close>

definition misses_deadline :: "attestation_counts \<Rightarrow> finalization_checkpoints \<Rightarrow> block_identifier \<Rightarrow> bool" where
  "misses_deadline counts I b =
     ((\<forall>c. P_of I b = Some c \<longrightarrow> \<not> met counts b c) \<and>
      (F_of I b = None \<and> late_primary I b \<or>
       (\<exists>cs c. F_of I b = Some cs \<and> c \<in> set cs \<and> \<not> met counts b c \<and> deadline_reached c)))"

lemma failed_iff:
  assumes "ckpts_wf I"
  shows "b \<in> set (failed (update_checkpoints counts (into_builder I))) \<longleftrightarrow> misses_deadline counts I b"
proof -
  let ?s = "note_all counts (into_builder I)"
  let ?c = "inherited_checkpoints ?s"
  note D = progressD [OF progress_update [OF assms, of counts]]
  have f: "b \<in> set (failed (update_checkpoints counts (into_builder I))) \<longleftrightarrow>
      late_primary ?c b \<and> F_of ?c b = None \<or> late_fallback ?c b"
    unfolding update_checkpoints_def by (rule complete_checkpoints_result(1) [OF D(1)])
  show ?thesis
  proof (cases "b \<in> passed_blocks ?s")
    case True
    then have "\<not> (late_primary ?c b \<and> F_of ?c b = None \<or> late_fallback ?c b)"
      using D(3,4) [of b] by (simp add: late_primary_def late_fallback_def)
    moreover have "\<not> misses_deadline counts I b"
      using True D(5,6) [of b] by (auto simp: passed_blocks_def misses_deadline_def)
    ultimately show ?thesis using f by blast
  next
    case False
    then have "P_of ?c b = P_of I b" "F_of ?c b = map_option (filter (\<lambda>c. \<not> met counts b c)) (F_of I b)"
      using D(3,4) [of b] by simp_all
    moreover have "\<not> met counts b c" if "P_of I b = Some c" for c
      using D(7) [OF that False] .
    ultimately show ?thesis
      unfolding f misses_deadline_def late_primary_def late_fallback_def by (cases "F_of I b") auto
  qed
qed

lemma ckpts_wf_inherit_all: "ckpts_wf c \<Longrightarrow> ckpts_wf (inherit_all c)"
  by (simp add: ckpts_wf_def inherit_all_def)

text \<open>
  C34: the forecast of the producer and the verdict of the verifiers agree. For a block whose own
  deadline lies ahead, the forecast says that the requirements of the ancestors will be met exactly
  when processing the block with these attestations finds no ancestor that missed its last
  checkpoint.
\<close>

theorem next_block_forecast_exact:
  assumes "evaluate_if_next_block_ancestors_required_attestations_will_be_met thread parent attestations = Ok verdict"
    and "bs_thread_identifier s = Some thread"
    and "inherit_ancestor_blocks_finalization_distances parent s = Ok distances"
    and "\<And>c. bs_ancestor_blocks_finalization_checkpoints parent = Some c \<Longrightarrow> ckpts_wf c"
    and "\<And>t. bs_attestation_target s = Some t \<Longrightarrow> 0 < generation_deadline (at_primary t) \<and> 0 < generation_deadline (at_fallback t)"
    and "\<And>c. bs_ancestor_blocks_finalization_checkpoints parent = Some c \<Longrightarrow> bs_block_identifier s \<notin> tracked c"
  shows "verdict \<longleftrightarrow>
    failed (update_checkpoints (attestation_counts_of attestations) (into_builder distances)) = []"
proof -
  let ?counts = "attestation_counts_of attestations" and ?b = "bs_block_identifier s"
  obtain pt c t where pt: "bs_thread_identifier parent = Some pt"
    and c: "bs_ancestor_blocks_finalization_checkpoints parent = Some c"
    and t: "bs_attestation_target s = Some t"
    using assms(3) by (auto simp: inherit_ancestor_blocks_finalization_distances_def split: option.splits)
  define nxt where "nxt = (if thread = pt then inherit_all c else \<lparr>ckpt_primary = [], ckpt_fallback = []\<rparr>)"
  have d: "distances = \<lparr>ckpt_primary = hm_insert ?b (own_primary_checkpoint t) (ckpt_primary nxt),
      ckpt_fallback = hm_insert ?b (own_fallback_checkpoints t) (ckpt_fallback nxt)\<rparr>"
    using assms(2,3) pt c t by (simp add: inherit_ancestor_blocks_finalization_distances_def Let_def nxt_def)
  have wf: "ckpts_wf nxt"
    using ckpts_wf_inherit_all [OF assms(4) [OF c]] by (simp add: nxt_def ckpts_wf_def)
  then have wfd: "ckpts_wf distances" by (simp add: d ckpts_wf_def hm.wf_ins)
  have own: "\<not> misses_deadline ?counts distances ?b"
    using assms(5) [OF t] by (auto simp: misses_deadline_def d hm.get_ins own_fallback_checkpoints_def deadline_reached_def)
  have other: "misses_deadline ?counts distances b = misses_deadline ?counts nxt b" if "b \<noteq> ?b" for b
    using that by (simp add: misses_deadline_def d hm.get_ins late_primary_def)
  have self: "\<not> misses_deadline ?counts nxt ?b"
    using assms(6) [OF c]
    by (auto simp: misses_deadline_def nxt_def inherit_all_def late_primary_def tracked_def hm_get_map_values)
  have "misses_deadline ?counts distances b = misses_deadline ?counts nxt b" for b
    using own self other by (cases "b = ?b") simp_all
  then have eq: "set (failed (update_checkpoints ?counts (into_builder distances))) =
      set (failed (update_checkpoints ?counts (into_builder nxt)))"
    using failed_iff [OF wfd] failed_iff [OF wf] by auto
  show ?thesis
  proof (cases "thread = pt")
    case True
    then have "verdict \<longleftrightarrow> failed (update_checkpoints ?counts (into_builder nxt)) = []"
      using assms(1) pt c
      by (simp add: evaluate_if_next_block_ancestors_required_attestations_will_be_met_def Let_def nxt_def)
    with eq show ?thesis by (metis set_empty)
  next
    case False
    then have "verdict"
      using assms(1) pt c by (simp add: evaluate_if_next_block_ancestors_required_attestations_will_be_met_def)
    moreover have none: "b \<notin> set (failed (update_checkpoints ?counts (into_builder nxt)))" for b
      using failed_iff [OF wf, of b ?counts] False by (simp add: nxt_def misses_deadline_def late_primary_def)
    have "set (failed (update_checkpoints ?counts (into_builder nxt))) = {}" by (rule equals0I) (rule notE [OF none])
    ultimately show ?thesis using eq by simp
  qed
qed

definition example_target :: attestation_targets where
  "example_target = \<lparr>at_primary = \<lparr>generation_deadline = 3, required_attestation_count = 4\<rparr>,
     at_fallback = \<lparr>generation_deadline = 7, required_attestation_count = 3\<rparr>\<rparr>"

definition forecast_parent :: block_state where
  "forecast_parent = (block_state_new [1])\<lparr>bs_thread_identifier := Some [0],
     bs_ancestor_blocks_finalization_checkpoints := Some example_checkpoints\<rparr>"

definition forecast_block :: block_state where
  "forecast_block = (block_state_new [2])\<lparr>bs_thread_identifier := Some [0],
     bs_attestation_target := Some example_target\<rparr>"

theorem next_block_forecast_exact_witness:
  "\<exists>verdict distances.
     evaluate_if_next_block_ancestors_required_attestations_will_be_met [0] forecast_parent
       [(([1], Primary), [1, 2, 3])] = Ok verdict \<and>
     inherit_ancestor_blocks_finalization_distances forecast_parent forecast_block = Ok distances \<and>
     verdict = (failed (update_checkpoints (attestation_counts_of [(([1], Primary), [1, 2, 3])]) (into_builder distances)) = [])"
proof -
  obtain verdict where v: "evaluate_if_next_block_ancestors_required_attestations_will_be_met [0] forecast_parent
      [(([1], Primary), [1, 2, 3])] = Ok verdict"
    by (simp add: evaluate_if_next_block_ancestors_required_attestations_will_be_met_def forecast_parent_def Let_def)
  obtain distances where d: "inherit_ancestor_blocks_finalization_distances forecast_parent forecast_block = Ok distances"
    by (simp add: inherit_ancestor_blocks_finalization_distances_def forecast_parent_def forecast_block_def Let_def)
  have facts: "bs_thread_identifier forecast_block = Some [0]" "bs_block_identifier forecast_block = [2]"
    "bs_attestation_target forecast_block = Some example_target"
    "bs_ancestor_blocks_finalization_checkpoints forecast_parent = Some example_checkpoints"
    by (simp_all add: forecast_block_def forecast_parent_def block_state_new_def)
  have fresh: "[2] \<notin> tracked example_checkpoints"
    by (simp add: tracked_def example_checkpoints_def domIff hm_get_def)
  have dl: "0 < generation_deadline (at_primary example_target) \<and> 0 < generation_deadline (at_fallback example_target)"
    by (simp add: example_target_def)
  show ?thesis
    using next_block_forecast_exact [OF v facts(1) d] example_checkpoints_wf fresh dl v d facts by auto
qed

section \<open>A target is met only by verified attestations\<close>

abbreviation target_met :: "block_state \<Rightarrow> bool option" where
  "target_met \<equiv> bs_has_primary_attestation_target_met"

lemma set_once_frame:
  assumes "set_once f u v s = Ok t" and "\<And>F. g (u F s) = g s" and "\<And>s. g (notify_changed s) = g s"
  shows "g t = g s"
  using assms(1) unfolding set_once_Ok by (auto simp: assms(2,3) split: if_splits)

lemma set_again_frame:
  "(\<And>F. g (u F s) = g s) \<Longrightarrow> (\<And>s. g (notify_changed s) = g s) \<Longrightarrow> g (set_again f u v s) = g s"
  by (simp add: set_again_def)

text \<open>
  A reading of the state of a block that does not depend on the facts about the block as an attested
  ancestor is the same before and after the bookkeeping of attestations.
\<close>

locale attestation_frame =
  fixes field :: "block_state \<Rightarrow> 'v"
  assumes frame_version: "field (bs_object_state_version_update f s) = field s"
    and frame_prefinalized: "field (bs_prefinalized_update g s) = field s"
    and frame_prefinalization_proof: "field (bs_prefinalization_proof_update h s) = field s"
    and frame_must_be_validated: "field (bs_must_be_validated_update g s) = field s"
    and frame_requires_fallback: "field (bs_requires_fallback_attestation_update g s) = field s"
    and frame_fallback_proof: "field (bs_fallback_finalization_proof_update h s) = field s"
    and frame_fallback_met: "field (bs_has_fallback_attestation_target_met_update g s) = field s"
    and frame_finalizes: "field (bs_finalizes_blocks_update i s) = field s"
    and frame_cutoff: "field (bs_moves_attestation_list_cutoff_update j s) = field s"
    and frame_checkpoints: "field (bs_ancestor_blocks_finalization_checkpoints_update k s) = field s"
    and frame_interest: "field (bs_known_attestation_interested_parties_update l s) = field s"
    and frame_processed: "field (bs_has_block_attestations_processed_update g s) = field s"
begin

lemma notify_keeps [simp]: "field (notify_changed s) = field s"
  by (simp add: notify_changed_def frame_version)

lemma prefinalize_ancestor_keeps:
  "prefinalize_ancestor candidate b s = Ok (s', effects) \<Longrightarrow> field s' = field s"
  by (auto simp: prefinalize_ancestor_def set_prefinalized_def Let_def frame_prefinalized frame_prefinalization_proof
      split: if_splits)

lemma prefinalize_all_keeps:
  "prefinalize_all candidate bs repo = Ok (repo', effects) \<Longrightarrow> field (repo_get repo' x) = field (repo_get repo x)"
  by (induction candidate bs repo arbitrary: repo' effects rule: prefinalize_all.induct)
    (auto dest: prefinalize_ancestor_keeps)

lemma set_flags_keep [simp]:
  "field (set_must_be_validated s) = field s" "field (set_requires_fallback_attestation s) = field s"
  "field (set_has_fallback_attestation_target_met s) = field s"
  "field (set_has_block_attestations_processed s) = field s"
  by (rule set_again_frame;
      simp add: frame_must_be_validated frame_requires_fallback frame_fallback_met frame_processed)+

lemma move_to_fallback_keeps: "move_to_fallback b s = (s', effects) \<Longrightarrow> field s' = field s"
  by (auto simp: move_to_fallback_def split: if_splits)

lemma move_all_to_fallback_keeps:
  "move_all_to_fallback b bs repo = (repo', effects) \<Longrightarrow> field (repo_get repo' x) = field (repo_get repo x)"
  by (induction b bs repo arbitrary: repo' effects rule: move_all_to_fallback.induct)
    (auto dest: move_to_fallback_keeps split: prod.splits)

lemma set_proofs_keep:
  "set_fallback_finalization_proof a s = Ok t \<Longrightarrow> field t = field s"
  "set_finalizes_blocks ids s = Ok t \<Longrightarrow> field t = field s"
  "set_moves_attestation_list_cutoff cutoff s = Ok t \<Longrightarrow> field t = field s"
  "set_ancestor_blocks_finalization_checkpoints c s = Ok t \<Longrightarrow> field t = field s"
  by (erule set_once_frame; simp add: frame_fallback_proof frame_finalizes frame_cutoff frame_checkpoints)+

lemma mark_fallback_keeps:
  assumes "mark_fallback candidate b s = Ok s'"
  shows "field s' = field s"
proof -
  obtain s1 where s1: "(if bs_fallback_finalization_proof s \<noteq> None then Ok s
      else obind (find_attestation candidate b Fallback) (\<lambda>a. set_fallback_finalization_proof a s)) = Ok s1"
    and s': "s' = (if bs_has_fallback_attestation_target_met s1 = None
      then set_has_fallback_attestation_target_met s1 else s1)"
    using assms unfolding mark_fallback_def obind_eq_Ok by blast
  have "field s1 = field s"
    using s1 set_proofs_keep(1) by (cases "bs_fallback_finalization_proof s") auto
  then show ?thesis by (simp add: s')
qed

lemma mark_all_fallback_keeps:
  "mark_all_fallback candidate bs best repo = Ok (best', repo') \<Longrightarrow>
   field (repo_get repo' x) = field (repo_get repo x)"
  by (induction candidate bs best repo arbitrary: best' repo' rule: mark_all_fallback.induct)
    (auto dest: mark_fallback_keeps)

lemma record_finalized_keeps:
  assumes "record_finalized ids best s = Ok s'"
  shows "field s' = field s"
proof (cases "case bs_finalizes_blocks s of None \<Rightarrow> True | Some old \<Rightarrow> set old \<noteq> set ids")
  case True
  then obtain s1 where s1: "set_finalizes_blocks ids s = Ok s1"
    "(case best of None \<Rightarrow> Ok s1 | Some cutoff \<Rightarrow> set_moves_attestation_list_cutoff cutoff s1) = Ok s'"
    using assms unfolding record_finalized_def by (auto simp only: if_True obind_eq_Ok)
  then show ?thesis using set_proofs_keep(2) [OF s1(1)] set_proofs_keep(3) by (cases best) auto
next
  case False
  then show ?thesis using assms unfolding record_finalized_def by (auto simp only: if_False outcome.inject)
qed

lemma record_checkpoints_keeps: "record_checkpoints c s = Ok s' \<Longrightarrow> field s' = field s"
  using set_proofs_keep(4) by (auto simp: record_checkpoints_def split: if_splits)

lemma add_interest_keeps: "field (repo_get (add_interest p bs repo) x) = field (repo_get repo x)"
proof (induction bs arbitrary: repo)
  case (Cons b bs)
  have step: "add_interest p (b # bs) repo =
      add_interest p bs (repo_mut b (\<lambda>s. snd (try_add_attestations_interest p s)) repo)"
    by (simp add: add_interest_def)
  show ?case
    unfolding step Cons.IH by (simp add: try_add_attestations_interest_def frame_interest)
qed (simp add: add_interest_def)

end

interpretation met_flag: attestation_frame bs_has_primary_attestation_target_met
  by unfold_locales simp_all

lemma mark_all_primary_other:
  "mark_all_primary candidate bs best repo = Ok (best', repo', effects) \<Longrightarrow> x \<notin> set bs \<Longrightarrow>
   repo_get repo' x = repo_get repo x"
  by (induction candidate bs best repo arbitrary: best' repo' effects rule: mark_all_primary.induct) auto

lemma invalidate_branch_keeps:
  assumes "invalidate_branch root repo = Ok repo'"
  shows "target_met (repo_get repo' x) = target_met (repo_get repo x)"
  by (cases rule: invalidate_branch_cases [of root repo])
    (use assms in \<open>auto simp: set_invalidated_def notify_changed_def\<close>)

text \<open>The steps of a processing that is not stopped.\<close>

lemma process_steps:
  assumes "process_block_attestations candidate b parent repo = Ok (ok, repo', effects)"
    and "bs_has_block_attestations_processed (repo_get repo b) \<noteq> Some True"
    and "inherit_ancestor_blocks_finalization_distances (repo_get repo parent) (repo_get repo b) = Ok distances"
    and "r = update_checkpoints (attestation_counts_of (bs_verified_attestations (repo_get repo b))) (into_builder distances)"
    and "failed r = []"
  obtains best1 repo1 effects1 repo2 effects2 repo3 effects3 best repo4 s5 s6 dependent producer where
    "mark_all_primary candidate (passed_primary r) None repo = Ok (best1, repo1, effects1)"
    "prefinalize_all candidate (passed_fallback_preattestation r) repo1 = Ok (repo2, effects2)"
    "move_all_to_fallback b (transitioned_to_fallback r) repo2 = (repo3, effects3)"
    "mark_all_fallback candidate (passed_fallback r) best1 repo3 = Ok (best, repo4)"
    "record_finalized (remdups (passed_fallback r @ passed_primary r)) best (repo_get repo4 b) = Ok s5"
    "record_checkpoints (remaining_checkpoints r) s5 = Ok s6"
    "repo' = repo_mut b set_has_block_attestations_processed (add_interest producer dependent (repo_set b s6 repo4))"
    "ok"
proof -
  note unf = assms(1) [unfolded process_block_attestations_def Let_def [of "repo_get repo b"],
      simplified assms(2,3) if_False outcome.case Let_def [of "update_checkpoints _ _"] assms(4) [symmetric]]
  obtain best1 repo1 effects1 where m: "mark_all_primary candidate (passed_primary r) None repo = Ok (best1, repo1, effects1)"
    using unf assms(5) by auto
  obtain repo2 effects2 where p: "prefinalize_all candidate (passed_fallback_preattestation r) repo1 = Ok (repo2, effects2)"
    using unf assms(5) m by auto
  obtain repo3 effects3 where t: "move_all_to_fallback b (transitioned_to_fallback r) repo2 = (repo3, effects3)"
    by fastforce
  obtain best repo4 s5 s6 dependent producer where
    f: "mark_all_fallback candidate (passed_fallback r) best1 repo3 = Ok (best, repo4)"
    and s5: "record_finalized (remdups (passed_fallback r @ passed_primary r)) best (repo_get repo4 b) = Ok s5"
    and s6: "record_checkpoints (remaining_checkpoints r) s5 = Ok s6"
    and r': "repo' = repo_mut b set_has_block_attestations_processed (add_interest producer dependent (repo_set b s6 repo4))"
    and ok: "ok"
    using unf assms(5) m p t by (auto simp: Let_def)
  show ?thesis by (rule that [OF m p t f s5 s6 r' ok])
qed

text \<open>Processing raises the flag of a block only when the block passed its primary checkpoint.\<close>

lemma process_marks_passed:
  assumes "process_block_attestations candidate b parent repo = Ok (ok, repo', effects)"
    and "target_met (repo_get repo' x) \<noteq> target_met (repo_get repo x)"
  shows "\<exists>distances.
    inherit_ancestor_blocks_finalization_distances (repo_get repo parent) (repo_get repo b) = Ok distances \<and>
    x \<in> set (passed_primary (update_checkpoints
       (attestation_counts_of (bs_verified_attestations (repo_get repo b))) (into_builder distances)))"
proof -
  let ?s = "repo_get repo b"
  have np: "bs_has_block_attestations_processed ?s \<noteq> Some True"
    using assms by (auto simp: process_block_attestations_def Let_def)
  obtain distances where d: "inherit_ancestor_blocks_finalization_distances (repo_get repo parent) ?s = Ok distances"
    using assms np
    by (cases "inherit_ancestor_blocks_finalization_distances (repo_get repo parent) ?s")
      (auto simp: process_block_attestations_def Let_def)
  define r where "r = update_checkpoints (attestation_counts_of (bs_verified_attestations ?s)) (into_builder distances)"
  note unf = assms(1) [unfolded process_block_attestations_def Let_def [of ?s], simplified np if_False d outcome.case
      Let_def [of "update_checkpoints _ _"] r_def [symmetric]]
  have nf: "failed r = []"
  proof (rule ccontr)
    assume "failed r \<noteq> []"
    then have "\<exists>r'. invalidate_branch b repo = Ok r' \<and> repo' = r'"
      using unf by auto
    then show False using assms(2) invalidate_branch_keeps by blast
  qed
  from process_steps [OF assms(1) np d r_def nf] obtain best1 repo1 effects1 repo2 effects2 repo3 effects3 best repo4 s5 s6
      dependent producer where
    m: "mark_all_primary candidate (passed_primary r) None repo = Ok (best1, repo1, effects1)"
    and p: "prefinalize_all candidate (passed_fallback_preattestation r) repo1 = Ok (repo2, effects2)"
    and t: "move_all_to_fallback b (transitioned_to_fallback r) repo2 = (repo3, effects3)"
    and f: "mark_all_fallback candidate (passed_fallback r) best1 repo3 = Ok (best, repo4)"
    and s5: "record_finalized (remdups (passed_fallback r @ passed_primary r)) best (repo_get repo4 b) = Ok s5"
    and s6: "record_checkpoints (remaining_checkpoints r) s5 = Ok s6"
    and r': "repo' = repo_mut b set_has_block_attestations_processed (add_interest producer dependent (repo_set b s6 repo4))"
    by metis
  have "target_met (repo_get repo' x) = target_met (repo_get repo4 x)"
    using met_flag.record_finalized_keeps [OF s5] met_flag.record_checkpoints_keeps [OF s6]
    by (auto simp: r' met_flag.add_interest_keeps)
  also have "\<dots> = target_met (repo_get repo1 x)"
    using met_flag.mark_all_fallback_keeps [OF f] met_flag.move_all_to_fallback_keeps [OF t]
      met_flag.prefinalize_all_keeps [OF p] by simp
  finally have "x \<in> set (passed_primary r)"
    using mark_all_primary_other [OF m] assms(2) by metis
  with d show ?thesis unfolding r_def by blast
qed

lemma inherit_wf:
  assumes "inherit_ancestor_blocks_finalization_distances parent s = Ok distances"
    and "\<And>c. bs_ancestor_blocks_finalization_checkpoints parent = Some c \<Longrightarrow> ckpts_wf c"
  shows "ckpts_wf distances"
  using assms ckpts_wf_inherit_all
  by (auto simp: inherit_ancestor_blocks_finalization_distances_def ckpts_wf_def hm.wf_ins Let_def
      split: option.splits if_splits)

text \<open>The attested block is known and valid, and its keepers signed the attestation.\<close>

definition attestation_verified :: "attestation_data blst \<Rightarrow> block_repo \<Rightarrow> attestation \<Rightarrow> bool" where
  "attestation_verified bls repo a =
     (let s = repo_get repo (ad_block_id (env_data a)) in
      \<not> is_invalidated s \<and> bs_envelope_hash s = Some (ad_envelope_hash (env_data a)) \<and>
      (\<exists>bk_set. bs_bk_set s = Some bk_set \<and> verify_signatures bls a (get_pubkeys_by_signers bk_set) = Ok True))"

lemma verify_attestations_sound:
  "verify_attestations bls repo previously skipped as = Ok (Some vs) \<Longrightarrow> a \<in> set vs \<Longrightarrow>
   a \<in> set as \<and> attestation_verified bls repo a"
proof (induction bls repo previously skipped as arbitrary: vs rule: verify_attestations.induct)
  case (2 bls repo previously skipped a' as)
  let ?d = "env_data a'" and ?rest = "verify_attestations bls repo previously skipped as"
  have rest: "a \<in> set as \<and> attestation_verified bls repo a" if "?rest = Ok (Some ws)" "a \<in> set ws" for ws
    using 2(1) [OF refl refl] that by blast
  consider "?rest = Ok (Some vs)"
    | bk_set ws where "?rest = Ok (Some ws)" "vs = a' # ws" "bs_bk_set (repo_get repo (ad_block_id ?d)) = Some bk_set"
        "bs_envelope_hash (repo_get repo (ad_block_id ?d)) = Some (ad_envelope_hash ?d)"
        "\<not> is_invalidated (repo_get repo (ad_block_id ?d))"
        "verify_signatures bls a' (get_pubkeys_by_signers bk_set) = Ok True"
    using 2(2)
    by (auto simp: Let_def split: if_splits option.splits outcome.splits bool.splits)
  then show ?case
  proof cases
    case 1
    then show ?thesis using rest 2(3) by auto
  next
    case 2
    then show ?thesis using rest \<open>a \<in> set vs\<close> by (auto simp: attestation_verified_def)
  qed
qed simp

lemma record_attestation_map:
  "bs_verified_attestations (record_attestation a s) =
     hm_insert (ad_block_id (env_data a), ad_target_type (env_data a)) (signers a) (bs_verified_attestations s)"
  by (simp add: record_attestation_def add_verified_attestations_for_def Let_def notify_changed_def)

lemma record_attestation_facts [simp]:
  "bs_bk_set (record_attestation a s) = bs_bk_set s" "bs_envelope_hash (record_attestation a s) = bs_envelope_hash s"
  "is_invalidated (record_attestation a s) = is_invalidated s"
  by (simp_all add: record_attestation_def add_verified_attestations_for_def Let_def notify_changed_def is_invalidated_def)

lemma fold_record_facts [simp]:
  "bs_bk_set (fold record_attestation as s) = bs_bk_set s"
  "bs_envelope_hash (fold record_attestation as s) = bs_envelope_hash s"
  "is_invalidated (fold record_attestation as s) = is_invalidated s"
  by (induction as arbitrary: s) simp_all

lemma fold_record_get:
  assumes "hm_get (bs_verified_attestations (fold record_attestation as s)) (x, ty) = Some sgs"
    and "hm_get (bs_verified_attestations s) (x, ty) \<noteq> Some sgs"
  shows "\<exists>a \<in> set as. ad_block_id (env_data a) = x \<and> ad_target_type (env_data a) = ty \<and> signers a = sgs"
  using assms
proof (induction as arbitrary: s)
  case (Cons a as)
  show ?case
  proof (cases "hm_get (bs_verified_attestations (record_attestation a s)) (x, ty) = Some sgs")
    case True
    then show ?thesis using Cons.prems(2) by (auto simp: record_attestation_map hm.get_ins split: if_splits)
  next
    case False
    then show ?thesis using Cons by auto
  qed
qed simp

lemma fold_record_wf:
  "hm_wf (bs_verified_attestations s) \<Longrightarrow> hm_wf (bs_verified_attestations (fold record_attestation as s))"
  by (induction as arbitrary: s) (simp_all add: record_attestation_map hm.wf_ins)

lemma verify_producer_signature_keeps:
  assumes "verify_producer_signature bls candidate b repo = Ok (v, repo')"
  shows "bs_bk_set (repo_get repo' x) = bs_bk_set (repo_get repo x)"
    and "bs_envelope_hash (repo_get repo' x) = bs_envelope_hash (repo_get repo x)"
    and "is_invalidated (repo_get repo' x) = is_invalidated (repo_get repo x)"
    and "bs_verified_attestations (repo_get repo' x) = bs_verified_attestations (repo_get repo x)"
  using assms
  by (auto simp: verify_producer_signature_def Let_def set_once_Ok notify_changed_def is_invalidated_def
      split: option.splits if_splits outcome.splits)

lemma verify_all_sound:
  assumes "verify_all_block_signatures block_bls bls candidate b skipped repo = Ok (Some True, repo')"
    and "bs_verified_attestations (repo_get repo b) = []"
    and "((x, ty), sgs) \<in> set (bs_verified_attestations (repo_get repo' b))"
  shows "\<exists>a \<in> set (cs_block_attestations (ab_common_section (env_data candidate))).
    ad_block_id (env_data a) = x \<and> ad_target_type (env_data a) = ty \<and> signers a = sgs \<and>
    attestation_verified bls repo' a"
proof -
  let ?as = "cs_block_attestations (ab_common_section (env_data candidate))"
  obtain repo1 where r1: "verify_producer_signature block_bls candidate b repo = Ok (Some True, repo1)"
    using assms(1)
    by (cases "verify_producer_signature block_bls candidate b repo")
      (auto simp: verify_all_block_signatures_def split: if_splits)
  have e1: "bs_verified_attestations (repo_get repo1 b) = []"
    using verify_producer_signature_keeps(4) [OF r1] assms(2) by simp
  have ne: "?as \<noteq> []"
  proof
    assume "?as = []"
    then have "repo' = repo1"
      using assms(1) r1 e1 by (simp add: verify_all_block_signatures_def Let_def hm_keys_def)
    then show False using e1 assms(3) by simp
  qed
  then obtain vs where vs: "verify_attestations bls repo1 [] skipped ?as = Ok (Some vs)"
    and r': "repo' = repo_mut b (fold record_attestation vs) repo1"
    using assms(1) r1 e1
    by (cases "verify_attestations bls repo1 [] skipped ?as")
      (auto simp: verify_all_block_signatures_def Let_def hm_keys_def split: option.splits)
  have b': "repo_get repo' b = fold record_attestation vs (repo_get repo1 b)" by (simp add: r')
  have same: "bs_bk_set (repo_get repo' y) = bs_bk_set (repo_get repo1 y)"
    "bs_envelope_hash (repo_get repo' y) = bs_envelope_hash (repo_get repo1 y)"
    "is_invalidated (repo_get repo' y) = is_invalidated (repo_get repo1 y)" for y
    by (simp_all add: r')
  have "hm_wf (bs_verified_attestations (repo_get repo' b))"
    unfolding b' by (rule fold_record_wf) (simp add: e1 hm_wf_def)
  then have "hm_get (bs_verified_attestations (repo_get repo' b)) (x, ty) = Some sgs"
    using assms(3) by (simp add: hm_get_def hm_wf_def)
  then obtain a where a: "a \<in> set vs" "ad_block_id (env_data a) = x" "ad_target_type (env_data a) = ty" "signers a = sgs"
    unfolding b' using fold_record_get [of vs "repo_get repo1 b" x ty sgs] e1 by (auto simp: hm_get_def)
  have "a \<in> set ?as" "attestation_verified bls repo1 a"
    using verify_attestations_sound [OF vs a(1)] by simp_all
  moreover from this(2) have "attestation_verified bls repo' a"
    by (simp add: attestation_verified_def same Let_def)
  ultimately show ?thesis using a by blast
qed


text \<open>Two keepers attest block 1 in block 2.\<close>

definition attested_checkpoints :: finalization_checkpoints where
  "attested_checkpoints = \<lparr>ckpt_primary = [([1], \<lparr>current_distance = 0, deadline = 3,
       ckpt_required_attestation_count = 2, attestation_target_type = Primary\<rparr>)],
     ckpt_fallback = [([1], [])]\<rparr>"

definition attesting_repo :: block_repo where
  "attesting_repo =
     [([1], (block_state_new [1])\<lparr>bs_thread_identifier := Some [0], bs_block_seq_no := Some 1,
        bs_bk_set := Some example_bk_set, bs_envelope_hash := Some [7],
        bs_ancestor_blocks_finalization_checkpoints := Some attested_checkpoints\<rparr>),
      ([2], (block_state_new [2])\<lparr>bs_thread_identifier := Some [0], bs_bk_set := Some example_bk_set,
        bs_attestation_target := Some example_target\<rparr>)]"

definition example_candidate :: block_envelope where
  "example_candidate = envelope_create [1] [(1, 1)] (example_block\<lparr>ab_common_section :=
     example_section\<lparr>cs_producer_id := replicate 32 1, cs_block_attestations :=
       [envelope_create [1, 2] [(1, 1), (2, 1)]
          \<lparr>ad_parent_block_id = [0], ad_block_id = [1], ad_block_seq_no = 1, ad_envelope_hash = [7], ad_target_type = Primary\<rparr>]\<rparr>\<rparr>)"

definition verified_repo :: block_repo where
  "verified_repo =
     (case verify_all_block_signatures keyring_bls keyring_bls example_candidate [2] [] attesting_repo of
        Ok (_, repo) \<Rightarrow> repo | _ \<Rightarrow> [])"

definition processed_repo :: block_repo where
  "processed_repo = (case process_block_attestations example_candidate [2] [1] verified_repo of
     Ok (_, repo, _) \<Rightarrow> repo | _ \<Rightarrow> [])"

definition processed_effects :: "bp_effect list" where
  "processed_effects = (case process_block_attestations example_candidate [2] [1] verified_repo of
     Ok (_, _, effects) \<Rightarrow> effects | _ \<Rightarrow> [])"

lemma attesting_verified:
  "verify_all_block_signatures keyring_bls keyring_bls example_candidate [2] [] attesting_repo = Ok (Some True, verified_repo)"
  by code_simp

lemma attesting_processed:
  "process_block_attestations example_candidate [2] [1] verified_repo = Ok (True, processed_repo, processed_effects)"
  by code_simp

lemma attesting_raised:
  "target_met (repo_get verified_repo [1]) = None" "target_met (repo_get processed_repo [1]) = Some True"
  by code_simp+

lemma verified_checkpoints:
  "bs_ancestor_blocks_finalization_checkpoints (repo_get verified_repo [1]) = Some attested_checkpoints"
  "bs_verified_attestations (repo_get attesting_repo [2]) = []"
  by code_simp+


section \<open>What processing leaves alone\<close>

locale attestation_frame_all = attestation_frame +
  assumes frame_primary_proof: "field (bs_primary_finalization_proof_update h s) = field s"
    and frame_primary_met: "field (bs_has_primary_attestation_target_met_update g s) = field s"
begin

lemma mark_primary_keeps:
  assumes "mark_primary candidate b s = Ok (s', effects)"
  shows "field s' = field s"
proof -
  obtain s1 s2 where s1: "prefinalize_ancestor candidate b s = Ok (s1, effects)"
    and s2: "(if bs_primary_finalization_proof s1 \<noteq> None then Ok s1
      else obind (find_attestation candidate b Primary) (\<lambda>a. set_primary_finalization_proof a s1)) = Ok s2"
    and s': "s' = (if bs_has_primary_attestation_target_met s2 = None
      then set_has_primary_attestation_target_met s2 else s2)"
    using assms unfolding mark_primary_def obind_eq_Ok by auto
  have "field t = field s1" if "set_primary_finalization_proof a s1 = Ok t" for a t
    using that by (rule set_once_frame) (simp_all add: frame_primary_proof)
  then have "field s2 = field s1"
    using s2 by (cases "bs_primary_finalization_proof s1") auto
  moreover have "field (set_has_primary_attestation_target_met s2) = field s2"
    by (rule set_again_frame) (simp_all add: frame_primary_met)
  ultimately show ?thesis using prefinalize_ancestor_keeps [OF s1] by (simp add: s')
qed

lemma mark_all_primary_keeps:
  "mark_all_primary candidate bs best repo = Ok (best', repo', effects) \<Longrightarrow>
   field (repo_get repo' x) = field (repo_get repo x)"
  by (induction candidate bs best repo arbitrary: best' repo' effects rule: mark_all_primary.induct)
    (auto dest: mark_primary_keeps)

lemma process_keeps:
  assumes "process_block_attestations candidate b parent repo = Ok (True, repo', effects)"
  shows "field (repo_get repo' x) = field (repo_get repo x)"
proof (cases "bs_has_block_attestations_processed (repo_get repo b) = Some True")
  case True
  then show ?thesis using assms by (simp add: process_block_attestations_def)
next
  case False
  obtain distances where d: "inherit_ancestor_blocks_finalization_distances (repo_get repo parent) (repo_get repo b) = Ok distances"
    using assms False
    by (cases "inherit_ancestor_blocks_finalization_distances (repo_get repo parent) (repo_get repo b)")
      (auto simp: process_block_attestations_def Let_def)
  define r where "r = update_checkpoints (attestation_counts_of (bs_verified_attestations (repo_get repo b))) (into_builder distances)"
  have nf: "failed r = []"
    using assms False d by (auto simp: process_block_attestations_def Let_def r_def split: if_splits)
  show ?thesis
  proof (rule process_steps [OF assms False d r_def nf], goal_cases)
    case (1 best1 repo1 effects1 repo2 effects2 repo3 effects3 best repo4 s5 s6 dependent producer)
    have "field (repo_get repo' x) = field (repo_get repo4 x)"
      using record_finalized_keeps [OF 1(5)] record_checkpoints_keeps [OF 1(6)] by (auto simp: 1(7) add_interest_keeps)
    then show ?case
      using mark_all_fallback_keeps [OF 1(4)] move_all_to_fallback_keeps [OF 1(3)] prefinalize_all_keeps [OF 1(2)]
        mark_all_primary_keeps [OF 1(1)] by simp
  qed
qed

end

text \<open>The facts that the later stages of the processing of a block rely on.\<close>

definition processing_facts :: "block_state \<Rightarrow> (bool option \<times> bool option \<times> bool option \<times> bool option) \<times>
    (bool option \<times> bool option \<times> block_keeper_set option \<times> block_keeper_set option)" where
  "processing_facts s =
     ((bs_stored s, bs_common_checks_passed s, bs_signatures_verified s, bs_has_all_cross_thread_ref_data_available s),
      (bs_applied s, bs_invalidated s, bs_bk_set s, bs_descendant_bk_set s))"

interpretation facts: attestation_frame_all processing_facts
  by unfold_locales (simp_all add: processing_facts_def)

section \<open>The recorded cutoff\<close>

text \<open>
  Of the ancestors a block finalizes, the one recorded as cutoff of the attestations is the one of the
  lowest sequence number, although the code names it the maximal one.
\<close>

lemma note_finalized_lowest:
  assumes "fold (\<lambda>(n, b). note_finalized_ancestor n b) xs start = Some (n, b)"
  shows "(\<forall>(m, _) \<in> set xs. n \<le> m) \<and> (\<forall>m c. start = Some (m, c) \<longrightarrow> n \<le> m)"
  using assms
proof (induction xs arbitrary: start)
  case (Cons x xs)
  obtain m c where x: "x = (m, c)" by (cases x)
  have "fold (\<lambda>(n, b). note_finalized_ancestor n b) xs (note_finalized_ancestor m c start) = Some (n, b)"
    using Cons.prems by (simp add: x)
  from Cons.IH [OF this] have "\<forall>(m, _) \<in> set xs. n \<le> m"
    and step: "\<And>k d. note_finalized_ancestor m c start = Some (k, d) \<Longrightarrow> n \<le> k" by blast+
  moreover have "n \<le> m \<and> (\<forall>k d. start = Some (k, d) \<longrightarrow> n \<le> k)"
  proof (cases start)
    case None
    then show ?thesis using step by (simp add: note_finalized_ancestor_def)
  next
    case (Some p)
    then show ?thesis using step by (cases p) (fastforce simp: note_finalized_ancestor_def split: if_splits)
  qed
  ultimately show ?case by (simp add: x)
qed simp

end
