(* ===== verification/Block_Processing.thy ===== *)
theory Block_Processing
  imports Block_Attestations
begin

text \<open>
  The way of a candidate block through the block processor
  (src/node/src/node/services/block_processor/service.rs, rules/bk_set.rs,
  rules/descendant_bk_set.rs and must_save_state_on_seq_no of src/node/src/config/mod.rs): the rules
  that derive the keepers of a block from its parent, the common checks, the consensus parameters and
  the application of the block.

  The optimistic states and their application are parameters, as are the floating-point comparison
  that decides whether this node validates the block and the outcome of writes to the storage. An
  error returned by the processing ends the processor's thread, so the state it leaves is not kept.
\<close>

section \<open>The environment of the processor\<close>

datatype 's state_lookup =
    StateFound 's
  | StateMissing
  | BlockNotFound
  | MinStateLimitReached
  | LookupFailed

datatype storage_op =
    StoreInCache block_identifier
  | LoadFullState thread_identifier block_identifier
  | SaveForSharing thread_identifier block_identifier
  | SetCrossThreadRefData block_identifier

record 's processor_env =
  pe_node_id :: node_identifier
  pe_save_state_frequency :: u32
  pe_bls_keys_map :: "(pub_key, secret \<times> bytes) hmap"
  pe_block_bls :: "acki_nacki_block blst"
  pe_attestation_bls :: "attestation_data blst"
  pe_codec :: block_codec
  pe_shuffle :: shuffle_fn
  pe_skipped_attestation_ids :: "block_identifier list"
  pe_at_most_v :: "nat \<Rightarrow> nat \<Rightarrow> u16 \<Rightarrow> bool"
  pe_get_optimistic_state :: "block_identifier \<Rightarrow> thread_identifier \<Rightarrow> 's state_lookup"
  pe_apply_block :: "'s \<Rightarrow> acki_nacki_block \<Rightarrow> 's option"
  pe_full_state_known :: "block_identifier \<Rightarrow> thread_identifier \<Rightarrow> bool"
  pe_storage :: "storage_op \<Rightarrow> bool"

record processor_state =
  pr_repo :: block_repo
  pr_ref_data :: "block_identifier list"
  pr_shutdown :: bool
  pr_effects :: "bp_effect list"

text \<open>A stage tells whether the processing goes on after it.\<close>

type_synonym stage = "processor_state \<Rightarrow> (bool \<times> processor_state) outcome"

definition and_then :: "stage \<Rightarrow> stage \<Rightarrow> stage" where
  "and_then f g st = obind (f st) (\<lambda>(go, st'). if go then g st' else Ok (False, st'))"

definition pr_get :: "processor_state \<Rightarrow> block_identifier \<Rightarrow> block_state" where
  "pr_get st b = repo_get (pr_repo st) b"

definition pr_put :: "block_identifier \<Rightarrow> block_state \<Rightarrow> processor_state \<Rightarrow> processor_state" where
  "pr_put b s st = st\<lparr>pr_repo := repo_set b s (pr_repo st)\<rparr>"

definition pr_emit :: "bp_effect list \<Rightarrow> processor_state \<Rightarrow> processor_state" where
  "pr_emit es st = st\<lparr>pr_effects := pr_effects st @ es\<rparr>"

definition pr_invalidate :: "block_identifier \<Rightarrow> processor_state \<Rightarrow> (bool \<times> processor_state) outcome" where
  "pr_invalidate b st = obind (invalidate_branch b (pr_repo st)) (\<lambda>repo'. Ok (False, st\<lparr>pr_repo := repo'\<rparr>))"

section \<open>The keepers of a block\<close>

definition put_bk_sets :: "block_keeper_set \<Rightarrow> block_keeper_set \<Rightarrow> block_state \<Rightarrow> block_state outcome" where
  "put_bk_sets bk future_bk s =
     obind (set_bk_set bk s) (\<lambda>s1.
     if bs_future_bk_set s1 = None then set_future_bk_set future_bk s1 else Ok s1)"

definition rule_set_bk_set :: "block_identifier \<Rightarrow> block_repo \<Rightarrow> (bool \<times> block_repo) outcome" where
  "rule_set_bk_set b repo =
     (let s = repo_get repo b in
      if bs_bk_set s \<noteq> None then Ok (True, repo)
      else case bs_parent_block_identifier s of
        None \<Rightarrow> Ok (False, repo)
      | Some parent_id \<Rightarrow>
          (case (bs_descendant_bk_set (repo_get repo parent_id), bs_descendant_future_bk_set (repo_get repo parent_id)) of
             (Some bk, Some future_bk) \<Rightarrow>
               obind (put_bk_sets bk future_bk s) (\<lambda>s'. Ok (True, repo_set b s' repo))
           | _ \<Rightarrow> Ok (False, repo)))"

definition put_descendants ::
    "block_keeper_set \<Rightarrow> block_keeper_set \<Rightarrow> block_state \<Rightarrow> block_state outcome" where
  "put_descendants bk future_bk s =
     obind (if bs_descendant_bk_set s = None then set_descendant_bk_set bk s else Ok s) (\<lambda>s1.
     if bs_descendant_future_bk_set s1 = None then set_descendant_future_bk_set future_bk s1 else Ok s1)"

definition rule_set_descendant_bk_set :: "acki_nacki_block \<Rightarrow> block_state \<Rightarrow> block_state outcome" where
  "rule_set_descendant_bk_set block s =
     (if bs_descendant_bk_set s \<noteq> None \<and> bs_descendant_future_bk_set s \<noteq> None then Ok s
      else case (bs_bk_set s, bs_future_bk_set s) of
        (Some bk, Some future_bk) \<Rightarrow>
          (if \<not> is_stored s then Ok s
           else case update_block_keeper_set_from_common_section
                       (cs_block_keeper_set_changes (ab_common_section block)) bk future_bk of
             None \<Rightarrow> put_descendants bk future_bk s
           | Some (next_bk, next_future_bk) \<Rightarrow> put_descendants next_bk next_future_bk s)
      | _ \<Rightarrow> Ok s)"

definition bk_set_stage :: "block_identifier \<Rightarrow> block_identifier \<Rightarrow> stage" where
  "bk_set_stage b parent st =
     (if bs_bk_set (pr_get st b) \<noteq> None then Ok (True, st)
      else if bs_descendant_bk_set (pr_get st parent) \<noteq> None then
        obind (rule_set_bk_set b (pr_repo st)) (\<lambda>(found, repo'). Ok (found, st\<lparr>pr_repo := repo'\<rparr>))
      else Ok (False, st))"

text \<open>\<open>MAX_STATE_ANCESTORS\<close> is 10.\<close>

definition max_state_ancestors :: nat where
  "max_state_ancestors = 10"

definition ancestors_stage :: "block_identifier \<Rightarrow> block_identifier \<Rightarrow> stage" where
  "ancestors_stage b parent st =
     (case (bs_ancestors (pr_get st b), bs_ancestors (pr_get st parent)) of
        (None, Some parent_ancestors) \<Rightarrow>
          obind (set_ancestors (parent # take (max_state_ancestors - 1) parent_ancestors) (pr_get st b)) (\<lambda>s.
          Ok (True, pr_put b s st))
      | _ \<Rightarrow> Ok (True, st))"

section \<open>The common checks\<close>

text \<open>\<open>Vec::dedup\<close> removes consecutive repetitions only, as \<^const>\<open>remdups_adj\<close> does.\<close>

definition check_common_block_params ::
    "shuffle_fn \<Rightarrow> block_codec \<Rightarrow> acki_nacki_block \<Rightarrow> block_state \<Rightarrow> block_state \<Rightarrow> bool outcome" where
  "check_common_block_params shuffle codec block parent s =
     (let cs = ab_common_section block in
      case (bs_block_time_ms parent, bs_block_seq_no parent, bs_block_height parent) of
        (Some _, Some parent_seq_no, Some parent_height) \<Rightarrow>
          (if ab_seq_no block \<le> parent_seq_no then Ok False
           else
             obind (expect (block_height_next parent_height (cs_thread_id cs)) ''attempt to add with overflow'') (\<lambda>height.
             if cs_block_height cs \<noteq> height then Ok False
             else case (bs_bk_set s, bs_producer_selector_data s) of
               (Some bk, Some selector) \<Rightarrow>
                 (case is_node_bp shuffle selector bk (cs_producer_id cs) of
                    Ok True \<Rightarrow>
                      (let rows = (case cs_threads_table cs of Some table \<Rightarrow> map fst table | None \<Rightarrow> []) in
                       if length (remdups_adj rows) \<noteq> length rows
                       then Panic ''Candidate block common section contains threads table with mask duplicates''
                       else check_hash codec block)
                  | Panic msg \<Rightarrow> Panic msg
                  | _ \<Rightarrow> Ok False)
             | _ \<Rightarrow> Bail ''Failed to get selector data to perform common check''))
      | _ \<Rightarrow> Bail ''Failed to get block data to perform common check'')"

definition common_checks_stage ::
    "'s processor_env \<Rightarrow> block_envelope \<Rightarrow> block_identifier \<Rightarrow> block_identifier \<Rightarrow> stage" where
  "common_checks_stage env candidate b parent st =
     (if bs_common_checks_passed (pr_get st b) = Some True then Ok (True, st)
      else if bs_common_checks_passed (pr_get st parent) \<noteq> Some True then Ok (False, st)
      else
        obind (check_common_block_params (pe_shuffle env) (pe_codec env) (env_data candidate)
                 (pr_get st parent) (pr_get st b)) (\<lambda>passed.
        if passed then
          obind (set_common_checks_passed (pr_get st b)) (\<lambda>s. Ok (True, pr_put b s st))
        else
          obind (pr_invalidate b st) (\<lambda>(_, st'). Ok (False, pr_emit [SendNackBadBlock b] st'))))"

section \<open>The signatures\<close>

definition mark_signatures_verified :: "node_identifier \<Rightarrow> block_state \<Rightarrow> block_state outcome" where
  "mark_signatures_verified producer_id s =
     obind (set_signatures_verified s) (\<lambda>s1.
     if bs_producer s1 = None then set_producer producer_id s1 else Ok s1)"

definition signatures_stage ::
    "'s processor_env \<Rightarrow> block_envelope \<Rightarrow> block_identifier \<Rightarrow> stage" where
  "signatures_stage env candidate b st =
     obind (verify_all_block_signatures (pe_block_bls env) (pe_attestation_bls env) candidate b
              (pe_skipped_attestation_ids env) (pr_repo st)) (\<lambda>(verdict, repo').
     let st' = st\<lparr>pr_repo := repo'\<rparr>; s = repo_get repo' b in
     case verdict of
       None \<Rightarrow> Ok (False, st')
     | Some False \<Rightarrow> pr_invalidate b st'
     | Some True \<Rightarrow>
         (if is_signatures_verified s then Ok (True, st')
          else
            obind (mark_signatures_verified (cs_producer_id (ab_common_section (env_data candidate))) s) (\<lambda>s'.
            Ok (True, pr_put b s' st'))))"

definition descendant_bk_set_stage :: "block_envelope \<Rightarrow> block_identifier \<Rightarrow> stage" where
  "descendant_bk_set_stage candidate b st =
     (let s = pr_get st b in
      if bs_descendant_bk_set s = None \<and> is_signatures_verified s then
        obind (rule_set_descendant_bk_set (env_data candidate) s) (\<lambda>s'. Ok (True, pr_put b s' st))
      else Ok (True, st))"

section \<open>The consensus parameters\<close>

fun with_seq_no :: "block_repo \<Rightarrow> block_identifier list \<Rightarrow> (block_seq_no \<times> block_identifier) list outcome" where
  "with_seq_no repo [] = Ok []"
| "with_seq_no repo (b # bs) =
     obind (expect (bs_block_seq_no (repo_get repo b)) ''unwrap'') (\<lambda>n.
     obind (with_seq_no repo bs) (\<lambda>rest. Ok ((n, b) # rest)))"

definition checkpoint_distance :: "finalization_checkpoints \<Rightarrow> block_identifier \<Rightarrow> nat outcome" where
  "checkpoint_distance ckpts b =
     (case hm_get (ckpt_fallback ckpts) b of
        Some (c # _) \<Rightarrow> Ok (current_distance c + 2)
      | _ \<Rightarrow>
          obind (expect (hm_get (ckpt_primary ckpts) b)
                   ''Must have a checkpoint. otherwise how did it finalize the block'') (\<lambda>c.
          Ok (current_distance c + 2)))"

fun checkpoint_distances :: "finalization_checkpoints \<Rightarrow> block_identifier list \<Rightarrow> nat list outcome" where
  "checkpoint_distances ckpts [] = Ok []"
| "checkpoint_distances ckpts (b # bs) =
     obind (checkpoint_distance ckpts b) (\<lambda>d.
     obind (checkpoint_distances ckpts bs) (\<lambda>ds. Ok (d # ds)))"

text \<open>The distances of the blocks the parent finalizes; \<open>None\<close> while a fact they depend on is missing.\<close>

definition finalized_distances :: "block_repo \<Rightarrow> block_identifier \<Rightarrow> nat list option outcome" where
  "finalized_distances repo parent =
     (let p = repo_get repo parent; zero = (parent = block_identifier_default) in
      case (if zero then Some block_identifier_default else bs_parent_block_identifier p,
            if zero then Some [] else bs_finalizes_blocks p) of
        (Some grandparent, Some finalized) \<Rightarrow>
          obind (with_seq_no repo finalized) (\<lambda>numbered.
          let ordered = sort_key fst numbered in
          if ordered = [] then Ok (Some [])
          else if grandparent \<noteq> block_identifier_default then
            (case bs_ancestor_blocks_finalization_checkpoints (repo_get repo grandparent) of
               None \<Rightarrow> Ok None
             | Some ckpts \<Rightarrow> obind (checkpoint_distances ckpts (map snd ordered)) (\<lambda>ds. Ok (Some ds)))
          else Ok (Some []))
      | _ \<Rightarrow> Ok None)"

definition primary_attestation_target :: "nat \<Rightarrow> nat" where
  "primary_attestation_target bk_len = div_ceil (2 * bk_len) 3"

definition fallback_attestation_target :: "nat \<Rightarrow> nat" where
  "fallback_attestation_target bk_len = bk_len div 2 + 1"

definition max_attestation_target_beta :: nat where
  "max_attestation_target_beta = 30"

definition descendant_generations :: "nat \<Rightarrow> nat \<Rightarrow> nat" where
  "descendant_generations median parent_deadline =
     (if median < parent_deadline then parent_deadline - 1
      else if median < max_attestation_target_beta then median
      else max_attestation_target_beta)"

text \<open>Whether this node has to validate the block: its secret seed decides.\<close>

definition validation_duty ::
    "'s processor_env \<Rightarrow> block_keeper_set \<Rightarrow> bool \<Rightarrow> block_state \<Rightarrow> (bool \<times> block_state) outcome" where
  "validation_duty env bk shutdown s =
     (case get_by_node_id bk (pe_node_id env) of
        None \<Rightarrow> Ok (shutdown, s)
      | Some keeper \<Rightarrow>
          (case hm_get (pe_bls_keys_map env) (bk_pubkey keeper) of
             None \<Rightarrow> (if shutdown then Panic '''' else Ok (True, s))
           | Some (_, rnd) \<Rightarrow>
               obind (expect (not_a_modulus (rnd_seed_bitxor rnd (bs_block_identifier s)) 0x10000)
                        ''attempt to calculate the remainder with a divisor of zero'') (\<lambda>n.
               let this_block = ucast n :: u16; len = bk_set_len bk in
               Ok (shutdown,
                   if pe_at_most_v env (primary_attestation_target len) len this_block
                   then set_must_be_validated s
                   else if pe_at_most_v env (fallback_attestation_target len) len this_block
                   then set_must_be_validated_in_fallback_case s
                   else s))))"

definition put_attestation_target :: "nat \<Rightarrow> nat \<Rightarrow> block_state \<Rightarrow> block_state \<Rightarrow> block_state outcome" where
  "put_attestation_target bk_len median parent s =
     (if bs_attestation_target s \<noteq> None then Ok s
      else
        obind (expect (bs_attestation_target parent) ''Parent attestation target must be set'') (\<lambda>parent_target.
        let generations = descendant_generations median (generation_deadline (at_primary parent_target)) in
        set_attestation_target
          \<lparr>at_primary = \<lparr>generation_deadline = generations,
             required_attestation_count = primary_attestation_target bk_len\<rparr>,
           at_fallback = \<lparr>generation_deadline = 2 * generations + 1,
             required_attestation_count = fallback_attestation_target bk_len\<rparr>\<rparr> s))"

definition consensus_params_stage ::
    "'s processor_env \<Rightarrow> block_identifier \<Rightarrow> block_identifier \<Rightarrow> stage" where
  "consensus_params_stage env b parent st =
     (let s = pr_get st b; p = pr_get st parent in
      case (bs_block_stats s, bs_bk_set s, bs_block_stats p) of
        (None, Some bk, Some parent_stats) \<Rightarrow>
          obind (finalized_distances (pr_repo st) parent) (\<lambda>found.
          case found of
            None \<Rightarrow> Ok (False, st)
          | Some distances \<Rightarrow>
              obind (expect (block_statistics_next distances None parent_stats) ''index out of bounds'') (\<lambda>cur_stats.
              obind (validation_duty env bk (pr_shutdown st) s) (\<lambda>(shutdown, s1).
              obind (put_attestation_target (bk_set_len bk) (median_descendants_chain_length cur_stats) p s1) (\<lambda>s2.
              obind (if bs_block_stats s2 = None then set_block_stats cur_stats s2 else Ok s2) (\<lambda>s3.
              Ok (True, pr_put b s3 (st\<lparr>pr_shutdown := shutdown\<rparr>)))))))
      | _ \<Rightarrow> Ok (True, st))"

definition attestations_stage :: "block_envelope \<Rightarrow> block_identifier \<Rightarrow> block_identifier \<Rightarrow> stage" where
  "attestations_stage candidate b parent st =
     obind (process_block_attestations candidate b parent (pr_repo st)) (\<lambda>(go, repo', effects).
     Ok (go, pr_emit effects (st\<lparr>pr_repo := repo'\<rparr>)))"

section \<open>Application of the block\<close>

definition cross_refs_stage :: "block_envelope \<Rightarrow> block_identifier \<Rightarrow> stage" where
  "cross_refs_stage candidate b st =
     (if bs_has_all_cross_thread_ref_data_available (pr_get st b) \<noteq> None then Ok (True, st)
      else
        (let missing = filter (\<lambda>r. r \<notin> set (pr_ref_data st)) (cs_refs (ab_common_section (env_data candidate))) in
         if missing \<noteq> [] then Ok (False, pr_emit [AwaitCrossThreadRefs b missing] st)
         else
           obind (set_has_all_cross_thread_ref_data_available (pr_get st b)) (\<lambda>s.
           Ok (True, pr_put b s st))))"

definition must_save_state_on_seq_no :: "block_seq_no \<Rightarrow> block_seq_no option \<Rightarrow> u32 \<Rightarrow> bool outcome" where
  "must_save_state_on_seq_no seq_no parent_seq_no save_state_frequency =
     (if save_state_frequency = 0 then Panic ''attempt to divide by zero''
      else case parent_seq_no of
        Some p \<Rightarrow> Ok (p div save_state_frequency \<noteq> seq_no div save_state_frequency)
      | None \<Rightarrow> Ok (seq_no mod save_state_frequency = 0))"

definition storage :: "'s processor_env \<Rightarrow> storage_op \<Rightarrow> unit outcome" where
  "storage env operation = (if pe_storage env operation then Ok () else Bail ''storage'')"

fun share_states ::
    "'s processor_env \<Rightarrow> (thread_identifier \<times> block_identifier) list \<Rightarrow> bp_effect list outcome" where
  "share_states env [] = Ok []"
| "share_states env ((t, x) # rest) =
     obind (storage env (LoadFullState t x)) (\<lambda>_.
     if pe_full_state_known env x t then
       obind (storage env (SaveForSharing t x)) (\<lambda>_.
       obind (share_states env rest) (\<lambda>effects. Ok (ShareState t x # effects)))
     else share_states env rest)"

text \<open>What follows a successful application of the block to the state of its parent.\<close>

definition after_apply ::
    "'s processor_env \<Rightarrow> block_envelope \<Rightarrow> block_identifier \<Rightarrow> block_identifier \<Rightarrow> block_seq_no \<Rightarrow>
     thread_identifier \<Rightarrow> block_height \<Rightarrow> stage" where
  "after_apply env candidate b parent seq_no thread_id height st =
     (let cs = ab_common_section (env_data candidate) in
      obind (if cs_share_state_resources cs \<noteq> None \<or> is_thread_splitting (env_data candidate) then Ok True
             else must_save_state_on_seq_no seq_no (bs_block_seq_no (pr_get st parent)) (pe_save_state_frequency env))
        (\<lambda>must_save_state.
      obind (storage env (StoreInCache b)) (\<lambda>_.
      obind (case cs_share_state_resources cs of None \<Rightarrow> Ok [] | Some rs \<Rightarrow> share_states env rs) (\<lambda>shared.
      obind (storage env (SetCrossThreadRefData b)) (\<lambda>_.
      let s1 = set_applied (pr_get st b);
          s2 = set_has_cross_thread_ref_data_prepared s1
      in Ok (True, pr_emit
           ([CacheOptimisticState b] @
            (if must_save_state \<and> cs_producer_id cs \<noteq> pe_node_id env then [SaveOptimisticState b] else []) @
            shared @ [BlockApplied thread_id (Some height), StoreCrossThreadRefData b, CrossThreadRefsPrepared b])
           (pr_put b s2 (st\<lparr>pr_ref_data := b # pr_ref_data st\<rparr>))))))))"

definition apply_stage ::
    "'s processor_env \<Rightarrow> block_envelope \<Rightarrow> block_identifier \<Rightarrow> block_identifier \<Rightarrow> block_seq_no \<Rightarrow> stage" where
  "apply_stage env candidate b parent seq_no st =
     (let s = pr_get st b in
      if is_block_already_applied s then Ok (True, st)
      else if \<not> is_block_already_applied (pr_get st parent) then Ok (True, st)
      else
        obind (expect (bs_thread_identifier s) ''Must be set'') (\<lambda>thread_id.
        obind (expect (bs_producer s) ''Must be set'') (\<lambda>producer.
        obind (expect (bs_block_height s) ''Must be set'') (\<lambda>height.
        if producer = pe_node_id env \<and> apply_can_be_skipped s then
          Ok (False, pr_emit [BlockApplied thread_id (Some height)] (pr_put b (set_applied s) st))
        else
          (let st' = (if bs_must_be_validated s = Some True \<or> \<not> has_bad_block_nacks_resolved s
                      then pr_emit [SendForValidation b] st else st) in
           case pe_get_optimistic_state env parent thread_id of
             StateMissing \<Rightarrow> Panic ''Failed to load optimistic state for parent block''
           | BlockNotFound \<Rightarrow> Ok (False, st')
           | MinStateLimitReached \<Rightarrow> pr_invalidate b st'
           | LookupFailed \<Rightarrow> Bail ''get_optimistic_state''
           | StateFound optimistic_state \<Rightarrow>
               (case pe_apply_block env optimistic_state (env_data candidate) of
                  None \<Rightarrow> pr_invalidate b st'
                | Some _ \<Rightarrow> after_apply env candidate b parent seq_no thread_id height st'))))))"

section \<open>The whole processing\<close>

definition process_candidate_block ::
    "'s processor_env \<Rightarrow> block_envelope \<Rightarrow> block_identifier \<Rightarrow> processor_state \<Rightarrow> processor_state outcome" where
  "process_candidate_block env candidate b st =
     (let s = pr_get st b in
      case (bs_block_seq_no s, bs_parent_block_identifier s) of
        (Some seq_no, Some parent) \<Rightarrow>
          (if is_invalidated s \<or> is_finalized s then Ok st
           else
             obind (and_then (bk_set_stage b parent)
                   (and_then (ancestors_stage b parent)
                   (and_then (\<lambda>st. Ok (is_stored (pr_get st b), st))
                   (and_then (common_checks_stage env candidate b parent)
                   (and_then (signatures_stage env candidate b)
                   (and_then (descendant_bk_set_stage candidate b)
                   (and_then (consensus_params_stage env b parent)
                   (and_then (attestations_stage candidate b parent)
                   (and_then (cross_refs_stage candidate b)
                             (apply_stage env candidate b parent seq_no))))))))) st)
               (\<lambda>(_, st'). Ok st'))
      | _ \<Rightarrow> Ok st)"

section \<open>A block is applied only after all checks\<close>

lemma pr_get_put [simp]: "pr_get (pr_put b s st) x = (if x = b then s else pr_get st x)"
  by (simp add: pr_get_def pr_put_def)

lemma pr_get_emit [simp]: "pr_get (pr_emit es st) x = pr_get st x"
  by (simp add: pr_get_def pr_emit_def)

lemma pr_get_other [simp]:
  "pr_get (st\<lparr>pr_shutdown := d\<rparr>) x = pr_get st x" "pr_get (st\<lparr>pr_ref_data := r\<rparr>) x = pr_get st x"
  "pr_get (st\<lparr>pr_repo := repo\<rparr>) x = repo_get repo x"
  by (simp_all add: pr_get_def)

lemma and_then_Ok:
  "and_then f g st = Ok (go, st'') \<longleftrightarrow>
     f st = Ok (False, st'') \<and> \<not> go \<or> (\<exists>st'. f st = Ok (True, st') \<and> g st' = Ok (go, st''))"
  by (cases "f st") (auto simp: and_then_def split: if_splits)

text \<open>
  The facts of a block that a stage may add but never takes back; whether the block is applied or
  invalidated is left alone.
\<close>

definition grown :: "block_state \<Rightarrow> block_state \<Rightarrow> bool" where
  "grown s s' =
     (bs_applied s' = bs_applied s \<and> bs_invalidated s' = bs_invalidated s \<and>
      (bs_stored s \<noteq> None \<longrightarrow> bs_stored s' = bs_stored s) \<and>
      (bs_common_checks_passed s \<noteq> None \<longrightarrow> bs_common_checks_passed s' = bs_common_checks_passed s) \<and>
      (bs_signatures_verified s \<noteq> None \<longrightarrow> bs_signatures_verified s' = bs_signatures_verified s) \<and>
      (bs_has_all_cross_thread_ref_data_available s \<noteq> None \<longrightarrow>
         bs_has_all_cross_thread_ref_data_available s' = bs_has_all_cross_thread_ref_data_available s) \<and>
      (bs_bk_set s \<noteq> None \<longrightarrow> bs_bk_set s' = bs_bk_set s))"

lemma grown_refl [simp]: "grown s s"
  by (simp add: grown_def)

lemma grown_trans: "grown s t \<Longrightarrow> grown t u \<Longrightarrow> grown s u"
  by (auto simp: grown_def)

lemma grown_facts: "processing_facts s' = processing_facts s \<Longrightarrow> grown s s'"
  by (simp add: grown_def processing_facts_def)

lemma grown_notify [simp]: "grown s (notify_changed t) \<longleftrightarrow> grown s t"
  by (simp add: grown_def notify_changed_def)

lemma set_once_grown:
  assumes "set_once f u v s = Ok t" and "f s = None \<Longrightarrow> grown s (u (\<lambda>_. Some v) s)"
  shows "grown s t"
  using assms unfolding set_once_Ok by (auto split: if_splits)

lemma set_again_grown: "grown s (u (\<lambda>_. Some v) s) \<Longrightarrow> grown s (set_again f u v s)"
  by (simp add: set_again_def)

lemma setters_grown:
  "set_bk_set bk s = Ok t \<Longrightarrow> grown s t" "set_future_bk_set bk s = Ok t \<Longrightarrow> grown s t"
  "set_descendant_bk_set bk s = Ok t \<Longrightarrow> grown s t" "set_descendant_future_bk_set bk s = Ok t \<Longrightarrow> grown s t"
  "set_ancestors as s = Ok t \<Longrightarrow> grown s t" "set_common_checks_passed s = Ok t \<Longrightarrow> grown s t"
  "set_signatures_verified s = Ok t \<Longrightarrow> grown s t" "set_producer p s = Ok t \<Longrightarrow> grown s t"
  "set_attestation_target a s = Ok t \<Longrightarrow> grown s t" "set_block_stats d s = Ok t \<Longrightarrow> grown s t"
  "set_has_all_cross_thread_ref_data_available s = Ok t \<Longrightarrow> grown s t"
  by (erule set_once_grown; simp add: grown_def)+

lemma set_duty_grown:
  "grown s (set_must_be_validated s)" "grown s (set_must_be_validated_in_fallback_case s)"
  by (rule set_again_grown; simp add: grown_def)+

definition stage_ok :: "stage \<Rightarrow> bool" where
  "stage_ok f = (\<forall>st go st' x. f st = Ok (go, st') \<longrightarrow>
     bs_applied (pr_get st' x) = bs_applied (pr_get st x) \<and> (go \<longrightarrow> grown (pr_get st x) (pr_get st' x)))"

lemma stage_okI:
  "(\<And>st go st' x. f st = Ok (go, st') \<Longrightarrow> go \<Longrightarrow> grown (pr_get st x) (pr_get st' x)) \<Longrightarrow>
   (\<And>st st' x. f st = Ok (False, st') \<Longrightarrow> bs_applied (pr_get st' x) = bs_applied (pr_get st x)) \<Longrightarrow> stage_ok f"
  unfolding stage_ok_def by (metis (full_types) grown_def)

lemma stage_ok_applied:
  "stage_ok f \<Longrightarrow> f st = Ok (go, st') \<Longrightarrow> bs_applied (pr_get st' x) = bs_applied (pr_get st x)"
  by (simp add: stage_ok_def)

lemma stage_ok_grown: "stage_ok f \<Longrightarrow> f st = Ok (True, st') \<Longrightarrow> grown (pr_get st x) (pr_get st' x)"
  by (simp add: stage_ok_def)

lemma invalidate_branch_applied:
  assumes "invalidate_branch root repo = Ok repo'"
  shows "bs_applied (repo_get repo' x) = bs_applied (repo_get repo x)"
  by (cases rule: invalidate_branch_cases [of root repo])
    (use assms in \<open>auto simp: set_invalidated_def notify_changed_def\<close>)

lemma pr_invalidate_applied:
  "pr_invalidate b st = Ok (go, st') \<Longrightarrow> \<not> go \<and> bs_applied (pr_get st' x) = bs_applied (pr_get st x)"
  using invalidate_branch_applied by (auto simp: pr_invalidate_def pr_get_def)

lemma put_bk_sets_result:
  assumes "put_bk_sets bk fut s = Ok t"
  shows "grown s t" "bs_bk_set t = Some bk"
proof -
  obtain s1 where s1: "set_bk_set bk s = Ok s1" "(if bs_future_bk_set s1 = None then set_future_bk_set fut s1 else Ok s1) = Ok t"
    using assms by (auto simp: put_bk_sets_def)
  have g: "grown s1 t" using s1(2) setters_grown(2) by (cases "bs_future_bk_set s1") auto
  then show "grown s t" using setters_grown(1) [OF s1(1)] by (rule grown_trans [rotated])
  have "bs_bk_set s1 = Some bk" using s1(1) by (auto simp: set_once_Ok notify_changed_def split: if_splits)
  then show "bs_bk_set t = Some bk" using g by (simp add: grown_def)
qed

lemma stage_ok_bk_set: "stage_ok (bk_set_stage b parent)"
proof (rule stage_okI)
  fix st go st' x
  assume f: "bk_set_stage b parent st = Ok (go, st')" and go
  have "grown (repo_get repo x) (repo_get repo' x)" if r: "rule_set_bk_set b repo = Ok (True, repo')" for repo repo'
    using r
    by (auto simp: rule_set_bk_set_def Let_def dest: put_bk_sets_result(1) split: option.splits if_splits)
  with f \<open>go\<close> show "grown (pr_get st x) (pr_get st' x)"
    by (auto simp: bk_set_stage_def pr_get_def split: if_splits)
next
  fix st st' x
  assume "bk_set_stage b parent st = Ok (False, st')"
  then show "bs_applied (pr_get st' x) = bs_applied (pr_get st x)"
    by (auto simp: bk_set_stage_def rule_set_bk_set_def Let_def pr_get_def split: option.splits if_splits)
qed

lemma stage_ok_ancestors: "stage_ok (ancestors_stage b parent)"
  by (rule stage_okI) (auto simp: ancestors_stage_def dest: setters_grown split: option.splits)

lemma stage_ok_common_checks: "stage_ok (common_checks_stage env candidate b parent)"
proof (rule stage_okI, goal_cases)
  case (1 st go st' x)
  then show ?case by (auto simp: common_checks_stage_def dest: setters_grown split: if_splits)
next
  case (2 st st' x)
  then show ?case by (auto simp: common_checks_stage_def dest: pr_invalidate_applied split: if_splits)
qed

lemma record_attestation_processing [simp]: "processing_facts (fold record_attestation as s) = processing_facts s"
proof (induction as arbitrary: s)
  case (Cons a as)
  have "processing_facts (record_attestation a s) = processing_facts s"
    by (simp add: processing_facts_def record_attestation_def add_verified_attestations_for_def Let_def notify_changed_def)
  then show ?case by (simp add: Cons.IH)
qed simp

lemma verify_producer_signature_processing:
  assumes "verify_producer_signature bls candidate b repo = Ok (v, repo')"
  shows "processing_facts (repo_get repo' x) = processing_facts (repo_get repo x)"
  using assms
  by (auto simp: verify_producer_signature_def processing_facts_def Let_def set_once_Ok notify_changed_def
      split: option.splits if_splits outcome.splits)

lemma verify_all_processing:
  assumes "verify_all_block_signatures block_bls bls candidate b skipped repo = Ok (v, repo')"
  shows "processing_facts (repo_get repo' x) = processing_facts (repo_get repo x)"
proof -
  obtain w repo1 where r1: "verify_producer_signature block_bls candidate b repo = Ok (w, repo1)"
    using assms by (auto simp: verify_all_block_signatures_def)
  have "processing_facts (repo_get repo' x) = processing_facts (repo_get repo1 x)"
    using assms r1 by (auto simp: verify_all_block_signatures_def Let_def split: if_splits option.splits)
  then show ?thesis using verify_producer_signature_processing [OF r1] by simp
qed

lemma mark_signatures_verified_grown:
  assumes "mark_signatures_verified p s = Ok t"
  shows "grown s t" "is_signatures_verified t"
proof -
  obtain s1 where s1: "set_signatures_verified s = Ok s1" "(if bs_producer s1 = None then set_producer p s1 else Ok s1) = Ok t"
    using assms by (auto simp: mark_signatures_verified_def)
  have g: "grown s1 t" using s1(2) setters_grown(8) by (cases "bs_producer s1") auto
  then show "grown s t" using setters_grown(7) [OF s1(1)] by (rule grown_trans [rotated])
  have "bs_signatures_verified s1 = Some True"
    using s1(1) by (auto simp: set_once_Ok notify_changed_def split: if_splits)
  then show "is_signatures_verified t" using g by (simp add: is_signatures_verified_def grown_def)
qed

lemma stage_ok_signatures: "stage_ok (signatures_stage env candidate b)"
proof -
  have *: "bs_applied (pr_get st' x) = bs_applied (pr_get st x) \<and> (go \<longrightarrow> grown (pr_get st x) (pr_get st' x))"
    if a: "signatures_stage env candidate b st = Ok (go, st')" for st go st' x
  proof -
    obtain v repo1 where r1: "verify_all_block_signatures (pe_block_bls env) (pe_attestation_bls env) candidate b
        (pe_skipped_attestation_ids env) (pr_repo st) = Ok (v, repo1)"
      using a unfolding signatures_stage_def obind_eq_Ok by (metis surj_pair)
    let ?st = "st\<lparr>pr_repo := repo1\<rparr>"
    have g: "grown (pr_get st y) (pr_get ?st y)" for y
      using verify_all_processing [OF r1] by (simp add: pr_get_def grown_facts)
    have tail: "(case v of None \<Rightarrow> Ok (False, ?st) | Some False \<Rightarrow> pr_invalidate b ?st
        | Some True \<Rightarrow> (if is_signatures_verified (repo_get repo1 b) then Ok (True, ?st)
            else obind (mark_signatures_verified (cs_producer_id (ab_common_section (env_data candidate))) (repo_get repo1 b))
              (\<lambda>s'. Ok (True, pr_put b s' ?st)))) = Ok (go, st')"
      using a r1 by (simp add: signatures_stage_def Let_def)
    consider "st' = ?st" | "pr_invalidate b ?st = Ok (go, st')"
      | p s2 where "mark_signatures_verified p (repo_get repo1 b) = Ok s2" "st' = pr_put b s2 ?st"
      using tail by (auto split: option.splits bool.splits if_splits)
    then show ?thesis
    proof cases
      case 3
      then have "grown (repo_get repo1 b) s2" using mark_signatures_verified_grown(1) by blast
      then have "grown (pr_get ?st x) (pr_get st' x)" using 3(2) by simp
      then have "grown (pr_get st x) (pr_get st' x)" using g grown_trans by blast
      then show ?thesis by (simp add: grown_def)
    next
      case 2
      then show ?thesis using pr_invalidate_applied [OF 2] g [of x] by (simp add: grown_def)
    qed (use g [of x] in \<open>simp_all add: grown_def\<close>)
  qed
  then show ?thesis unfolding stage_ok_def by blast
qed

lemma stage_ok_descendant: "stage_ok (descendant_bk_set_stage candidate b)"
proof -
  have put: "grown s t" if "put_descendants bk fut s = Ok t" for bk fut s t
    using that by (auto simp: put_descendants_def dest!: setters_grown(3,4) intro: grown_trans split: if_splits)
  have "grown s t" if "rule_set_descendant_bk_set block s = Ok t" for block s t
    using that put by (auto simp: rule_set_descendant_bk_set_def split: if_splits option.splits prod.splits)
  then show ?thesis
    by (intro stage_okI) (auto simp: descendant_bk_set_stage_def Let_def split: if_splits)
qed

lemma validation_duty_grown: "validation_duty env bk shutdown s = Ok (shutdown', t) \<Longrightarrow> grown s t"
  using set_duty_grown by (auto simp: validation_duty_def Let_def split: option.splits if_splits)

lemma put_attestation_target_grown: "put_attestation_target n median p s = Ok t \<Longrightarrow> grown s t"
  by (auto simp: put_attestation_target_def Let_def dest: setters_grown(9) split: if_splits)

lemma consensus_params_steps:
  assumes "consensus_params_stage env b parent st = Ok (go, st')" and "st' \<noteq> st"
  obtains bk parent_stats distances cur sd s1 s2 s3 where
    "bs_block_stats (pr_get st b) = None" "bs_bk_set (pr_get st b) = Some bk"
    "bs_block_stats (pr_get st parent) = Some parent_stats"
    "finalized_distances (pr_repo st) parent = Ok (Some distances)"
    "block_statistics_next distances None parent_stats = Some cur"
    "validation_duty env bk (pr_shutdown st) (pr_get st b) = Ok (sd, s1)"
    "put_attestation_target (bk_set_len bk) (median_descendants_chain_length cur) (pr_get st parent) s1 = Ok s2"
    "(if bs_block_stats s2 = None then set_block_stats cur s2 else Ok s2) = Ok s3"
    "st' = pr_put b s3 (st\<lparr>pr_shutdown := sd\<rparr>)"
  using assms unfolding consensus_params_stage_def Let_def by (auto split: option.splits intro: that)

lemma stage_ok_consensus_params: "stage_ok (consensus_params_stage env b parent)"
proof (rule stage_okI, goal_cases)
  case (1 st go st' x)
  show ?case
  proof (cases "st' = st")
    case False
    show ?thesis
    proof (rule consensus_params_steps [OF 1(1) False], goal_cases)
      case (1 bk parent_stats distances cur sd s1 s2 s3)
      have "grown s2 s3" using 1(8) setters_grown(10) by (cases "bs_block_stats s2") auto
      then have "grown (pr_get st b) s3"
        using validation_duty_grown [OF 1(6)] put_attestation_target_grown [OF 1(7)] grown_trans by blast
      then show ?case by (simp add: 1(9))
    qed
  qed simp
next
  case (2 st st' x)
  then show ?case by (auto simp: consensus_params_stage_def Let_def split: option.splits)
qed

lemma stage_ok_attestations: "stage_ok (attestations_stage candidate b parent)"
proof (rule stage_okI, goal_cases)
  case (1 st go st' x)
  then show ?case
    by (auto simp: attestations_stage_def pr_get_def pr_emit_def dest: facts.process_keeps intro!: grown_facts)
next
  case (2 st st' x)
  then obtain repo' effects where p: "process_block_attestations candidate b parent (pr_repo st) = Ok (False, repo', effects)"
    and st': "st' = pr_emit effects (st\<lparr>pr_repo := repo'\<rparr>)" by (auto simp: attestations_stage_def)
  have "repo' = pr_repo st \<or> invalidate_branch b (pr_repo st) = Ok repo'"
    using p by (auto simp: process_block_attestations_def Let_def split: if_splits outcome.splits prod.splits)
  then show ?case using invalidate_branch_applied by (auto simp: st' pr_get_def pr_emit_def)
qed

lemma stage_ok_cross_refs: "stage_ok (cross_refs_stage candidate b)"
  by (rule stage_okI) (auto simp: cross_refs_stage_def Let_def dest: setters_grown(11) split: if_splits)

lemma stage_ok_and_then: "stage_ok f \<Longrightarrow> stage_ok g \<Longrightarrow> stage_ok (and_then f g)"
  unfolding stage_ok_def and_then_Ok by (metis grown_trans)

lemma stage_ok_stored: "stage_ok (\<lambda>st. Ok (is_stored (pr_get st b), st))"
  by (simp add: stage_ok_def)

text \<open>What a stage that lets the processing go on has established for the block.\<close>

lemma bk_set_established: "bk_set_stage b parent st = Ok (True, st') \<Longrightarrow> bs_bk_set (pr_get st' b) \<noteq> None"
proof (cases "bs_bk_set (pr_get st b)")
  case None
  assume "bk_set_stage b parent st = Ok (True, st')"
  then have "rule_set_bk_set b (pr_repo st) = Ok (True, pr_repo st')"
    using None by (auto simp: bk_set_stage_def split: if_splits)
  then show ?thesis
    using None put_bk_sets_result(2)
    by (auto simp: rule_set_bk_set_def Let_def pr_get_def split: option.splits if_splits dest!: sym [of "repo_set _ _ _"])
qed (auto simp: bk_set_stage_def)

lemma common_checks_established:
  "common_checks_stage env candidate b parent st = Ok (True, st') \<Longrightarrow> bs_common_checks_passed (pr_get st' b) = Some True"
  by (auto simp: common_checks_stage_def set_once_Ok notify_changed_def dest: pr_invalidate_applied split: if_splits)

lemma cross_refs_established:
  "cross_refs_stage candidate b st = Ok (True, st') \<Longrightarrow> bs_has_all_cross_thread_ref_data_available (pr_get st' b) \<noteq> None"
  by (auto simp: cross_refs_stage_def Let_def set_once_Ok notify_changed_def split: if_splits)

lemma signatures_established:
  assumes "signatures_stage env candidate b st = Ok (True, st')"
  shows "is_signatures_verified (pr_get st' b)"
proof -
  obtain v repo1 where r1: "verify_all_block_signatures (pe_block_bls env) (pe_attestation_bls env) candidate b
      (pe_skipped_attestation_ids env) (pr_repo st) = Ok (v, repo1)"
    using assms unfolding signatures_stage_def obind_eq_Ok by (metis surj_pair)
  let ?st = "st\<lparr>pr_repo := repo1\<rparr>"
  have tail: "(case v of None \<Rightarrow> Ok (False, ?st) | Some False \<Rightarrow> pr_invalidate b ?st
      | Some True \<Rightarrow> (if is_signatures_verified (repo_get repo1 b) then Ok (True, ?st)
          else obind (mark_signatures_verified (cs_producer_id (ab_common_section (env_data candidate))) (repo_get repo1 b))
            (\<lambda>s'. Ok (True, pr_put b s' ?st)))) = Ok (True, st')"
    using assms r1 by (simp add: signatures_stage_def Let_def)
  then show ?thesis
    using mark_signatures_verified_grown(2)
    by (auto dest: pr_invalidate_applied split: option.splits bool.splits if_splits)
qed

lemma after_apply_result:
  assumes "after_apply env candidate b parent seq_no thread_id height st = Ok (go, st')"
  shows "\<exists>t. (\<forall>x. pr_get st' x = (if x = b then t else pr_get st x)) \<and>
    t = set_has_cross_thread_ref_data_prepared (set_applied (pr_get st b))"
  using assms by (auto simp: after_apply_def Let_def)

text \<open>How a block becomes applied: this node produced it, or the state of its parent took it.\<close>

definition application_justified ::
    "'s processor_env \<Rightarrow> acki_nacki_block \<Rightarrow> block_identifier \<Rightarrow> block_state \<Rightarrow> bool" where
  "application_justified env block parent s =
     (bs_producer s = Some (pe_node_id env) \<or>
      (\<exists>thread_id os os'. bs_thread_identifier s = Some thread_id \<and>
         pe_get_optimistic_state env parent thread_id = StateFound os \<and> pe_apply_block env os block = Some os'))"

lemma set_applied_facts:
  "bs_applied (set_applied s) = Some True"
  "processing_facts (set_applied s) = processing_facts (s\<lparr>bs_applied := Some True\<rparr>)"
  by (auto simp: set_applied_def processing_facts_def notify_changed_def)

lemma application_justified_cong:
  "bs_producer s' = bs_producer s \<Longrightarrow> bs_thread_identifier s' = bs_thread_identifier s \<Longrightarrow>
   application_justified env block parent s' = application_justified env block parent s"
  by (simp add: application_justified_def)

lemma set_applied_justified [simp]:
  "application_justified env block parent (set_applied s) = application_justified env block parent s"
  "application_justified env block parent (set_has_cross_thread_ref_data_prepared s) = application_justified env block parent s"
  by (rule application_justified_cong; simp add: set_applied_def set_again_def notify_changed_def)+

lemma apply_stage_applied:
  assumes "apply_stage env candidate b parent seq_no st = Ok (go, st')"
    and "\<not> is_block_already_applied (pr_get st b)" and "is_block_already_applied (pr_get st' b)"
  shows "is_block_already_applied (pr_get st' parent) \<and> application_justified env (env_data candidate) parent (pr_get st' b) \<and>
    processing_facts (pr_get st' b) = processing_facts ((pr_get st b)\<lparr>bs_applied := Some True\<rparr>)"
proof -
  let ?s = "pr_get st b"
  have p: "is_block_already_applied (pr_get st parent)"
    by (rule ccontr) (use assms in \<open>simp add: apply_stage_def Let_def\<close>)
  then have ne: "parent \<noteq> b" using assms(2) by auto
  obtain thread producer height where t: "bs_thread_identifier ?s = Some thread" "bs_producer ?s = Some producer"
    "bs_block_height ?s = Some height"
    using assms(1,2) p
    by (cases "bs_thread_identifier ?s"; cases "bs_producer ?s"; cases "bs_block_height ?s")
      (simp_all add: apply_stage_def Let_def)
  define st1 where "st1 = (if bs_must_be_validated ?s = Some True \<or> \<not> has_bad_block_nacks_resolved ?s
      then pr_emit [SendForValidation b] st else st)"
  have st1: "pr_get st1 x = pr_get st x" for x by (simp add: st1_def)
  have "apply_stage env candidate b parent seq_no st = (if producer = pe_node_id env \<and> apply_can_be_skipped ?s
      then Ok (False, pr_emit [BlockApplied thread (Some height)] (pr_put b (set_applied ?s) st))
      else case pe_get_optimistic_state env parent thread of
             StateMissing \<Rightarrow> Panic ''Failed to load optimistic state for parent block''
           | BlockNotFound \<Rightarrow> Ok (False, st1)
           | MinStateLimitReached \<Rightarrow> pr_invalidate b st1
           | LookupFailed \<Rightarrow> Bail ''get_optimistic_state''
           | StateFound optimistic_state \<Rightarrow>
               (case pe_apply_block env optimistic_state (env_data candidate) of
                  None \<Rightarrow> pr_invalidate b st1
                | Some _ \<Rightarrow> after_apply env candidate b parent seq_no thread height st1))"
    unfolding apply_stage_def Let_def st1_def by (simp add: assms(2) p t)
  note tail = this [unfolded assms(1), symmetric]
  have inv: "pr_invalidate b st1 \<noteq> Ok (go, st')"
    using pr_invalidate_applied [of b st1 go st' b] assms(2,3) by (auto simp: st1 is_block_already_applied_def)
  have st1': "st' \<noteq> st1" using assms(2,3) by (auto simp: st1)
  consider "producer = pe_node_id env" "apply_can_be_skipped ?s"
      "st' = pr_emit [BlockApplied thread (Some height)] (pr_put b (set_applied ?s) st)"
    | os os' where "pe_get_optimistic_state env parent thread = StateFound os"
      "pe_apply_block env os (env_data candidate) = Some os'"
      "after_apply env candidate b parent seq_no thread height st1 = Ok (go, st')"
    using tail inv st1' by (auto split: if_splits state_lookup.splits option.splits)
  then show ?thesis
  proof cases
    case 1
    have "application_justified env (env_data candidate) parent ?s"
      using 1(1) t(2) by (simp add: application_justified_def)
    then show ?thesis using 1 p ne set_applied_facts by simp
  next
    case 2
    have j: "application_justified env (env_data candidate) parent ?s"
      unfolding application_justified_def using 2(1,2) t(1) by blast
    let ?t = "set_has_cross_thread_ref_data_prepared (set_applied ?s)"
    have get: "pr_get st' x = (if x = b then ?t else pr_get st x)" for x
      using after_apply_result [OF 2(3)] by (auto simp: st1)
    have "processing_facts ?t = processing_facts (set_applied ?s)"
      by (rule set_again_frame) (simp_all add: processing_facts_def notify_changed_def)
    then show ?thesis using j p ne get set_applied_facts by simp
  qed
qed

lemma and_then_assoc: "and_then (and_then f g) h = and_then f (and_then g h)"
proof
  fix st
  show "and_then (and_then f g) h st = and_then f (and_then g h) st"
    by (cases "f st") (auto simp: and_then_def)
qed

definition checking_stages ::
    "'s processor_env \<Rightarrow> block_envelope \<Rightarrow> block_identifier \<Rightarrow> block_identifier \<Rightarrow> stage" where
  "checking_stages env candidate b parent =
     and_then (bk_set_stage b parent)
    (and_then (ancestors_stage b parent)
    (and_then (\<lambda>st. Ok (is_stored (pr_get st b), st))
    (and_then (common_checks_stage env candidate b parent)
    (and_then (signatures_stage env candidate b)
    (and_then (descendant_bk_set_stage candidate b)
    (and_then (consensus_params_stage env b parent)
    (and_then (attestations_stage candidate b parent)
              (cross_refs_stage candidate b))))))))"

lemmas stages_ok = stage_ok_bk_set stage_ok_ancestors stage_ok_stored stage_ok_common_checks stage_ok_signatures
  stage_ok_descendant stage_ok_consensus_params stage_ok_attestations stage_ok_cross_refs

lemma stage_ok_checking: "stage_ok (checking_stages env candidate b parent)"
  unfolding checking_stages_def by (intro stage_ok_and_then stages_ok)

lemma checking_established:
  assumes "checking_stages env candidate b parent st = Ok (True, st')"
  shows "is_stored (pr_get st' b) \<and> bs_bk_set (pr_get st' b) \<noteq> None \<and>
    bs_common_checks_passed (pr_get st' b) = Some True \<and> is_signatures_verified (pr_get st' b) \<and>
    bs_has_all_cross_thread_ref_data_available (pr_get st' b) \<noteq> None"
proof -
  obtain st1 st2 st3 st4 st5 st6 st7 where
    s: "bk_set_stage b parent st = Ok (True, st1)" "ancestors_stage b parent st1 = Ok (True, st2)"
      "is_stored (pr_get st2 b)" "common_checks_stage env candidate b parent st2 = Ok (True, st3)"
      "signatures_stage env candidate b st3 = Ok (True, st4)" "descendant_bk_set_stage candidate b st4 = Ok (True, st5)"
      "consensus_params_stage env b parent st5 = Ok (True, st6)" "attestations_stage candidate b parent st6 = Ok (True, st7)"
      "cross_refs_stage candidate b st7 = Ok (True, st')"
    using assms unfolding checking_stages_def by (auto simp: and_then_Ok)
  note g1 = stage_ok_grown [OF stage_ok_ancestors s(2), of b] and g2 = stage_ok_grown [OF stage_ok_common_checks s(4), of b]
    and g3 = stage_ok_grown [OF stage_ok_signatures s(5), of b] and g4 = stage_ok_grown [OF stage_ok_descendant s(6), of b]
    and g5 = stage_ok_grown [OF stage_ok_consensus_params s(7), of b]
    and g6 = stage_ok_grown [OF stage_ok_attestations s(8), of b] and g7 = stage_ok_grown [OF stage_ok_cross_refs s(9), of b]
  have g47: "grown (pr_get st4 b) (pr_get st' b)" using g4 g5 g6 g7 by (blast intro: grown_trans)
  have g37: "grown (pr_get st3 b) (pr_get st' b)" using g3 g47 by (rule grown_trans)
  have g27: "grown (pr_get st2 b) (pr_get st' b)" using g2 g37 by (rule grown_trans)
  have g17: "grown (pr_get st1 b) (pr_get st' b)" using g1 g27 by (rule grown_trans)
  show ?thesis
    using bk_set_established [OF s(1)] common_checks_established [OF s(4)] signatures_established [OF s(5)]
      cross_refs_established [OF s(9)] s(3) g47 g37 g27 g17
    by (auto simp: grown_def is_stored_def is_signatures_verified_def)
qed


section \<open>Bounds of the attestation targets\<close>

interpretation fallback_quorum: majority fallback_attestation_target
  by unfold_locales (simp add: fallback_attestation_target_def)

lemma target_counts:
  "2 * n \<le> 3 * primary_attestation_target n" "primary_attestation_target n \<le> n"
  "n < 2 * fallback_attestation_target n" "n < primary_attestation_target n + fallback_attestation_target n"
proof -
  show p: "2 * n \<le> 3 * primary_attestation_target n"
    using div_ceil_ge [of 3 "2 * n"] by (simp add: primary_attestation_target_def)
  show "primary_attestation_target n \<le> n"
    unfolding primary_attestation_target_def div_ceil_def by presburger
  show "n < 2 * fallback_attestation_target n" by (rule fallback_quorum.above_half)
  show "n < primary_attestation_target n + fallback_attestation_target n"
    using p unfolding fallback_attestation_target_def by presburger
qed

lemma descendant_generations_bounds:
  assumes "0 < median" and "d \<le> max_attestation_target_beta"
  shows "0 < descendant_generations median d" and "descendant_generations median d \<le> max_attestation_target_beta"
  using assms by (auto simp: descendant_generations_def max_attestation_target_beta_def)

lemma set_duty_target:
  "bs_attestation_target (set_must_be_validated s) = bs_attestation_target s"
  "bs_attestation_target (set_must_be_validated_in_fallback_case s) = bs_attestation_target s"
  by (rule set_again_frame; simp add: notify_changed_def)+

lemma validation_duty_target: "validation_duty env bk sd s = Ok (sd', t) \<Longrightarrow> bs_attestation_target t = bs_attestation_target s"
  using set_duty_target by (auto simp: validation_duty_def Let_def split: option.splits if_splits)

lemma statistics_next_median: "block_statistics_next ds w s = Some s' \<Longrightarrow> 0 < median_descendants_chain_length s'"
  by (auto simp: block_statistics_next_def Let_def split: option.splits if_splits)


section \<open>Two quorums of attestations share a keeper\<close>

lemma verified_signers_are_keepers:
  assumes "verify_signatures bls a (get_pubkeys_by_signers bk) = Ok True" and "bk_keys_ok bk"
    and "0 \<notin> snd ` set (signature_occurrences a)"
  shows "set (signers a) \<subseteq> dom (hm_get (by_signer bk))"
proof
  fix i
  assume "i \<in> set (signers a)"
  then obtain n where n: "(i, n) \<in> set (signature_occurrences a)" by (auto simp: signers_def hm_keys_def simp del: hm_keys_set)
  have "collect_pubkeys (get_pubkeys_by_signers bk) (signature_occurrences a) \<noteq> None"
    using assms(1)
    by (cases "collect_pubkeys (get_pubkeys_by_signers bk) (signature_occurrences a)") (simp_all add: verify_signatures_def)
  then have "hm_get (get_pubkeys_by_signers bk) i \<noteq> None"
    using n assms(3) unfolding collect_pubkeys_known known_signers_def by force
  then show "i \<in> dom (hm_get (by_signer bk))"
    using assms(2) by (auto simp: get_pubkeys_by_signers_def bk_keys_ok_def)
qed

lemma card_keepers: "bk_keys_ok bk \<Longrightarrow> card (dom (hm_get (by_signer bk))) = bk_set_len bk"
  unfolding bk_keys_ok_def bk_set_len_def
  by (metis hm_keys_set hm_wf_def hm_keys_def hm_len_def distinct_card length_map)


definition quorum_attestation :: "bytes envelope" where
  "quorum_attestation = envelope_create [1, 2] [(1, 1), (2, 1)] [7]"


section \<open>A block on its way\<close>

text \<open>A processor for which every block applies, and the repository of the example of attestations.\<close>

definition example_processor :: "unit processor_env" where
  "example_processor = \<lparr>pe_node_id = replicate 32 9, pe_save_state_frequency = 1, pe_bls_keys_map = [],
     pe_block_bls = keyring_bls, pe_attestation_bls = keyring_bls, pe_codec = example_codec, pe_shuffle = (\<lambda>_ l. l),
     pe_skipped_attestation_ids = [], pe_at_most_v = (\<lambda>_ _ _. True), pe_get_optimistic_state = (\<lambda>_ _. StateFound ()),
     pe_apply_block = (\<lambda>_ _. Some ()), pe_full_state_known = (\<lambda>_ _. False), pe_storage = (\<lambda>_. True)\<rparr>"

definition processing_repo :: block_repo where
  "processing_repo =
     [([1], (repo_get attesting_repo [1])\<lparr>bs_applied := Some True, bs_finalizes_blocks := Some [],
        bs_parent_block_identifier := Some [0], bs_block_stats := Some (block_statistics_zero 3 5),
        bs_attestation_target := Some example_target\<rparr>),
      ([2], (block_state_new [2])\<lparr>bs_thread_identifier := Some [0], bs_bk_set := Some example_bk_set,
        bs_block_seq_no := Some 2, bs_parent_block_identifier := Some [1], bs_stored := Some True,
        bs_common_checks_passed := Some True, bs_block_height := Some \<lparr>bh_thread_identifier = [0], bh_height = 2\<rparr>\<rparr>)]"

definition processing_state :: processor_state where
  "processing_state = \<lparr>pr_repo = processing_repo, pr_ref_data = [], pr_shutdown = False, pr_effects = []\<rparr>"

definition processed_state :: processor_state where
  "processed_state = (case process_candidate_block example_processor example_candidate [2] processing_state of
     Ok st \<Rightarrow> st | _ \<Rightarrow> processing_state)"

definition measured_state :: processor_state where
  "measured_state = (case consensus_params_stage example_processor [2] [1] processing_state of
     Ok (_, st) \<Rightarrow> st | _ \<Rightarrow> processing_state)"

lemma processed_state:
  "process_candidate_block example_processor example_candidate [2] processing_state = Ok processed_state"
  by code_simp

lemma processed_applied:
  "\<not> is_block_already_applied (pr_get processing_state [2])" "is_block_already_applied (pr_get processed_state [2])"
  by code_simp+


lemma measured_target:
  "consensus_params_stage example_processor [2] [1] processing_state = Ok (True, measured_state)"
  "bs_attestation_target (pr_get processing_state [2]) = None"
  "bs_attestation_target (pr_get processing_state [1]) = Some example_target"
  "bs_attestation_target (pr_get measured_state [2]) =
     Some \<lparr>at_primary = \<lparr>generation_deadline = 5, required_attestation_count = 2\<rparr>,
       at_fallback = \<lparr>generation_deadline = 11, required_attestation_count = 2\<rparr>\<rparr>"
  by code_simp+


end
