(* ===== verification/Collected_Attestations.thy ===== *)
theory Collected_Attestations
  imports Block_State
begin

text \<open>
  The attestations a node collects for unfinalized blocks and their aggregation into the attestations
  of the next block (src/node/src/types/attestation/mod.rs, compacted_attestation.rs,
  compacted_map_key.rs). The condition variable that wakes waiting threads is kept as its counter. A
  set of attestations is a list without repetitions; the order of its iteration is not specified by
  the code, and the theorems hold for every order.
\<close>

section \<open>Compacted attestations\<close>

record compacted_map_key =
  cmk_block_seq_no :: block_seq_no
  cmk_block_identifier :: block_identifier
  cmk_attestation_target_type :: attestation_target_type

record compacted_attestation =
  ca_parent_block_id :: block_identifier
  ca_envelope_hash :: bytes
  ca_aggregated_signature :: signature
  ca_signature_occurrences :: "(signer_index \<times> u16) list"
  ca_target_type :: attestation_target_type

definition ca_signers :: "compacted_attestation \<Rightarrow> signer_index list" where
  "ca_signers a = map fst (ca_signature_occurrences a)"

text \<open>A map collected into a \<open>BTreeMap\<close> is listed in ascending order of its keys.\<close>

definition compact :: "attestation \<Rightarrow> compacted_attestation" where
  "compact a =
     \<lparr>ca_parent_block_id = ad_parent_block_id (env_data a), ca_envelope_hash = ad_envelope_hash (env_data a),
      ca_aggregated_signature = aggregated_signature a,
      ca_signature_occurrences = sort_key fst (signature_occurrences a),
      ca_target_type = ad_target_type (env_data a)\<rparr>"

definition expand :: "compacted_attestation \<Rightarrow> compacted_map_key \<Rightarrow> attestation" where
  "expand a k = envelope_create (ca_aggregated_signature a) (hm_from_iter (ca_signature_occurrences a))
     \<lparr>ad_parent_block_id = ca_parent_block_id a, ad_block_id = cmk_block_identifier k,
      ad_block_seq_no = cmk_block_seq_no k, ad_envelope_hash = ca_envelope_hash a, ad_target_type = ca_target_type a\<rparr>"

definition key_of :: "attestation \<Rightarrow> compacted_map_key" where
  "key_of a = \<lparr>cmk_block_seq_no = ad_block_seq_no (env_data a), cmk_block_identifier = ad_block_id (env_data a),
     cmk_attestation_target_type = ad_target_type (env_data a)\<rparr>"

section \<open>The collection\<close>

record collected_attestations =
  compacted_unverified_attestations :: "(compacted_map_key, compacted_attestation list) hmap"
  folded_attestations :: "(compacted_map_key, attestation) hmap"
  ca_cutoff :: block_seq_no
  ca_notifications :: u32

definition collected_attestations_default :: collected_attestations where
  "collected_attestations_default =
     \<lparr>compacted_unverified_attestations = [], folded_attestations = [], ca_cutoff = 0, ca_notifications = 0\<rparr>"

definition ca_touch :: "collected_attestations \<Rightarrow> collected_attestations" where
  "ca_touch c = c\<lparr>ca_notifications := ca_notifications c + 1\<rparr>"

text \<open>The entry of the key is created or extended; the flag tells whether anything was added.\<close>

definition file_attestation :: "attestation \<Rightarrow> collected_attestations \<Rightarrow> bool \<times> collected_attestations" where
  "file_attestation a c =
     (let m = compacted_unverified_attestations c; k = key_of a in
      case hm_get m k of
        Some e \<Rightarrow>
          (compact a \<notin> set e,
           c\<lparr>compacted_unverified_attestations := hm_insert k (List.insert (compact a) e) m\<rparr>)
      | None \<Rightarrow> (True, c\<lparr>compacted_unverified_attestations := hm_insert k [compact a] m\<rparr>))"

definition ca_add :: "bool \<Rightarrow> attestation \<Rightarrow> collected_attestations \<Rightarrow> bool \<times> collected_attestations" where
  "ca_add enable_cutoff a c =
     (if enable_cutoff \<and> ca_cutoff c \<ge> ad_block_seq_no (env_data a) then (False, c)
      else
        (let (is_modified, c') = file_attestation a c
         in (is_modified, if is_modified then ca_touch c' else c')))"

fun file_all :: "attestation list \<Rightarrow> bool \<Rightarrow> collected_attestations \<Rightarrow> bool \<times> collected_attestations" where
  "file_all [] added_smth c = (added_smth, c)"
| "file_all (a # as) added_smth c =
     (let (is_modified, c') = file_attestation a c in file_all as (is_modified \<or> added_smth) c')"

definition add_bunch :: "bool \<Rightarrow> attestation list \<Rightarrow> collected_attestations \<Rightarrow> bool \<times> collected_attestations" where
  "add_bunch enable_cutoff attestations c =
     (let as = (if enable_cutoff then filter (\<lambda>a. ad_block_seq_no (env_data a) > ca_cutoff c) attestations
                else attestations) in
      if as = [] then (False, c)
      else
        (let (added_smth, c') = file_all as False c
         in (added_smth, if added_smth then ca_touch c' else c')))"

definition move_cutoff :: "block_seq_no \<Rightarrow> collected_attestations \<Rightarrow> collected_attestations" where
  "move_cutoff block_seq_no c =
     c\<lparr>ca_cutoff := block_seq_no,
       compacted_unverified_attestations :=
         hm_retain (\<lambda>k _. cmk_block_seq_no k > block_seq_no) (compacted_unverified_attestations c),
       folded_attestations := hm_retain (\<lambda>k _. cmk_block_seq_no k > block_seq_no) (folded_attestations c)\<rparr>"

section \<open>Aggregation\<close>

record aggregate_filter =
  af_attestation_type :: attestation_target_type
  af_min_signatures_inclusive :: nat

definition aggregate_filter_from :: "attestation_target_checkpoint \<Rightarrow> aggregate_filter" where
  "aggregate_filter_from c = \<lparr>af_attestation_type = attestation_target_type c,
     af_min_signatures_inclusive = ckpt_required_attestation_count c\<rparr>"

definition stored_in_state :: "attestation_target_type \<Rightarrow> block_state \<Rightarrow> attestation option" where
  "stored_in_state ty s =
     (case ty of
        Primary \<Rightarrow> (case bs_primary_finalization_proof s of Some a \<Rightarrow> Some a | None \<Rightarrow> bs_prefinalization_proof s)
      | Fallback \<Rightarrow> bs_fallback_finalization_proof s)"

definition enough :: "aggregate_filter \<Rightarrow> attestation option \<Rightarrow> attestation option" where
  "enough f e = (case e of
     Some a \<Rightarrow> if signatures_count a \<ge> af_min_signatures_inclusive f then Some a else None | None \<Rightarrow> None)"

text \<open>The signatures to combine: those folded already and those filed that fit the block.\<close>

definition fitting :: "block_identifier \<Rightarrow> bytes \<Rightarrow> block_keeper_set \<Rightarrow> compacted_attestation \<Rightarrow> bool" where
  "fitting parent envelope_hash bk a =
     (ca_parent_block_id a = parent \<and> ca_envelope_hash a = envelope_hash \<and> list_all (contains_signer bk) (ca_signers a))"

definition to_combine ::
    "attestation option \<Rightarrow> compacted_attestation list \<Rightarrow> (occurrences \<times> signature) list" where
  "to_combine folded_attestation unverified =
     (case folded_attestation of Some e \<Rightarrow> [(signature_occurrences e, aggregated_signature e)] | None \<Rightarrow> []) @
     map (\<lambda>a. (ca_signature_occurrences a, ca_aggregated_signature a)) unverified"

definition fold_new ::
    "attestation_data blst \<Rightarrow> aggregate_filter \<Rightarrow> compacted_map_key \<Rightarrow> attestation_data \<Rightarrow> block_keeper_set \<Rightarrow>
     (occurrences \<times> signature) list \<Rightarrow> collected_attestations \<Rightarrow>
     (attestation option \<times> collected_attestations) outcome" where
  "fold_new bls f k data bk combine c =
     (if card (\<Union>x \<in> set combine. set (map fst (fst x))) < af_min_signatures_inclusive f then Ok (None, c)
      else
        obind (try_fold bls data combine bk) (\<lambda>r.
        case folded r of
          None \<Rightarrow> Ok (None, c)
        | Some new_fold \<Rightarrow>
            Ok (enough f (Some new_fold),
                c\<lparr>folded_attestations := hm_insert k new_fold (folded_attestations c)\<rparr>)))"

definition aggregate_one ::
    "attestation_data blst \<Rightarrow> block_state \<Rightarrow> aggregate_filter \<Rightarrow> collected_attestations \<Rightarrow>
     (attestation option \<times> collected_attestations) outcome" where
  "aggregate_one bls s f c =
     (case enough f (stored_in_state (af_attestation_type f) s) of
        Some a \<Rightarrow> Ok (Some a, c)
      | None \<Rightarrow>
          (case (bs_block_seq_no s, bs_parent_block_identifier s) of
             (None, _) \<Rightarrow> Bail ''BlockSeqNo is missing''
           | (_, None) \<Rightarrow> Bail ''Parent block id is missing''
           | (Some seq_no, Some parent) \<Rightarrow>
               (let k = \<lparr>cmk_block_seq_no = seq_no, cmk_block_identifier = bs_block_identifier s,
                         cmk_attestation_target_type = af_attestation_type f\<rparr>;
                    folded_attestation = hm_get (folded_attestations c) k in
                case enough f folded_attestation of
                  Some a \<Rightarrow> Ok (Some a, c)
                | None \<Rightarrow>
                    (case (bs_bk_set s, bs_envelope_hash s) of
                       (None, _) \<Rightarrow> Bail ''Missing bk set''
                     | (_, None) \<Rightarrow> Bail ''Envelope hash is missing''
                     | (Some bk, Some envelope_hash) \<Rightarrow>
                         fold_new bls f k
                           \<lparr>ad_parent_block_id = parent, ad_block_id = bs_block_identifier s, ad_block_seq_no = seq_no,
                            ad_envelope_hash = envelope_hash, ad_target_type = af_attestation_type f\<rparr>
                           bk
                           (to_combine folded_attestation
                              (filter (fitting parent envelope_hash bk)
                                (case hm_get (compacted_unverified_attestations c) k of Some l \<Rightarrow> l | None \<Rightarrow> [])))
                           c))))"

fun aggregate ::
    "attestation_data blst \<Rightarrow> (block_state \<times> aggregate_filter) list \<Rightarrow> collected_attestations \<Rightarrow>
     (attestation list \<times> collected_attestations) outcome" where
  "aggregate bls [] c = Ok ([], c)"
| "aggregate bls ((s, f) # required) c =
     obind (aggregate_one bls s f c) (\<lambda>(found, c1).
     obind (aggregate bls required c1) (\<lambda>(rest, c2).
     Ok ((case found of Some a \<Rightarrow> a # rest | None \<Rightarrow> rest), c2)))"

section \<open>Adding a bunch is adding one by one\<close>

fun add_each :: "bool \<Rightarrow> attestation list \<Rightarrow> collected_attestations \<Rightarrow> bool \<times> collected_attestations" where
  "add_each enable_cutoff [] c = (False, c)"
| "add_each enable_cutoff (a # as) c =
     (let (is_modified, c1) = ca_add enable_cutoff a c; (rest, c2) = add_each enable_cutoff as c1
      in (is_modified \<or> rest, c2))"

lemma file_attestation_keeps:
  "ca_cutoff (snd (file_attestation a c)) = ca_cutoff c"
  "folded_attestations (snd (file_attestation a c)) = folded_attestations c"
  "ca_notifications (snd (file_attestation a c)) = ca_notifications c"
  by (simp_all add: file_attestation_def Let_def split: option.splits)

lemma file_attestation_notifications:
  "file_attestation a (c\<lparr>ca_notifications := n\<rparr>) = apsnd (\<lambda>c. c\<lparr>ca_notifications := n\<rparr>) (file_attestation a c)"
  by (simp add: file_attestation_def Let_def split: option.splits)

lemma file_all_flag: "file_all as flag c = (fst (file_all as False c) \<or> flag, snd (file_all as False c))"
proof (induction as arbitrary: flag c)
  case (Cons a as)
  let ?f = "file_attestation a c"
  have step: "file_all (a # as) x c = file_all as (fst ?f \<or> x) (snd ?f)" for x
    by (simp add: Let_def split_beta)
  show ?case
    unfolding step Cons.IH [of "fst ?f \<or> flag"] Cons.IH [of "fst ?f \<or> False"] by simp
qed simp

lemma file_all_notifications:
  "file_all as flag (c\<lparr>ca_notifications := n\<rparr>) = apsnd (\<lambda>c. c\<lparr>ca_notifications := n\<rparr>) (file_all as flag c)"
  by (induction as arbitrary: flag c) (simp_all add: Let_def split_beta file_attestation_notifications)

lemma file_all_keeps:
  "ca_cutoff (snd (file_all as flag c)) = ca_cutoff c"
  "folded_attestations (snd (file_all as flag c)) = folded_attestations c"
  "ca_notifications (snd (file_all as flag c)) = ca_notifications c"
  by (induction as arbitrary: flag c) (simp_all add: Let_def split_beta file_attestation_keeps)

abbreviation above_cutoff :: "bool \<Rightarrow> collected_attestations \<Rightarrow> attestation \<Rightarrow> bool" where
  "above_cutoff enable_cutoff c a \<equiv> \<not> enable_cutoff \<or> ad_block_seq_no (env_data a) > ca_cutoff c"

lemma add_each_file_all:
  "fst (add_each en as c) = fst (file_all (filter (above_cutoff en c) as) False c) \<and>
   (\<exists>n. snd (add_each en as c) = (snd (file_all (filter (above_cutoff en c) as) False c))\<lparr>ca_notifications := n\<rparr>)"
proof (induction as arbitrary: c)
  case Nil
  show ?case by (auto intro: exI [of _ "ca_notifications c"])
next
  case (Cons a as)
  show ?case
  proof (cases "above_cutoff en c a")
    case False
    then have "add_each en (a # as) c = add_each en as c" by (simp add: ca_add_def not_less)
    then show ?thesis using Cons.IH [of c] False by auto
  next
    case True
    let ?f = "file_attestation a c"
    obtain m where m: "ca_add en a c = (fst ?f, (snd ?f)\<lparr>ca_notifications := m\<rparr>)"
    proof
      show "ca_add en a c = (fst ?f, (snd ?f)\<lparr>ca_notifications :=
          (if fst ?f then ca_notifications (snd ?f) + 1 else ca_notifications (snd ?f))\<rparr>)"
        using True by (auto simp: ca_add_def ca_touch_def Let_def split_beta not_le)
    qed
    have cut: "ca_cutoff (snd ?f) = ca_cutoff c" by (rule file_attestation_keeps)
    show ?thesis
      using Cons.IH [of "(snd ?f)\<lparr>ca_notifications := m\<rparr>"] True m
      by (simp add: Let_def split_beta cut file_all_notifications file_all_flag [of _ "fst ?f"])
        (auto simp: disj_commute)
  qed
qed

text \<open>
  adding a bunch of attestations is adding them one after the other. Both file the same
  attestations, keep the folded ones and the cutoff, and report the same flag; the bunch notifies
  waiting threads once if anything was added and not at all otherwise.
\<close>

theorem add_bunch_is_repeated_add:
  "fst (add_bunch en as c) = fst (add_each en as c) \<and>
   compacted_unverified_attestations (snd (add_bunch en as c)) = compacted_unverified_attestations (snd (add_each en as c)) \<and>
   folded_attestations (snd (add_bunch en as c)) = folded_attestations (snd (add_each en as c)) \<and>
   ca_cutoff (snd (add_bunch en as c)) = ca_cutoff (snd (add_each en as c)) \<and>
   ca_notifications (snd (add_bunch en as c)) = ca_notifications c + (if fst (add_bunch en as c) then 1 else 0)"
proof -
  have bunch: "add_bunch en as c = (let (flag, c') = file_all (filter (above_cutoff en c) as) False c
      in (flag, if flag then ca_touch c' else c'))"
    by (cases en; cases "filter (above_cutoff en c) as") (auto simp: add_bunch_def Let_def split_beta)
  obtain n where n: "snd (add_each en as c) = (snd (file_all (filter (above_cutoff en c) as) False c))\<lparr>ca_notifications := n\<rparr>"
    and f: "fst (add_each en as c) = fst (file_all (filter (above_cutoff en c) as) False c)"
    using add_each_file_all by blast
  show ?thesis by (simp add: bunch n f Let_def split_beta ca_touch_def file_all_keeps)
qed

section \<open>Aggregated attestations verify\<close>

text \<open>
  The keepers of a block are fixed once and for all; \<open>keepers\<close> names them by block. A folded
  attestation verifies under the keepers of its block.
\<close>

definition folded_entry_ok ::
    "attestation_data blst \<Rightarrow> (block_identifier \<Rightarrow> block_keeper_set) \<Rightarrow> compacted_map_key \<Rightarrow> attestation \<Rightarrow> bool" where
  "folded_entry_ok bls keepers k e =
     (hm_wf (signature_occurrences e) \<and> key_of e = k \<and>
      verify_signatures bls e (get_pubkeys_by_signers (keepers (cmk_block_identifier k))) = Ok True)"

definition collector_ok ::
    "attestation_data blst \<Rightarrow> (block_identifier \<Rightarrow> block_keeper_set) \<Rightarrow> collected_attestations \<Rightarrow> bool" where
  "collector_ok bls keepers c =
     (hm_wf (compacted_unverified_attestations c) \<and> hm_wf (folded_attestations c) \<and>
      (\<forall>k l a. hm_get (compacted_unverified_attestations c) k = Some l \<longrightarrow> a \<in> set l \<longrightarrow>
         hm_wf (ca_signature_occurrences a)) \<and>
      (bls_aggregates bls \<longrightarrow>
         (\<forall>k e. hm_get (folded_attestations c) k = Some e \<longrightarrow> folded_entry_ok bls keepers k e)))"

definition keepers_known ::
    "(block_identifier \<Rightarrow> block_keeper_set) \<Rightarrow> (block_state \<times> aggregate_filter) list \<Rightarrow> bool" where
  "keepers_known keepers required =
     (\<forall>(s, f) \<in> set required. \<forall>bk. bs_bk_set s = Some bk \<longrightarrow> keepers (bs_block_identifier s) = bk)"

lemma file_attestation_ok:
  assumes "collector_ok bls keepers c" and "hm_wf (signature_occurrences a)"
  shows "collector_ok bls keepers (snd (file_attestation a c))"
  using assms
  by (auto simp: collector_ok_def file_attestation_def Let_def compact_def hm.wf_ins hm.get_ins
      split: option.splits if_splits)

lemma collector_ok_touch [simp]: "collector_ok bls keepers (ca_touch c) = collector_ok bls keepers c"
  by (simp add: collector_ok_def ca_touch_def)

lemma ca_add_ok:
  "collector_ok bls keepers c \<Longrightarrow> hm_wf (signature_occurrences a) \<Longrightarrow> collector_ok bls keepers (snd (ca_add en a c))"
  using file_attestation_ok by (auto simp: ca_add_def Let_def split_beta)

lemma file_all_ok:
  "collector_ok bls keepers c \<Longrightarrow> (\<And>a. a \<in> set as \<Longrightarrow> hm_wf (signature_occurrences a)) \<Longrightarrow>
   collector_ok bls keepers (snd (file_all as flag c))"
  by (induction as arbitrary: flag c) (simp_all add: Let_def split_beta file_attestation_ok)

lemma add_bunch_ok:
  assumes "collector_ok bls keepers c" and "\<And>a. a \<in> set as \<Longrightarrow> hm_wf (signature_occurrences a)"
  shows "collector_ok bls keepers (snd (add_bunch en as c))"
proof -
  have "collector_ok bls keepers (snd (file_all (filter P as) False c))" for P
    using assms by (intro file_all_ok) auto
  from this [of "\<lambda>_. True"] this show ?thesis
    using assms(1) by (auto simp: add_bunch_def Let_def split_beta)
qed

lemma move_cutoff_ok: "collector_ok bls keepers c \<Longrightarrow> collector_ok bls keepers (move_cutoff n c)"
  by (auto simp: collector_ok_def move_cutoff_def hm_wf_retain hm_get_retain split: option.splits if_splits)

lemma enough_SomeD: "enough f e = Some a \<Longrightarrow> e = Some a \<and> af_min_signatures_inclusive f \<le> signatures_count a"
  by (auto simp: enough_def split: option.splits if_splits)

text \<open>What one round of the aggregation returns: a proof known to the block, or a verified fold.\<close>

definition aggregate_result_ok ::
    "attestation_data blst \<Rightarrow> (block_identifier \<Rightarrow> block_keeper_set) \<Rightarrow> block_state \<Rightarrow> aggregate_filter \<Rightarrow> attestation \<Rightarrow> bool" where
  "aggregate_result_ok bls keepers s f a =
     (af_min_signatures_inclusive f \<le> signatures_count a \<and>
      (stored_in_state (af_attestation_type f) s = Some a \<or>
       distinct (signers a) \<and>
       ad_block_id (env_data a) = bs_block_identifier s \<and> ad_target_type (env_data a) = af_attestation_type f \<and>
       verify_signatures bls a (get_pubkeys_by_signers (keepers (bs_block_identifier s))) = Ok True))"

lemma fold_new_ok:
  assumes "fold_new bls f k data bk combine c = Ok (found, c')" and "collector_ok bls keepers c"
    and "bls_aggregates bls" and "\<forall>x \<in> set combine. hm_wf (fst x)"
    and "keepers (cmk_block_identifier k) = bk"
    and "k = \<lparr>cmk_block_seq_no = ad_block_seq_no data, cmk_block_identifier = ad_block_id data,
      cmk_attestation_target_type = ad_target_type data\<rparr>"
  shows "collector_ok bls keepers c' \<and>
    (\<forall>a. found = Some a \<longrightarrow> af_min_signatures_inclusive f \<le> signatures_count a \<and> env_data a = data \<and> distinct (signers a) \<and>
       verify_signatures bls a (get_pubkeys_by_signers bk) = Ok True)"
proof (cases "found = None \<and> c' = c")
  case False
  then obtain r e where r: "try_fold bls data combine bk = Ok r" "folded r = Some e" "found = enough f (Some e)"
    "c' = c\<lparr>folded_attestations := hm_insert k e (folded_attestations c)\<rparr>"
    using assms(1) by (auto simp: fold_new_def split: if_splits option.splits)
  note e = try_fold_result [OF r(1,2) assms(3,4)]
  have "folded_entry_ok bls keepers k e"
    using e assms(5,6) by (simp add: folded_entry_ok_def key_of_def)
  then have "collector_ok bls keepers c'"
    using assms(2) by (auto simp: collector_ok_def r(4) hm.wf_ins hm.get_ins split: if_splits)
  moreover have "a = e \<and> af_min_signatures_inclusive f \<le> signatures_count a" if "found = Some a" for a
    using enough_SomeD [of f "Some e" a] that r(3) by simp
  moreover have "distinct (signers e)"
    using e(3) by (simp add: signers_def hm_keys_def hm_wf_def)
  ultimately show ?thesis using e(1,2) by metis
qed (use assms(2) in simp)

lemma to_combine_wf:
  assumes "collector_ok bls keepers c" and "bls_aggregates bls"
  shows "\<forall>x \<in> set (to_combine (hm_get (folded_attestations c) k)
    (filter P (case hm_get (compacted_unverified_attestations c) k of Some l \<Rightarrow> l | None \<Rightarrow> []))). hm_wf (fst x)"
  using assms
  by (cases "hm_get (compacted_unverified_attestations c) k")
    (auto simp: collector_ok_def folded_entry_ok_def to_combine_def split: option.splits)

lemma aggregate_one_ok:
  assumes "aggregate_one bls s f c = Ok (found, c')" and "collector_ok bls keepers c" and "bls_aggregates bls"
    and "\<And>bk. bs_bk_set s = Some bk \<Longrightarrow> keepers (bs_block_identifier s) = bk"
  shows "collector_ok bls keepers c' \<and> (\<forall>a. found = Some a \<longrightarrow> aggregate_result_ok bls keepers s f a)"
proof (cases "enough f (stored_in_state (af_attestation_type f) s)")
  case (Some a)
  then show ?thesis
    using assms(1,2) enough_SomeD [OF Some] by (auto simp: aggregate_one_def aggregate_result_ok_def)
next
  case stored: None
  then obtain seq_no parent where sp: "bs_block_seq_no s = Some seq_no" "bs_parent_block_identifier s = Some parent"
    using assms(1) by (cases "bs_block_seq_no s"; cases "bs_parent_block_identifier s") (simp_all add: aggregate_one_def)
  let ?k = "\<lparr>cmk_block_seq_no = seq_no, cmk_block_identifier = bs_block_identifier s,
    cmk_attestation_target_type = af_attestation_type f\<rparr>"
  show ?thesis
  proof (cases "enough f (hm_get (folded_attestations c) ?k)")
    case (Some a)
    then have a: "found = Some a" "c' = c" "hm_get (folded_attestations c) ?k = Some a"
      "af_min_signatures_inclusive f \<le> signatures_count a"
      using assms(1) stored sp enough_SomeD [OF Some] by (auto simp: aggregate_one_def Let_def)
    then have "folded_entry_ok bls keepers ?k a"
      using assms(2,3) by (simp add: collector_ok_def)
    then show ?thesis
      using a assms(2)
      by (auto simp: folded_entry_ok_def key_of_def aggregate_result_ok_def signers_def hm_keys_def hm_wf_def)
  next
    case None
    then obtain bk h where bk: "bs_bk_set s = Some bk" "bs_envelope_hash s = Some h"
      using assms(1) stored sp
      by (cases "bs_bk_set s"; cases "bs_envelope_hash s") (simp_all add: aggregate_one_def Let_def)
    note r = assms(1) [unfolded aggregate_one_def Let_def stored sp None bk option.case prod.case]
    have "keepers (cmk_block_identifier ?k) = bk" using assms(4) [OF bk(1)] by simp
    from fold_new_ok [OF r assms(2,3) to_combine_wf [OF assms(2,3)] this] assms(4) [OF bk(1)]
    show ?thesis by (auto simp: aggregate_result_ok_def)
  qed
qed

lemma aggregate_ok:
  assumes "aggregate bls required c = Ok (as, c')" and "collector_ok bls keepers c" and "bls_aggregates bls"
    and "keepers_known keepers required"
  shows "collector_ok bls keepers c' \<and>
    (\<forall>a \<in> set as. \<exists>(s, f) \<in> set required. aggregate_result_ok bls keepers s f a)"
  using assms
proof (induction required arbitrary: c as c')
  case (Cons sf required)
  obtain s f where sf: "sf = (s, f)" by (cases sf)
  obtain found c1 rest where one: "aggregate_one bls s f c = Ok (found, c1)"
    and rest: "aggregate bls required c1 = Ok (rest, c')"
    and as: "as = (case found of Some a \<Rightarrow> a # rest | None \<Rightarrow> rest)"
    using Cons.prems(1) by (auto simp: sf split: prod.splits)
  have "keepers (bs_block_identifier s) = bk" if "bs_bk_set s = Some bk" for bk
    using Cons.prems(4) that by (simp add: keepers_known_def sf)
  note one = aggregate_one_ok [OF one Cons.prems(2,3) this]
  then have c1: "collector_ok bls keepers c1" by blast
  have "keepers_known keepers required"
    using Cons.prems(4) by (simp add: keepers_known_def)
  from Cons.IH [OF rest c1 Cons.prems(3) this] show ?case
    using one by (auto simp: as sf split: option.splits)
qed simp

section \<open>The collection over time\<close>

text \<open>
  What the threads of a node do with the shared collection. An aggregation that fails keeps the folds
  of the blocks before the failing one, which is the step of those blocks alone.
\<close>

datatype collector_event =
    AddOne bool attestation
  | AddBunch bool "attestation list"
  | MoveCutoff block_seq_no
  | Aggregate "(block_state \<times> aggregate_filter) list"

inductive collector_step ::
    "attestation_data blst \<Rightarrow> (block_identifier \<Rightarrow> block_keeper_set) \<Rightarrow>
     collected_attestations \<Rightarrow> collector_event \<Rightarrow> collected_attestations \<Rightarrow> bool"
  for bls keepers where
  add_one: "hm_wf (signature_occurrences a) \<Longrightarrow> collector_step bls keepers c (AddOne en a) (snd (ca_add en a c))"
| add_many: "(\<And>a. a \<in> set as \<Longrightarrow> hm_wf (signature_occurrences a)) \<Longrightarrow>
    collector_step bls keepers c (AddBunch en as) (snd (add_bunch en as c))"
| move: "collector_step bls keepers c (MoveCutoff n) (move_cutoff n c)"
| combine: "aggregate bls required c = Ok (as, c') \<Longrightarrow> keepers_known keepers required \<Longrightarrow>
    collector_step bls keepers c (Aggregate required) c'"

definition collector_start :: "collected_attestations \<Rightarrow> bool" where
  "collector_start c = (c = collected_attestations_default)"

interpretation collector: inductive_invariant collector_start "collector_step bls keepers"
  "\<lambda>c. bls_aggregates bls \<longrightarrow> collector_ok bls keepers c" for bls keepers
proof unfold_locales
  fix c assume "collector_start c"
  then show "bls_aggregates bls \<longrightarrow> collector_ok bls keepers c"
    by (simp add: collector_start_def collector_ok_def collected_attestations_default_def hm_wf_def hm_get_def)
next
  fix c e d
  assume "bls_aggregates bls \<longrightarrow> collector_ok bls keepers c" and "collector_step bls keepers c e d"
  from this(2,1) show "bls_aggregates bls \<longrightarrow> collector_ok bls keepers d"
    by cases (use ca_add_ok add_bunch_ok move_cutoff_ok aggregate_ok in blast)+
qed

text \<open>
  C2: whatever attestations were filed, in whatever order, with cutoffs moved and earlier
  aggregations in between, every attestation an aggregation returns has at least the number of
  distinct signers its filter asks for. It is a finalization proof the block state already holds, or
  it is an attestation of that block and target type whose aggregated signature verifies under the
  keepers of the block. The signature scheme is assumed to aggregate (bls_aggregates).
\<close>

theorem aggregated_attestations_verify:
  assumes "reach collector_start (collector_step bls keepers) c" and "bls_aggregates bls"
    and "keepers_known keepers required" and "aggregate bls required c = Ok (as, c')" and "a \<in> set as"
  shows "\<exists>s f. (s, f) \<in> set required \<and> af_min_signatures_inclusive f \<le> signatures_count a \<and>
    (stored_in_state (af_attestation_type f) s = Some a \<or>
     distinct (signers a) \<and>
     ad_block_id (env_data a) = bs_block_identifier s \<and> ad_target_type (env_data a) = af_attestation_type f \<and>
     verify_signatures bls a (get_pubkeys_by_signers (keepers (bs_block_identifier s))) = Ok True)"
  using collector.reach_inv [OF assms(1)] aggregate_ok [OF assms(4) _ assms(2,3)] assms(2,5)
  by (fastforce simp: aggregate_result_ok_def)

text \<open>Two keepers attest block 1; their attestations are filed and folded.\<close>

definition attested_block :: block_state where
  "attested_block = (block_state_new [1])\<lparr>bs_block_seq_no := Some 1, bs_parent_block_identifier := Some [0],
     bs_envelope_hash := Some [9], bs_bk_set := Some example_bk_set\<rparr>"

definition attestation_by :: "signer_index \<Rightarrow> u8 \<Rightarrow> attestation" where
  "attestation_by i sig = envelope_create [sig] [(i, 1)]
     \<lparr>ad_parent_block_id = [0], ad_block_id = [1], ad_block_seq_no = 1, ad_envelope_hash = [9], ad_target_type = Primary\<rparr>"

definition filed_attestations :: collected_attestations where
  "filed_attestations = snd (add_bunch True [attestation_by 1 1, attestation_by 2 2] collected_attestations_default)"

definition folded_result :: "attestation list \<times> collected_attestations" where
  "folded_result =
     (case aggregate keyring_bls [(attested_block, \<lparr>af_attestation_type = Primary, af_min_signatures_inclusive = 2\<rparr>)]
         filed_attestations of Ok r \<Rightarrow> r | _ \<Rightarrow> ([], filed_attestations))"

theorem aggregated_attestations_verify_witness:
  "\<exists>a. fst folded_result = [a] \<and> signers a = [2, 1] \<and> ad_block_id (env_data a) = [1] \<and>
     verify_signatures keyring_bls a (get_pubkeys_by_signers example_bk_set) = Ok True"
proof -
  let ?required = "[(attested_block, \<lparr>af_attestation_type = Primary, af_min_signatures_inclusive = 2\<rparr>)]"
  have ok: "hm_wf (signature_occurrences a)" if "a \<in> set [attestation_by 1 1, attestation_by 2 2]" for a
    using that by (auto simp: attestation_by_def envelope_create_def hm_wf_def)
  have filed: "reach collector_start (collector_step keyring_bls (\<lambda>_. example_bk_set)) filed_attestations"
    unfolding filed_attestations_def
    by (rule reach_step, rule reach_start, simp add: collector_start_def, rule add_many, erule ok)
  have run: "aggregate keyring_bls ?required filed_attestations = Ok (fst folded_result, snd folded_result)"
    by code_simp
  have res: "map signers (fst folded_result) = [[2, 1]]" by code_simp
  then obtain a where a: "fst folded_result = [a]" "signers a = [2, 1]" by (cases "fst folded_result") auto
  have known: "keepers_known (\<lambda>_. example_bk_set) ?required"
    by (simp add: keepers_known_def attested_block_def)
  have fresh: "stored_in_state Primary attested_block = None" "bs_block_identifier attested_block = [1]"
    by (simp_all add: stored_in_state_def attested_block_def block_state_new_def)
  show ?thesis
    using aggregated_attestations_verify [OF filed keyring_aggregates(1) known run, of a] a fresh by simp
qed

end
