(* ===== verification/Gossip_Types.thy ===== *)
theory Gossip_Types
  imports Prelude
begin

text \<open>
  The data of the gossip protocol by which nodes find each other, and the listeners for changes of
  keys (src/chitchat/src/types.rs, listener.rs, lib.rs). A string is the list of its UTF-8 bytes. A
  point in time and a duration are numbers of nanoseconds. A \<open>BTreeMap\<close> is the list of its entries
  in any order and is sorted where the code iterates over it.
\<close>

section \<open>Node ids\<close>

datatype ip_addr = IpV4 bytes | IpV6 bytes

text \<open>The flow label and the scope id of an IPv6 socket address, which are never sent, are left out.\<close>

record socket_addr =
  sa_ip :: ip_addr
  sa_port :: u16

record chitchat_id =
  cc_node_id :: bytes
  cc_generation_id :: u64
  cc_gossip_advertise_addr :: socket_addr

definition chitchat_id_new :: "bytes \<Rightarrow> u64 \<Rightarrow> socket_addr \<Rightarrow> chitchat_id" where
  "chitchat_id_new node_id generation_id gossip_advertise_addr =
     \<lparr>cc_node_id = node_id, cc_generation_id = generation_id, cc_gossip_advertise_addr = gossip_advertise_addr\<rparr>"

text \<open>The derived order compares the fields from first to last; IPv4 addresses come before IPv6 ones.\<close>

definition ip_key :: "ip_addr \<Rightarrow> bool \<times> bytes" where
  "ip_key ip = (case ip of IpV4 b \<Rightarrow> (False, b) | IpV6 b \<Rightarrow> (True, b))"

definition chitchat_key :: "chitchat_id \<Rightarrow> bytes \<times> u64 \<times> (bool \<times> bytes) \<times> u16" where
  "chitchat_key c = (cc_node_id c, cc_generation_id c, ip_key (sa_ip (cc_gossip_advertise_addr c)),
     sa_port (cc_gossip_advertise_addr c))"

lemma ip_key_inject [simp]: "ip_key x = ip_key y \<longleftrightarrow> x = y"
  by (cases x; cases y) (simp_all add: ip_key_def)

lemma chitchat_key_inject [simp]: "chitchat_key c = chitchat_key d \<longleftrightarrow> c = d"
proof
  assume eq: "chitchat_key c = chitchat_key d"
  then have "cc_gossip_advertise_addr c = cc_gossip_advertise_addr d"
    by (intro socket_addr.equality) (simp_all add: chitchat_key_def)
  with eq show "c = d"
    by (intro chitchat_id.equality) (simp_all add: chitchat_key_def)
qed simp

section \<open>Versioned values\<close>

type_synonym instant = nat
type_synonym duration = nat

datatype deletion_status = StatusSet | StatusDeleted instant | StatusDeleteAfterTtl instant

definition time_of_start_scheduled_for_deletion :: "deletion_status \<Rightarrow> instant option" where
  "time_of_start_scheduled_for_deletion s =
     (case s of StatusSet \<Rightarrow> None | StatusDeleted t \<Rightarrow> Some t | StatusDeleteAfterTtl t \<Rightarrow> Some t)"

record versioned_value =
  vv_value :: bytes
  vv_version :: u64
  vv_status :: deletion_status

definition versioned_value_new :: "bytes \<Rightarrow> u64 \<Rightarrow> bool \<Rightarrow> instant \<Rightarrow> versioned_value" where
  "versioned_value_new value version is_tombstone now =
     \<lparr>vv_value = value, vv_version = version, vv_status = (if is_tombstone then StatusDeleted now else StatusSet)\<rparr>"

definition vv_is_deleted :: "versioned_value \<Rightarrow> bool" where
  "vv_is_deleted v =
     (case vv_status v of StatusSet \<Rightarrow> False | StatusDeleted _ \<Rightarrow> True | StatusDeleteAfterTtl _ \<Rightarrow> False)"

datatype deletion_status_mutation = MutSet | MutDelete | MutDeleteAfterTtl

definition into_status :: "deletion_status_mutation \<Rightarrow> instant \<Rightarrow> deletion_status" where
  "into_status m now =
     (case m of MutSet \<Rightarrow> StatusSet | MutDeleteAfterTtl \<Rightarrow> StatusDeleteAfterTtl now | MutDelete \<Rightarrow> StatusDeleted now)"

definition scheduled_for_deletion :: "deletion_status_mutation \<Rightarrow> bool" where
  "scheduled_for_deletion m = (case m of MutSet \<Rightarrow> False | MutDelete \<Rightarrow> True | MutDeleteAfterTtl \<Rightarrow> True)"

definition mutation_from_status :: "deletion_status \<Rightarrow> deletion_status_mutation" where
  "mutation_from_status s =
     (case s of StatusSet \<Rightarrow> MutSet | StatusDeleteAfterTtl _ \<Rightarrow> MutDeleteAfterTtl | StatusDeleted _ \<Rightarrow> MutDelete)"

definition mutation_try_from :: "u8 \<Rightarrow> deletion_status_mutation option" where
  "mutation_try_from code =
     (if code = 0 then Some MutSet else if code = 1 then Some MutDelete
      else if code = 2 then Some MutDeleteAfterTtl else None)"

definition mutation_code :: "deletion_status_mutation \<Rightarrow> u8" where
  "mutation_code m = (case m of MutSet \<Rightarrow> 0 | MutDelete \<Rightarrow> 1 | MutDeleteAfterTtl \<Rightarrow> 2)"

record key_value_mutation =
  kvm_key :: bytes
  kvm_value :: bytes
  kvm_version :: u64
  kvm_status :: deletion_status_mutation

lemma mutation_of_into_status [simp]: "mutation_from_status (into_status m now) = m"
  by (cases m) (simp_all add: mutation_from_status_def into_status_def)

lemma scheduled_iff_time:
  "scheduled_for_deletion (mutation_from_status s) \<longleftrightarrow> time_of_start_scheduled_for_deletion s \<noteq> None"
  by (cases s) (simp_all add: scheduled_for_deletion_def mutation_from_status_def
      time_of_start_scheduled_for_deletion_def)

lemma mutation_code_inverse [simp]: "mutation_try_from (mutation_code m) = Some m"
  by (cases m) (simp_all add: mutation_try_from_def mutation_code_def)

section \<open>Listeners\<close>

record key_change_event =
  ev_key :: bytes
  ev_value :: bytes
  ev_node :: chitchat_id

definition strip_prefix :: "bytes \<Rightarrow> bytes \<Rightarrow> bytes option" where
  "strip_prefix p s = (if take (length p) s = p then Some (drop (length p) s) else None)"

definition strip_key_prefix :: "key_change_event \<Rightarrow> bytes \<Rightarrow> key_change_event option" where
  "strip_key_prefix ev p = map_option (\<lambda>k. ev\<lparr>ev_key := k\<rparr>) (strip_prefix p (ev_key ev))"

text \<open>
  A callback is known by its id. What a call of the listeners does is the list of the callbacks it
  runs, each with the event it is given.
\<close>

type_synonym listener_id = u64
type_synonym listener_calls = "(listener_id \<times> key_change_event) list"

record listeners =
  ls_listeners :: "(bytes, listener_id list) hmap"
  ls_listener_idx :: u64

record listener_handle =
  lh_prefix :: bytes
  lh_listener_id :: listener_id
  lh_attached :: bool

definition listeners_default :: listeners where
  "listeners_default = \<lparr>ls_listeners = [], ls_listener_idx = 0\<rparr>"

definition inner_subscribe_event :: "bytes \<Rightarrow> listener_id \<Rightarrow> listeners \<Rightarrow> listeners" where
  "inner_subscribe_event key_prefix idx l =
     l\<lparr>ls_listeners := hm_insert key_prefix
        (case hm_get (ls_listeners l) key_prefix of Some callbacks \<Rightarrow> List.insert idx callbacks | None \<Rightarrow> [idx])
        (ls_listeners l)\<rparr>"

definition subscribe_event :: "bytes \<Rightarrow> listeners \<Rightarrow> listener_handle \<times> listeners" where
  "subscribe_event key_prefix l =
     (\<lparr>lh_prefix = key_prefix, lh_listener_id = ls_listener_idx l, lh_attached = True\<rparr>,
      inner_subscribe_event key_prefix (ls_listener_idx l) (l\<lparr>ls_listener_idx := ls_listener_idx l + 1\<rparr>))"

definition remove_listener :: "bytes \<Rightarrow> listener_id \<Rightarrow> listeners \<Rightarrow> listeners" where
  "remove_listener key_prefix idx l =
     (case hm_get (ls_listeners l) key_prefix of
        Some callbacks \<Rightarrow> l\<lparr>ls_listeners := hm_insert key_prefix (filter (\<lambda>i. i \<noteq> idx) callbacks) (ls_listeners l)\<rparr>
      | None \<Rightarrow> l)"

definition handle_forever :: "listener_handle \<Rightarrow> listener_handle" where
  "handle_forever h = h\<lparr>lh_attached := False\<rparr>"

definition handle_drop :: "listener_handle \<Rightarrow> listeners \<Rightarrow> listeners" where
  "handle_drop h l = (if lh_attached h then remove_listener (lh_prefix h) (lh_listener_id h) l else l)"

text \<open>A byte index cuts a string between two characters unless the byte there continues a character.\<close>

definition is_continuation_byte :: "u8 \<Rightarrow> bool" where
  "is_continuation_byte b = (0x80 \<le> b \<and> b < 0xC0)"

definition is_char_boundary :: "bytes \<Rightarrow> nat \<Rightarrow> bool" where
  "is_char_boundary s i = (i = 0 \<or> i = length s \<or> i < length s \<and> \<not> is_continuation_byte (s ! i))"

definition btree_range :: "bytes \<Rightarrow> bytes \<Rightarrow> (bytes, 'v) hmap \<Rightarrow> (bytes \<times> 'v) list" where
  "btree_range lo hi m = filter (\<lambda>(k, _). lo \<le> k \<and> k \<le> hi) (sort_key fst m)"

fun range_calls :: "key_change_event \<Rightarrow> (bytes \<times> listener_id list) list \<Rightarrow> listener_calls" where
  "range_calls ev [] = []"
| "range_calls ev ((prefix_key, callbacks) # rest) =
     (if prefix_key > ev_key ev then []
      else (case strip_key_prefix ev prefix_key of Some stripped \<Rightarrow> map (\<lambda>i. (i, stripped)) callbacks | None \<Rightarrow> []) @
           range_calls ev rest)"

definition trigger_event :: "key_change_event \<Rightarrow> listeners \<Rightarrow> listener_calls outcome" where
  "trigger_event ev l =
     (let calls = (case hm_get (ls_listeners l) [] of Some callbacks \<Rightarrow> map (\<lambda>i. (i, ev)) callbacks | None \<Rightarrow> []) in
      if ev_key ev = [] then Ok calls
      else if \<not> is_char_boundary (ev_key ev) 1 then Panic ''byte index 1 is not a char boundary''
      else Ok (calls @ range_calls ev (btree_range (take 1 (ev_key ev)) (ev_key ev) (ls_listeners l))))"

section \<open>Which callbacks run\<close>

lemma le_append: "(p :: bytes) \<le> p @ s"
  by (induction p) simp_all

lemma take_1_le: "p \<noteq> [] \<Longrightarrow> take 1 (p @ s) \<le> (p :: bytes)"
  by (cases p) simp_all

lemma strip_prefix_Some: "strip_prefix p s = Some r \<longleftrightarrow> s = p @ r"
  by (auto simp: strip_prefix_def append_eq_conv_conj split: if_splits) (metis append_take_drop_id)

lemma strip_key_prefix_Some:
  "strip_key_prefix ev p = Some e \<longleftrightarrow> ev_key ev = p @ ev_key e \<and> e = ev\<lparr>ev_key := ev_key e\<rparr>"
  by (auto simp: strip_key_prefix_def strip_prefix_Some intro!: exI [of _ "ev_key e"])

lemma strip_key_of: "strip_key_prefix ev p = Some e \<Longrightarrow> ev_key ev = p @ ev_key e"
  unfolding strip_key_prefix_Some by blast

lemma range_calls_iff:
  "\<forall>(p, c) \<in> set xs. p \<le> ev_key ev \<Longrightarrow>
   (i, e) \<in> set (range_calls ev xs) \<longleftrightarrow> (\<exists>p c. (p, c) \<in> set xs \<and> i \<in> set c \<and> strip_key_prefix ev p = Some e)"
proof (induction xs)
  case (Cons x xs)
  obtain p c where x: "x = (p, c)" by (cases x)
  have "\<not> p > ev_key ev" using Cons.prems by (simp add: x not_less)
  moreover have "(i, e) \<in> set (range_calls ev xs) \<longleftrightarrow>
      (\<exists>p c. (p, c) \<in> set xs \<and> i \<in> set c \<and> strip_key_prefix ev p = Some e)"
    using Cons by simp
  ultimately show ?case by (cases "strip_key_prefix ev p") (auto simp: x)
qed simp

lemma btree_range_in: "(k, v) \<in> set (btree_range lo hi m) \<longleftrightarrow> (k, v) \<in> set m \<and> lo \<le> k \<and> k \<le> hi"
  by (auto simp: btree_range_def)


definition example_listeners :: listeners where
  "example_listeners = snd (subscribe_event [97, 98] (snd (subscribe_event [] listeners_default)))"

definition example_node :: chitchat_id where
  "example_node = chitchat_id_new [110] 0 \<lparr>sa_ip = IpV4 [127, 0, 0, 1], sa_port = 80\<rparr>"


lemma trigger_event_panics_iff:
  "(\<exists>msg. trigger_event ev l = Panic msg) \<longleftrightarrow> (\<exists>a b rest. ev_key ev = a # b # rest \<and> is_continuation_byte b)"
proof (cases "ev_key ev")
  case (Cons a as)
  then show ?thesis by (cases as) (auto simp: trigger_event_def Let_def is_char_boundary_def)
qed (simp add: trigger_event_def)

end
