(* ===== verification/Gossip_Wire.thy ===== *)
theory Gossip_Wire
  imports Gossip_Types "HOL-Library.Code_Target_Nat"
begin

text \<open>
  The wire format of the gossip protocol (src/chitchat/src/serialize.rs, delta.rs, digest.rs,
  message.rs). A serializer returns the bytes it appends to the buffer; a deserializer returns the
  value and the rest of the buffer. The compression library is a parameter.
\<close>

section \<open>Integers, strings and addresses\<close>

fun le_bytes :: "nat \<Rightarrow> nat \<Rightarrow> bytes" where
  "le_bytes 0 n = []"
| "le_bytes (Suc k) n = of_nat (n mod 256) # le_bytes k (n div 256)"

fun le_value :: "bytes \<Rightarrow> nat" where
  "le_value [] = 0"
| "le_value (b # bs) = unat b + 256 * le_value bs"

text \<open>A fixed-size array, which every other deserializer starts from.\<close>

definition de_array :: "nat \<Rightarrow> bytes \<Rightarrow> (bytes \<times> bytes) outcome" where
  "de_array n buf = (if length buf < n then Bail ''Buffer too short'' else Ok (take n buf, drop n buf))"

definition ser_u8 :: "u8 \<Rightarrow> bytes" where
  "ser_u8 b = [b]"

definition de_u8 :: "bytes \<Rightarrow> (u8 \<times> bytes) outcome" where
  "de_u8 buf = obind (de_array 1 buf) (\<lambda>(b, rest). Ok (b ! 0, rest))"

definition ser_u16 :: "u16 \<Rightarrow> bytes" where
  "ser_u16 n = le_bytes 2 (unat n)"

definition de_u16 :: "bytes \<Rightarrow> (u16 \<times> bytes) outcome" where
  "de_u16 buf = obind (de_array 2 buf) (\<lambda>(b, rest). Ok (of_nat (le_value b), rest))"

definition ser_u32 :: "u32 \<Rightarrow> bytes" where
  "ser_u32 n = le_bytes 4 (unat n)"

definition de_u32 :: "bytes \<Rightarrow> (u32 \<times> bytes) outcome" where
  "de_u32 buf = obind (de_array 4 buf) (\<lambda>(b, rest). Ok (of_nat (le_value b), rest))"

definition ser_u64 :: "u64 \<Rightarrow> bytes" where
  "ser_u64 n = le_bytes 8 (unat n)"

definition de_u64 :: "bytes \<Rightarrow> (u64 \<times> bytes) outcome" where
  "de_u64 buf = obind (de_array 8 buf) (\<lambda>(b, rest). Ok (of_nat (le_value b), rest))"

definition ser_bool :: "bool \<Rightarrow> bytes" where
  "ser_bool b = [if b then 1 else 0]"

definition de_bool :: "bytes \<Rightarrow> (bool \<times> bytes) outcome" where
  "de_bool buf = obind (de_array 1 buf) (\<lambda>(b, rest). Ok (b ! 0 \<noteq> 0, rest))"

definition ser_ip :: "ip_addr \<Rightarrow> bytes" where
  "ser_ip ip = (case ip of IpV4 octets \<Rightarrow> 4 # octets | IpV6 octets \<Rightarrow> 6 # octets)"

definition ip_len :: "ip_addr \<Rightarrow> nat" where
  "ip_len ip = 1 + (case ip of IpV4 _ \<Rightarrow> 4 | IpV6 _ \<Rightarrow> 16)"

definition de_ip :: "bytes \<Rightarrow> (ip_addr \<times> bytes) outcome" where
  "de_ip buf =
     obind (de_array 1 buf) (\<lambda>(v, rest).
     if v ! 0 = 4 then obind (de_array 4 rest) (\<lambda>(octets, rest). Ok (IpV4 octets, rest))
     else if v ! 0 = 6 then obind (de_array 16 rest) (\<lambda>(octets, rest). Ok (IpV6 octets, rest))
     else Bail ''Invalid IP version byte'')"

text \<open>The well-formed byte sequences of the Unicode standard, which \<open>from_utf8\<close> accepts.\<close>

fun utf8_valid :: "bytes \<Rightarrow> bool" where
  "utf8_valid [] = True"
| "utf8_valid (b # s) =
     (if b < 0x80 then utf8_valid s
      else if 0xC2 \<le> b \<and> b \<le> 0xDF then
        (case s of c # s \<Rightarrow> is_continuation_byte c \<and> utf8_valid s | _ \<Rightarrow> False)
      else if 0xE0 \<le> b \<and> b \<le> 0xEF then
        (case s of
           c # d # s \<Rightarrow>
             is_continuation_byte c \<and> (b = 0xE0 \<longrightarrow> 0xA0 \<le> c) \<and> (b = 0xED \<longrightarrow> c < 0xA0) \<and>
             is_continuation_byte d \<and> utf8_valid s
         | _ \<Rightarrow> False)
      else if 0xF0 \<le> b \<and> b \<le> 0xF4 then
        (case s of
           c # d # e # s \<Rightarrow>
             is_continuation_byte c \<and> (b = 0xF0 \<longrightarrow> 0x90 \<le> c) \<and> (b = 0xF4 \<longrightarrow> c < 0x90) \<and>
             is_continuation_byte d \<and> is_continuation_byte e \<and> utf8_valid s
         | _ \<Rightarrow> False)
      else False)"

definition ser_str :: "bytes \<Rightarrow> bytes" where
  "ser_str s = ser_u16 (of_nat (length s)) @ s"

definition str_len :: "bytes \<Rightarrow> nat" where
  "str_len s = 2 + length s"

definition de_str :: "bytes \<Rightarrow> (bytes \<times> bytes) outcome" where
  "de_str buf =
     obind (de_u16 buf) (\<lambda>(len, rest).
     if length rest < unat len then Bail ''failed to deserialize string, buffer too short''
     else if \<not> utf8_valid (take (unat len) rest) then Bail ''invalid utf-8 sequence''
     else Ok (take (unat len) rest, drop (unat len) rest))"

definition ser_socket_addr :: "socket_addr \<Rightarrow> bytes" where
  "ser_socket_addr a = ser_ip (sa_ip a) @ ser_u16 (sa_port a)"

definition socket_addr_len :: "socket_addr \<Rightarrow> nat" where
  "socket_addr_len a = ip_len (sa_ip a) + 2"

definition de_socket_addr :: "bytes \<Rightarrow> (socket_addr \<times> bytes) outcome" where
  "de_socket_addr buf =
     obind (de_ip buf) (\<lambda>(ip, rest).
     obind (de_u16 rest) (\<lambda>(port, rest). Ok (\<lparr>sa_ip = ip, sa_port = port\<rparr>, rest)))"

definition ser_chitchat_id :: "chitchat_id \<Rightarrow> bytes" where
  "ser_chitchat_id c =
     ser_str (cc_node_id c) @ ser_u64 (cc_generation_id c) @ ser_socket_addr (cc_gossip_advertise_addr c)"

definition chitchat_id_len :: "chitchat_id \<Rightarrow> nat" where
  "chitchat_id_len c = str_len (cc_node_id c) + 8 + socket_addr_len (cc_gossip_advertise_addr c)"

definition de_chitchat_id :: "bytes \<Rightarrow> (chitchat_id \<times> bytes) outcome" where
  "de_chitchat_id buf =
     obind (de_str buf) (\<lambda>(node_id, rest).
     obind (de_u64 rest) (\<lambda>(generation_id, rest).
     obind (de_socket_addr rest) (\<lambda>(addr, rest).
     Ok (\<lparr>cc_node_id = node_id, cc_generation_id = generation_id, cc_gossip_advertise_addr = addr\<rparr>, rest))))"

definition ser_mutation_status :: "deletion_status_mutation \<Rightarrow> bytes" where
  "ser_mutation_status m = [mutation_code m]"

definition de_mutation_status :: "bytes \<Rightarrow> (deletion_status_mutation \<times> bytes) outcome" where
  "de_mutation_status buf =
     obind (de_u8 buf) (\<lambda>(code, rest).
     case mutation_try_from code of Some m \<Rightarrow> Ok (m, rest) | None \<Rightarrow> Bail ''Invalid deletion status code'')"

section \<open>Operations of a delta\<close>

definition ser_mutation :: "key_value_mutation \<Rightarrow> bytes" where
  "ser_mutation m =
     ser_str (kvm_key m) @ ser_str (kvm_value m) @ ser_u64 (kvm_version m) @ ser_mutation_status (kvm_status m)"

definition mutation_len :: "key_value_mutation \<Rightarrow> nat" where
  "mutation_len m = str_len (kvm_key m) + str_len (kvm_value m) + 8 + 1"

definition de_mutation :: "bytes \<Rightarrow> (key_value_mutation \<times> bytes) outcome" where
  "de_mutation buf =
     obind (de_str buf) (\<lambda>(key, rest).
     obind (de_str rest) (\<lambda>(value, rest).
     obind (de_u64 rest) (\<lambda>(version, rest).
     obind (de_mutation_status rest) (\<lambda>(status, rest).
     Ok (\<lparr>kvm_key = key, kvm_value = value, kvm_version = version, kvm_status = status\<rparr>, rest)))))"

datatype delta_op =
    OpNode chitchat_id u64 u64
  | OpKeyValue key_value_mutation
  | OpSetMaxVersion u64

definition ser_op :: "delta_op \<Rightarrow> bytes" where
  "ser_op op =
     (case op of
        OpNode c last_gc_version from_version \<Rightarrow> 0 # ser_chitchat_id c @ ser_u64 last_gc_version @ ser_u64 from_version
      | OpKeyValue m \<Rightarrow> 1 # ser_mutation m
      | OpSetMaxVersion max_version \<Rightarrow> 2 # ser_u64 max_version)"

definition op_len :: "delta_op \<Rightarrow> nat" where
  "op_len op = 1 +
     (case op of
        OpNode c last_gc_version from_version \<Rightarrow> chitchat_id_len c + 8 + 8
      | OpKeyValue m \<Rightarrow> mutation_len m
      | OpSetMaxVersion max_version \<Rightarrow> 8)"

definition de_op :: "bytes \<Rightarrow> (delta_op \<times> bytes) outcome" where
  "de_op buf =
     obind (de_array 1 buf) (\<lambda>(tag, rest).
     if tag ! 0 = 0 then
       obind (de_chitchat_id rest) (\<lambda>(c, rest).
       obind (de_u64 rest) (\<lambda>(last_gc_version, rest).
       obind (de_u64 rest) (\<lambda>(from_version_excluded, rest).
       Ok (OpNode c last_gc_version from_version_excluded, rest))))
     else if tag ! 0 = 1 then obind (de_mutation rest) (\<lambda>(m, rest). Ok (OpKeyValue m, rest))
     else if tag ! 0 = 2 then obind (de_u64 rest) (\<lambda>(max_version, rest). Ok (OpSetMaxVersion max_version, rest))
     else Bail ''Unknown tag'')"

section \<open>Compressed streams\<close>

record zstd =
  zstd_compress_to_buffer :: "bytes \<Rightarrow> nat \<Rightarrow> bytes option"
  zstd_decompress_to_buffer :: "bytes \<Rightarrow> nat \<Rightarrow> bytes option"
  zstd_encode_all :: "bytes \<Rightarrow> bytes option"
  zstd_decode_all :: "bytes \<Rightarrow> bytes option"

record stream_writer =
  sw_output :: bytes
  sw_uncompressed_block :: bytes
  sw_block_threshold :: nat

definition with_block_threshold :: "u16 \<Rightarrow> stream_writer" where
  "with_block_threshold block_threshold =
     \<lparr>sw_output = [], sw_uncompressed_block = [], sw_block_threshold = unat block_threshold\<rparr>"

definition serialized_len_upperbound_after :: "nat \<Rightarrow> stream_writer \<Rightarrow> nat outcome" where
  "serialized_len_upperbound_after item_len w =
     (if item_len = 0 then Panic ''assertion failed: new_item_serialized_len > 0''
      else if length (sw_uncompressed_block w) + item_len > sw_block_threshold w
      then Ok (3 + length (sw_output w) + length (sw_uncompressed_block w) + 3 + item_len + 1)
      else Ok (3 + length (sw_output w) + length (sw_uncompressed_block w) + item_len + 1))"

definition u16_try_from :: "nat \<Rightarrow> u16 option" where
  "u16_try_from n = (if n < 2 ^ 16 then Some (of_nat n) else None)"

definition flush_block :: "zstd \<Rightarrow> stream_writer \<Rightarrow> stream_writer outcome" where
  "flush_block z w =
     (let block = sw_uncompressed_block w in
      if block = [] then Ok w
      else
        (let n = min (length block) (sw_block_threshold w) in
         obind
           (case zstd_compress_to_buffer z (take n block) n of
              Some compressed \<Rightarrow>
                obind (expect (u16_try_from (length compressed)) ''unwrap'') (\<lambda>len.
                Ok (1 # ser_u16 len @ compressed))
            | None \<Rightarrow>
                obind (expect (u16_try_from n) ''uncompressed block too big'') (\<lambda>len.
                Ok (2 # ser_u16 len @ take n block)))
           (\<lambda>written. Ok (w\<lparr>sw_output := sw_output w @ written, sw_uncompressed_block := drop n block\<rparr>))))"

lemma flush_block_drops:
  assumes "flush_block z w = Ok w'"
  shows "sw_uncompressed_block w' = drop (sw_block_threshold w) (sw_uncompressed_block w)"
    and "sw_block_threshold w' = sw_block_threshold w"
  using assms by (auto simp: flush_block_def Let_def min_def split: if_splits)

text \<open>
  The loop of \<open>append\<close>. With a threshold of 0 it would never end; no writer is created with it, and
  the model ends in a panic there.
\<close>

function flush_full :: "zstd \<Rightarrow> stream_writer \<Rightarrow> stream_writer outcome" where
  "flush_full z w =
     (if length (sw_uncompressed_block w) > sw_block_threshold w then
        (if sw_block_threshold w = 0 then Panic ''endless loop''
         else
           (case flush_block z w of
              Ok w' \<Rightarrow> flush_full z w'
            | Bail e \<Rightarrow> Bail e
            | Panic e \<Rightarrow> Panic e))
      else Ok w)"
  by pat_completeness auto

termination
  by (relation "measure (\<lambda>(z, w). length (sw_uncompressed_block w))") (auto simp: flush_block_drops)

definition stream_append :: "zstd \<Rightarrow> nat \<Rightarrow> bytes \<Rightarrow> stream_writer \<Rightarrow> stream_writer outcome" where
  "stream_append z item_len item w =
     (if item_len > 65535 then Panic ''assertion failed: item_len <= u16::MAX''
      else flush_full z (w\<lparr>sw_uncompressed_block := sw_uncompressed_block w @ item\<rparr>))"

definition stream_finish :: "zstd \<Rightarrow> stream_writer \<Rightarrow> bytes outcome" where
  "stream_finish z w = obind (flush_block z w) (\<lambda>w. Ok (sw_output w @ [0]))"

text \<open>The blocks of a stream, put together.\<close>

lemma de_u8_shorter: "de_u8 buf = Ok (b, rest) \<Longrightarrow> length rest < length buf"
  by (auto simp: de_u8_def de_array_def split: if_splits)

lemma de_u16_shorter: "de_u16 buf = Ok (n, rest) \<Longrightarrow> length rest < length buf"
  by (auto simp: de_u16_def de_array_def split: if_splits)

function de_blocks :: "zstd \<Rightarrow> bytes \<Rightarrow> bytes \<Rightarrow> (bytes \<times> bytes) outcome" where
  "de_blocks z buf data =
     (case de_u8 buf of
        Bail e \<Rightarrow> Bail e
      | Panic e \<Rightarrow> Panic e
      | Ok (block_type, rest) \<Rightarrow>
          if block_type = 0 then Ok (data, rest)
          else if block_type = 1 \<or> block_type = 2 then
            (case de_u16 rest of
               Bail e \<Rightarrow> Bail e
             | Panic e \<Rightarrow> Panic e
             | Ok (len, rest) \<Rightarrow>
                 if length rest < unat len then Bail ''failed to download compressed stream: buffer too short''
                 else if block_type = 2 then de_blocks z (drop (unat len) rest) (data @ take (unat len) rest)
                 else
                   (case zstd_decompress_to_buffer z (take (unat len) rest) 65535 of
                      None \<Rightarrow> Bail ''failed to decompress block''
                    | Some uncompressed \<Rightarrow> de_blocks z (drop (unat len) rest) (data @ uncompressed)))
          else Bail ''invalid block type'')"
  by pat_completeness auto

termination
  by (relation "measure (\<lambda>(z, buf, data). length buf)")
    (auto dest!: de_u8_shorter de_u16_shorter)

lemma de_array_shorter: "de_array n buf = Ok (b, rest) \<Longrightarrow> length rest + n = length buf \<and> length b = n"
  by (auto simp: de_array_def split: if_splits)

lemma de_str_shorter: "de_str buf = Ok (s, rest) \<Longrightarrow> length rest < length buf"
  by (auto simp: de_str_def split: if_splits dest!: de_u16_shorter)

lemma de_u64_shorter: "de_u64 buf = Ok (n, rest) \<Longrightarrow> length rest < length buf"
  by (auto simp: de_u64_def dest!: de_array_shorter)

lemma de_socket_addr_shorter: "de_socket_addr buf = Ok (a, rest) \<Longrightarrow> length rest < length buf"
  by (auto simp: de_socket_addr_def de_ip_def split: if_splits dest!: de_array_shorter de_u16_shorter)

lemma de_chitchat_id_shorter: "de_chitchat_id buf = Ok (c, rest) \<Longrightarrow> length rest < length buf"
  by (auto simp: de_chitchat_id_def dest!: de_str_shorter de_u64_shorter de_socket_addr_shorter)

lemma de_mutation_status_shorter: "de_mutation_status buf = Ok (m, rest) \<Longrightarrow> length rest < length buf"
  by (auto simp: de_mutation_status_def split: option.splits dest!: de_u8_shorter)

lemma de_mutation_shorter: "de_mutation buf = Ok (m, rest) \<Longrightarrow> length rest < length buf"
  by (auto simp: de_mutation_def dest!: de_str_shorter de_u64_shorter de_mutation_status_shorter)

lemma de_op_shorter: "de_op buf = Ok (x, rest) \<Longrightarrow> length rest < length buf"
  by (auto simp: de_op_def split: if_splits
      dest!: de_array_shorter de_chitchat_id_shorter de_u64_shorter de_mutation_shorter)

function de_items :: "bytes \<Rightarrow> delta_op list outcome" where
  "de_items buf =
     (if buf = [] then Ok []
      else
        (case de_op buf of
           Bail e \<Rightarrow> Bail e
         | Panic e \<Rightarrow> Panic e
         | Ok (item, rest) \<Rightarrow> obind (de_items rest) (\<lambda>items. Ok (item # items))))"
  by pat_completeness auto

termination
  by (relation "measure length") (auto dest!: de_op_shorter)

definition deserialize_stream :: "zstd \<Rightarrow> bytes \<Rightarrow> (delta_op list \<times> bytes) outcome" where
  "deserialize_stream z buf =
     obind (de_blocks z buf []) (\<lambda>(data, rest).
     obind (de_items data) (\<lambda>items. Ok (items, rest)))"

section \<open>Deltas\<close>

record node_delta =
  nd_chitchat_id :: chitchat_id
  nd_from_version_excluded :: u64
  nd_last_gc_version :: u64
  nd_key_values :: "key_value_mutation list"
  nd_max_version :: "u64 option"

record delta =
  delta_node_deltas :: "node_delta list"
  delta_serialized_len :: nat

definition delta_default :: delta where
  "delta_default = \<lparr>delta_node_deltas = [], delta_serialized_len = 1\<rparr>"

definition node_operations :: "node_delta \<Rightarrow> delta_op list" where
  "node_operations n =
     OpNode (nd_chitchat_id n) (nd_last_gc_version n) (nd_from_version_excluded n) #
     map OpKeyValue (nd_key_values n) @
     (case nd_max_version n of Some max_version \<Rightarrow> [OpSetMaxVersion max_version] | None \<Rightarrow> [])"

definition get_operations :: "delta \<Rightarrow> delta_op list" where
  "get_operations d = concat (map node_operations (delta_node_deltas d))"

fun append_ops :: "zstd \<Rightarrow> delta_op list \<Rightarrow> stream_writer \<Rightarrow> stream_writer outcome" where
  "append_ops z [] w = Ok w"
| "append_ops z (op # ops) w = obind (stream_append z (op_len op) (ser_op op) w) (append_ops z ops)"

definition ser_delta :: "zstd \<Rightarrow> delta \<Rightarrow> bytes outcome" where
  "ser_delta z d =
     obind (append_ops z (get_operations d) (with_block_threshold 16384)) (\<lambda>w.
     obind (stream_finish z w) (\<lambda>payload.
     if length payload = delta_serialized_len d then Ok payload
     else Panic ''assertion failed: payload.len() == self.serialized_len''))"

record delta_builder =
  db_existing_nodes :: "chitchat_id list"
  db_delta :: delta
  db_current_node_delta :: "node_delta option"

definition delta_builder_default :: delta_builder where
  "delta_builder_default =
     \<lparr>db_existing_nodes = [], db_delta = delta_default, db_current_node_delta = None\<rparr>"

definition builder_flush :: "delta_builder \<Rightarrow> delta_builder" where
  "builder_flush b =
     (case db_current_node_delta b of
        None \<Rightarrow> b
      | Some n \<Rightarrow>
          b\<lparr>db_current_node_delta := None,
            db_delta := (db_delta b)\<lparr>delta_node_deltas := delta_node_deltas (db_delta b) @ [n]\<rparr>\<rparr>)"

definition builder_finish :: "nat \<Rightarrow> delta_builder \<Rightarrow> delta" where
  "builder_finish len b = (db_delta (builder_flush b))\<lparr>delta_serialized_len := len\<rparr>"

definition apply_op :: "delta_op \<Rightarrow> delta_builder \<Rightarrow> delta_builder outcome" where
  "apply_op op b =
     (case op of
        OpNode c last_gc_version from_version_excluded \<Rightarrow>
          (let b = builder_flush b in
           if c \<in> set (db_existing_nodes b) then Bail ''Condition failed: !self.existing_nodes.contains(&chitchat_id)''
           else Ok (b\<lparr>db_existing_nodes := c # db_existing_nodes b,
                      db_current_node_delta := Some \<lparr>nd_chitchat_id = c, nd_from_version_excluded = from_version_excluded,
                        nd_last_gc_version = last_gc_version, nd_key_values = [], nd_max_version = None\<rparr>\<rparr>))
      | OpKeyValue m \<Rightarrow>
          (case db_current_node_delta b of
             None \<Rightarrow> Bail ''received a key-value op without a node op before.''
           | Some n \<Rightarrow>
               if nd_key_values n \<noteq> [] \<and> kvm_version (last (nd_key_values n)) \<ge> kvm_version m
               then Bail ''kv version should be increasing''
               else Ok (b\<lparr>db_current_node_delta := Some (n\<lparr>nd_key_values := nd_key_values n @ [m]\<rparr>)\<rparr>))
      | OpSetMaxVersion max_version \<Rightarrow>
          (case db_current_node_delta b of
             None \<Rightarrow> Bail ''received a key-value op without a node op before.''
           | Some n \<Rightarrow> Ok (b\<lparr>db_current_node_delta := Some (n\<lparr>nd_max_version := Some max_version\<rparr>)\<rparr>)))"

fun apply_ops :: "delta_op list \<Rightarrow> delta_builder \<Rightarrow> delta_builder outcome" where
  "apply_ops [] b = Ok b"
| "apply_ops (op # ops) b = obind (apply_op op b) (apply_ops ops)"

definition de_delta :: "zstd \<Rightarrow> bytes \<Rightarrow> (delta \<times> bytes) outcome" where
  "de_delta z buf =
     obind (deserialize_stream z buf) (\<lambda>(ops, rest).
     obind (apply_ops ops delta_builder_default) (\<lambda>b.
     Ok (builder_finish (length buf - length rest) b, rest)))"

record delta_serializer =
  ds_mtu :: nat
  ds_delta_builder :: delta_builder
  ds_writer :: stream_writer

definition with_mtu :: "nat \<Rightarrow> delta_serializer outcome" where
  "with_mtu mtu =
     (if mtu < 100 then Panic ''assertion failed: mtu >= 100''
      else
        obind (expect (u16_try_from (min 16384 mtu)) ''unwrap'') (\<lambda>block_threshold.
        Ok \<lparr>ds_mtu = mtu, ds_delta_builder = delta_builder_default, ds_writer = with_block_threshold block_threshold\<rparr>))"

definition try_add_op :: "zstd \<Rightarrow> delta_op \<Rightarrow> delta_serializer \<Rightarrow> (bool \<times> delta_serializer) outcome" where
  "try_add_op z op s =
     obind (serialized_len_upperbound_after (op_len op) (ds_writer s)) (\<lambda>bound.
     if bound > ds_mtu s then Ok (False, s)
     else
       obind (stream_append z (op_len op) (ser_op op) (ds_writer s)) (\<lambda>w.
       case apply_op op (ds_delta_builder s) of
         Ok b \<Rightarrow> Ok (True, s\<lparr>ds_writer := w, ds_delta_builder := b\<rparr>)
       | _ \<Rightarrow> Panic ''assertion failed: self.delta_builder.apply_op(delta_op).is_ok()''))"

definition try_set_max_version :: "zstd \<Rightarrow> u64 \<Rightarrow> delta_serializer \<Rightarrow> (bool \<times> delta_serializer) outcome" where
  "try_set_max_version z max_version s = try_add_op z (OpSetMaxVersion max_version) s"

definition mutation_of :: "bytes \<Rightarrow> versioned_value \<Rightarrow> key_value_mutation" where
  "mutation_of key v = \<lparr>kvm_key = key, kvm_value = vv_value v, kvm_version = vv_version v,
     kvm_status = mutation_from_status (vv_status v)\<rparr>"

definition try_add_kv :: "zstd \<Rightarrow> bytes \<Rightarrow> versioned_value \<Rightarrow> delta_serializer \<Rightarrow> (bool \<times> delta_serializer) outcome" where
  "try_add_kv z key v s = try_add_op z (OpKeyValue (mutation_of key v)) s"

definition try_add_node ::
    "zstd \<Rightarrow> chitchat_id \<Rightarrow> u64 \<Rightarrow> u64 \<Rightarrow> delta_serializer \<Rightarrow> (bool \<times> delta_serializer) outcome" where
  "try_add_node z c last_gc_version from_version s = try_add_op z (OpNode c last_gc_version from_version) s"

definition serializer_finish :: "zstd \<Rightarrow> delta_serializer \<Rightarrow> delta outcome" where
  "serializer_finish z s =
     obind (stream_finish z (ds_writer s)) (\<lambda>buffer. Ok (builder_finish (length buffer) (ds_delta_builder s)))"

section \<open>Digests\<close>

record node_digest =
  dg_heartbeat :: u64
  dg_last_gc_version :: u64
  dg_max_version :: u64

type_synonym digest = "(chitchat_id, node_digest) hmap"

definition ser_node_digest :: "node_digest \<Rightarrow> bytes" where
  "ser_node_digest n = ser_u64 (dg_heartbeat n) @ ser_u64 (dg_last_gc_version n) @ ser_u64 (dg_max_version n)"

definition de_node_digest :: "bytes \<Rightarrow> (node_digest \<times> bytes) outcome" where
  "de_node_digest buf =
     obind (de_u64 buf) (\<lambda>(heartbeat, rest).
     obind (de_u64 rest) (\<lambda>(last_gc_version, rest).
     obind (de_u64 rest) (\<lambda>(max_version, rest).
     Ok (\<lparr>dg_heartbeat = heartbeat, dg_last_gc_version = last_gc_version, dg_max_version = max_version\<rparr>, rest))))"

definition serialize_uncompressed :: "digest \<Rightarrow> bytes" where
  "serialize_uncompressed d =
     ser_u16 (of_nat (length d)) @
     concat (map (\<lambda>(c, n). ser_chitchat_id c @ ser_node_digest n) (sort_key (chitchat_key \<circ> fst) d))"

fun de_digest_entries :: "nat \<Rightarrow> bytes \<Rightarrow> digest \<Rightarrow> (digest \<times> bytes) outcome" where
  "de_digest_entries 0 buf d = Ok (d, buf)"
| "de_digest_entries (Suc k) buf d =
     obind (de_chitchat_id buf) (\<lambda>(c, rest).
     obind (de_node_digest rest) (\<lambda>(n, rest).
     de_digest_entries k rest (hm_insert c n d)))"

definition deserialize_uncompressed :: "bytes \<Rightarrow> (digest \<times> bytes) outcome" where
  "deserialize_uncompressed buf = obind (de_u16 buf) (\<lambda>(num_nodes, rest). de_digest_entries (unat num_nodes) rest [])"

definition ser_digest :: "zstd \<Rightarrow> digest \<Rightarrow> bytes" where
  "ser_digest z d =
     (let compressed = (case zstd_encode_all z (serialize_uncompressed d) of Some c \<Rightarrow> c | None \<Rightarrow> [])
      in ser_u32 (of_nat (length compressed)) @ compressed)"

definition de_digest :: "zstd \<Rightarrow> bytes \<Rightarrow> (digest \<times> bytes) outcome" where
  "de_digest z buf =
     obind (de_u32 buf) (\<lambda>(len, rest).
     if length rest < unat len then Panic ''mid > len''
     else
       (let uncompressed = (case zstd_decode_all z (take (unat len) rest) of Some u \<Rightarrow> u | None \<Rightarrow> [])
        in obind (deserialize_uncompressed uncompressed) (\<lambda>(d, _). Ok (d, drop (unat len) rest))))"

section \<open>Messages\<close>

datatype chitchat_message =
    Syn bytes digest
  | SynAck digest delta
  | Ack delta
  | BadCluster

definition ser_message :: "zstd \<Rightarrow> chitchat_message \<Rightarrow> bytes outcome" where
  "ser_message z msg =
     obind
       (case msg of
          Syn cluster_id d \<Rightarrow> Ok (0 # ser_digest z d @ ser_str cluster_id)
        | SynAck d dl \<Rightarrow> obind (ser_delta z dl) (\<lambda>b. Ok (1 # ser_digest z d @ b))
        | Ack dl \<Rightarrow> obind (ser_delta z dl) (\<lambda>b. Ok (2 # b))
        | BadCluster \<Rightarrow> Ok [3])
       (\<lambda>body. Ok (ser_u16 45139 @ ser_u8 0 @ body))"

definition message_len :: "zstd \<Rightarrow> chitchat_message \<Rightarrow> nat" where
  "message_len z msg = 2 + 1 +
     (case msg of
        Syn cluster_id d \<Rightarrow> 1 + str_len cluster_id + length (ser_digest z d)
      | SynAck d dl \<Rightarrow> 1 + length (ser_digest z d) + delta_serialized_len dl
      | Ack dl \<Rightarrow> 1 + delta_serialized_len dl
      | BadCluster \<Rightarrow> 1)"

definition de_message :: "zstd \<Rightarrow> bytes \<Rightarrow> (chitchat_message \<times> bytes) outcome" where
  "de_message z buf =
     (if length buf < 3 then Bail ''buffer too small to store the magic number and the protocol version''
      else if of_nat (le_value (take 2 buf)) \<noteq> (45139 :: u16) then Bail ''invalid chitchat magic number''
      else if buf ! 2 \<noteq> 0 then Bail ''invalid protocol version''
      else
        (case drop 3 buf of
           [] \<Rightarrow> Bail ''invalid message type''
         | ty # rest \<Rightarrow>
             if ty = 0 then
               obind (de_digest z rest) (\<lambda>(d, rest).
               obind (de_str rest) (\<lambda>(cluster_id, rest). Ok (Syn cluster_id d, rest)))
             else if ty = 1 then
               obind (de_digest z rest) (\<lambda>(d, rest).
               obind (de_delta z rest) (\<lambda>(dl, rest). Ok (SynAck d dl, rest)))
             else if ty = 2 then obind (de_delta z rest) (\<lambda>(dl, rest). Ok (Ack dl, rest))
             else if ty = 3 then Ok (BadCluster, rest)
             else Bail ''invalid message type''))"

section \<open>Reading back what was written\<close>

named_theorems wire_simps \<open>reading back one field\<close>

lemma length_le_bytes [simp]: "length (le_bytes k n) = k"
  by (induction k arbitrary: n) simp_all

lemma le_value_le_bytes: "n < 256 ^ k \<Longrightarrow> le_value (le_bytes k n) = n"
proof (induction k arbitrary: n)
  case (Suc k)
  then have "n div 256 < 256 ^ k" by (simp add: less_mult_imp_div_less mult.commute)
  with Suc.IH have "le_value (le_bytes k (n div 256)) = n div 256" by blast
  then show ?case by (simp add: unat_of_nat)
qed simp

lemma le_value_less: "le_value bs < 256 ^ length bs"
proof (induction bs)
  case (Cons b bs)
  have "unat b < 256" using unsigned_less [of b, where 'a = nat] by simp
  with Cons show ?case by simp
qed simp

lemma unat_less_bytes:
  "unat (n :: u16) < 256 ^ 2" "unat (m :: u32) < 256 ^ 4" "unat (k :: u64) < 256 ^ 8"
  using unsigned_less [of n, where 'a = nat] unsigned_less [of m, where 'a = nat] unsigned_less [of k, where 'a = nat]
  by simp_all

lemma de_array_append [wire_simps]: "length b = n \<Longrightarrow> de_array n (b @ rest) = Ok (b, rest)"
  by (auto simp: de_array_def)

lemma de_array_1 [wire_simps]: "de_array 1 (b # rest) = Ok ([b], rest)" "de_array (Suc 0) (b # rest) = Ok ([b], rest)"
  by (simp_all add: de_array_def)

lemma de_u8_ser [wire_simps]: "de_u8 (b # rest) = Ok (b, rest)"
  by (simp add: de_u8_def de_array_1)

lemma de_u16_ser [wire_simps]: "de_u16 (ser_u16 n @ rest) = Ok (n, rest)"
  by (simp add: de_u16_def ser_u16_def de_array_append le_value_le_bytes [OF unat_less_bytes(1)])

lemma de_u32_ser [wire_simps]: "de_u32 (ser_u32 n @ rest) = Ok (n, rest)"
  by (simp add: de_u32_def ser_u32_def de_array_append le_value_le_bytes [OF unat_less_bytes(2)])

lemma de_u64_ser [wire_simps]: "de_u64 (ser_u64 n @ rest) = Ok (n, rest)"
  by (simp add: de_u64_def ser_u64_def de_array_append le_value_le_bytes [OF unat_less_bytes(3)])

lemma length_ser_int [simp]: "length (ser_u16 n) = 2" "length (ser_u32 m) = 4" "length (ser_u64 k) = 8"
  by (simp_all add: ser_u16_def ser_u32_def ser_u64_def)

text \<open>What the format can carry: strings shorter than 64 KiB and addresses of the right size.\<close>

definition string_ok :: "bytes \<Rightarrow> bool" where
  "string_ok s = (length s < 2 ^ 16 \<and> utf8_valid s)"

definition ip_ok :: "ip_addr \<Rightarrow> bool" where
  "ip_ok ip = (case ip of IpV4 b \<Rightarrow> length b = 4 | IpV6 b \<Rightarrow> length b = 16)"

definition chitchat_id_ok :: "chitchat_id \<Rightarrow> bool" where
  "chitchat_id_ok c = (string_ok (cc_node_id c) \<and> ip_ok (sa_ip (cc_gossip_advertise_addr c)))"

definition mutation_ok :: "key_value_mutation \<Rightarrow> bool" where
  "mutation_ok m = (string_ok (kvm_key m) \<and> string_ok (kvm_value m))"

definition op_ok :: "delta_op \<Rightarrow> bool" where
  "op_ok op = (case op of OpNode c _ _ \<Rightarrow> chitchat_id_ok c | OpKeyValue m \<Rightarrow> mutation_ok m | OpSetMaxVersion _ \<Rightarrow> True)"

lemma de_str_ser [wire_simps]: "string_ok s \<Longrightarrow> de_str (ser_str s @ rest) = Ok (s, rest)"
  by (simp add: de_str_def ser_str_def string_ok_def wire_simps unat_of_nat)

lemma de_ip_ser [wire_simps]: "ip_ok ip \<Longrightarrow> de_ip (ser_ip ip @ rest) = Ok (ip, rest)"
  by (cases ip) (simp_all add: de_ip_def ser_ip_def ip_ok_def wire_simps)

lemma de_socket_addr_ser [wire_simps]:
  "ip_ok (sa_ip a) \<Longrightarrow> de_socket_addr (ser_socket_addr a @ rest) = Ok (a, rest)"
  by (simp add: de_socket_addr_def ser_socket_addr_def wire_simps)

lemma de_chitchat_id_ser [wire_simps]:
  "chitchat_id_ok c \<Longrightarrow> de_chitchat_id (ser_chitchat_id c @ rest) = Ok (c, rest)"
  by (simp add: de_chitchat_id_def ser_chitchat_id_def chitchat_id_ok_def wire_simps)

lemma de_mutation_status_ser [wire_simps]: "de_mutation_status (ser_mutation_status m @ rest) = Ok (m, rest)"
  by (simp add: de_mutation_status_def ser_mutation_status_def wire_simps)

lemma de_mutation_ser [wire_simps]: "mutation_ok m \<Longrightarrow> de_mutation (ser_mutation m @ rest) = Ok (m, rest)"
  by (simp add: de_mutation_def ser_mutation_def mutation_ok_def wire_simps)

lemma de_op_ser: "op_ok op \<Longrightarrow> de_op (ser_op op @ rest) = Ok (op, rest)"
  by (cases op) (simp_all add: de_op_def ser_op_def op_ok_def wire_simps)

lemma length_ser_str [simp]: "length (ser_str s) = str_len s"
  by (simp add: ser_str_def str_len_def)

lemma length_ser_chitchat_id: "chitchat_id_ok c \<Longrightarrow> length (ser_chitchat_id c) = chitchat_id_len c"
  by (auto simp: ser_chitchat_id_def chitchat_id_len_def ser_socket_addr_def socket_addr_len_def ser_ip_def
      ip_len_def chitchat_id_ok_def ip_ok_def split: ip_addr.splits)

lemma length_ser_op: "op_ok op \<Longrightarrow> length (ser_op op) = op_len op"
  by (cases op) (simp_all add: ser_op_def op_len_def op_ok_def length_ser_chitchat_id ser_mutation_def
      mutation_len_def ser_mutation_status_def)

lemma op_len_pos [simp]: "0 < op_len op"
  by (simp add: op_len_def)

declare de_items.simps [simp del] de_blocks.simps [simp del] flush_full.simps [simp del]

lemma de_items_ser: "\<forall>op \<in> set ops. op_ok op \<Longrightarrow> de_items (concat (map ser_op ops)) = Ok ops"
proof (induction ops)
  case Nil
  show ?case by (simp add: de_items.simps [of "[]"])
next
  case (Cons op ops)
  have "ser_op op \<noteq> []" by (cases op) (simp_all add: ser_op_def)
  with Cons show ?case
    by (subst de_items.simps) (simp add: de_op_ser)
qed

section \<open>The stream carries what was appended\<close>

text \<open>
  What the code relies on in the compression library: a compressed block fits its buffer and
  decompresses to the original when the receiving buffer is large enough.
\<close>

definition zstd_ok :: "zstd \<Rightarrow> bool" where
  "zstd_ok z =
     ((\<forall>b cap c. zstd_compress_to_buffer z b cap = Some c \<longrightarrow>
         length c \<le> cap \<and> (\<forall>cap'. length b \<le> cap' \<longrightarrow> zstd_decompress_to_buffer z c cap' = Some b)) \<and>
      (\<forall>b c. zstd_encode_all z b = Some c \<longrightarrow> zstd_decode_all z c = Some b))"

definition stream_holds :: "zstd \<Rightarrow> stream_writer \<Rightarrow> bytes \<Rightarrow> bool" where
  "stream_holds z w data =
     (\<exists>flushed. data = flushed @ sw_uncompressed_block w \<and>
       (\<forall>acc rest. de_blocks z (sw_output w @ rest) acc = de_blocks z rest (acc @ flushed)))"

lemma stream_holds_new: "stream_holds z (with_block_threshold t) []"
  by (simp add: stream_holds_def with_block_threshold_def)

lemma u16_try_from_small: "n < 2 ^ 16 \<Longrightarrow> u16_try_from n = Some (of_nat n)"
  by (simp add: u16_try_from_def)

lemma de_blocks_uncompressed:
  "length b < 2 ^ 16 \<Longrightarrow> de_blocks z (2 # ser_u16 (of_nat (length b)) @ b @ rest) acc = de_blocks z rest (acc @ b)"
  by (subst de_blocks.simps) (simp add: wire_simps unat_of_nat)

lemma de_blocks_compressed:
  "length c < 2 ^ 16 \<Longrightarrow> zstd_decompress_to_buffer z c 65535 = Some b \<Longrightarrow>
   de_blocks z (1 # ser_u16 (of_nat (length c)) @ c @ rest) acc = de_blocks z rest (acc @ b)"
  by (subst de_blocks.simps) (simp add: wire_simps unat_of_nat)

text \<open>A flush writes at most three bytes more than it takes from the block.\<close>

lemma flush_block_ok:
  assumes "zstd_ok z" and "sw_block_threshold w < 2 ^ 16"
  obtains written where
    "flush_block z w = Ok (w\<lparr>sw_output := sw_output w @ written,
       sw_uncompressed_block := drop (sw_block_threshold w) (sw_uncompressed_block w)\<rparr>)"
    "length written \<le> (if sw_uncompressed_block w = [] then 0
       else 3 + min (length (sw_uncompressed_block w)) (sw_block_threshold w))"
    "\<And>acc rest. de_blocks z (written @ rest) acc =
       de_blocks z rest (acc @ take (sw_block_threshold w) (sw_uncompressed_block w))"
proof (cases "sw_uncompressed_block w = []")
  case True
  then show ?thesis using that [of "[]"] by (simp add: flush_block_def)
next
  case False
  let ?b = "sw_uncompressed_block w" and ?t = "sw_block_threshold w"
  define n where "n = min (length ?b) ?t"
  have n: "n < 2 ^ 16" "drop n ?b = drop ?t ?b" "take n ?b = take ?t ?b" "length (take ?t ?b) = n"
    using assms(2) by (auto simp: n_def min_def)
  show ?thesis
  proof (cases "zstd_compress_to_buffer z (take n ?b) n")
    case None
    then show ?thesis
      using that [of "2 # ser_u16 (of_nat n) @ take n ?b"] False n de_blocks_uncompressed [of "take ?t ?b" z]
      by (simp add: flush_block_def Let_def u16_try_from_small flip: n_def)
  next
    case (Some c)
    then have c: "length c \<le> n" "zstd_decompress_to_buffer z c 65535 = Some (take n ?b)"
      using assms(1) n(1,3,4) unfolding zstd_ok_def by (blast, force)
    then show ?thesis
      using that [of "1 # ser_u16 (of_nat (length c)) @ c"] False n Some
        de_blocks_compressed [of c z "take ?t ?b"]
      by (simp add: flush_block_def Let_def u16_try_from_small flip: n_def)
  qed
qed

lemma stream_holds_flush:
  assumes "zstd_ok z" and "sw_block_threshold w < 2 ^ 16" and "stream_holds z w data" and "flush_block z w = Ok w'"
  shows "stream_holds z w' data"
proof -
  obtain written where w': "w' = w\<lparr>sw_output := sw_output w @ written,
       sw_uncompressed_block := drop (sw_block_threshold w) (sw_uncompressed_block w)\<rparr>"
    and blocks: "\<And>acc rest. de_blocks z (written @ rest) acc =
       de_blocks z rest (acc @ take (sw_block_threshold w) (sw_uncompressed_block w))"
    using flush_block_ok [OF assms(1,2)] assms(4) by (metis outcome.inject(1))
  obtain flushed where "data = flushed @ sw_uncompressed_block w"
    "\<And>acc rest. de_blocks z (sw_output w @ rest) acc = de_blocks z rest (acc @ flushed)"
    using assms(3) by (auto simp: stream_holds_def)
  then show ?thesis
    unfolding stream_holds_def w'
    by (intro exI [of _ "flushed @ take (sw_block_threshold w) (sw_uncompressed_block w)"]) (simp add: blocks)
qed

lemma flush_full_ok:
  assumes "zstd_ok z" and "0 < sw_block_threshold w" and "sw_block_threshold w < 2 ^ 16"
  shows "\<exists>w'. flush_full z w = Ok w' \<and> sw_block_threshold w' = sw_block_threshold w \<and>
    length (sw_uncompressed_block w') \<le> sw_block_threshold w \<and>
    (\<forall>data. stream_holds z w data \<longrightarrow> stream_holds z w' data)"
  using assms(2,3)
proof (induction "length (sw_uncompressed_block w)" arbitrary: w rule: less_induct)
  case less
  show ?case
  proof (cases "length (sw_uncompressed_block w) > sw_block_threshold w")
    case True
    obtain w1 where w1: "flush_block z w = Ok w1"
      using flush_block_ok [OF assms(1) less.prems(2)] by metis
    note drops = flush_block_drops [OF w1]
    have "\<exists>w'. flush_full z w1 = Ok w' \<and> sw_block_threshold w' = sw_block_threshold w1 \<and>
        length (sw_uncompressed_block w') \<le> sw_block_threshold w1 \<and>
        (\<forall>data. stream_holds z w1 data \<longrightarrow> stream_holds z w' data)"
      by (rule less.hyps) (use True less.prems drops in auto)
    moreover have "flush_full z w = flush_full z w1"
      using True less.prems by (subst flush_full.simps) (simp add: w1)
    ultimately show ?thesis
      using drops(2) stream_holds_flush [OF assms(1) less.prems(2) _ w1] by auto
  next
    case False
    then show ?thesis by (subst flush_full.simps) auto
  qed
qed

lemma stream_append_ok:
  assumes "zstd_ok z" and "0 < sw_block_threshold w" and "sw_block_threshold w < 2 ^ 16" and "n \<le> 65535"
  shows "\<exists>w'. stream_append z n item w = Ok w' \<and> sw_block_threshold w' = sw_block_threshold w \<and>
    length (sw_uncompressed_block w') \<le> sw_block_threshold w \<and>
    (\<forall>data. stream_holds z w data \<longrightarrow> stream_holds z w' (data @ item))"
proof -
  let ?w = "w\<lparr>sw_uncompressed_block := sw_uncompressed_block w @ item\<rparr>"
  have "stream_holds z w data \<Longrightarrow> stream_holds z ?w (data @ item)" for data
    by (auto simp: stream_holds_def)
  moreover have "\<exists>w'. flush_full z ?w = Ok w' \<and> sw_block_threshold w' = sw_block_threshold ?w \<and>
      length (sw_uncompressed_block w') \<le> sw_block_threshold ?w \<and>
      (\<forall>data. stream_holds z ?w data \<longrightarrow> stream_holds z w' data)"
    by (rule flush_full_ok) (use assms in auto)
  ultimately show ?thesis using assms(4) by (auto simp: stream_append_def)
qed

lemma stream_finish_ok:
  assumes "zstd_ok z" and "sw_block_threshold w < 2 ^ 16" and "length (sw_uncompressed_block w) \<le> sw_block_threshold w"
    and "stream_holds z w data"
  shows "\<exists>payload. stream_finish z w = Ok payload \<and> de_blocks z (payload @ rest) [] = Ok (data, rest) \<and>
    length payload \<le> length (sw_output w) + (if sw_uncompressed_block w = [] then 0 else 3 + length (sw_uncompressed_block w)) + 1"
proof -
  obtain written where w: "flush_block z w = Ok (w\<lparr>sw_output := sw_output w @ written,
       sw_uncompressed_block := drop (sw_block_threshold w) (sw_uncompressed_block w)\<rparr>)"
    "length written \<le> (if sw_uncompressed_block w = [] then 0
       else 3 + min (length (sw_uncompressed_block w)) (sw_block_threshold w))"
    using flush_block_ok [OF assms(1,2)] by metis
  have holds: "stream_holds z (w\<lparr>sw_output := sw_output w @ written, sw_uncompressed_block := []\<rparr>) data"
    using stream_holds_flush [OF assms(1,2,4) w(1)] assms(3) by simp
  have "de_blocks z (0 # rest) data = Ok (data, rest)"
    by (subst de_blocks.simps) (simp add: wire_simps)
  with holds have "de_blocks z ((sw_output w @ written @ [0]) @ rest) [] = Ok (data, rest)"
    by (simp add: stream_holds_def)
  with w assms(3) show ?thesis by (auto simp: stream_finish_def min_def split: if_splits)
qed

lemma append_ops_ok:
  assumes "zstd_ok z" and "0 < sw_block_threshold w" and "sw_block_threshold w < 2 ^ 16"
    and "length (sw_uncompressed_block w) \<le> sw_block_threshold w" and "\<forall>op \<in> set ops. op_len op \<le> 65535"
  shows "\<exists>w'. append_ops z ops w = Ok w' \<and> sw_block_threshold w' = sw_block_threshold w \<and>
    length (sw_uncompressed_block w') \<le> sw_block_threshold w \<and>
    (\<forall>data. stream_holds z w data \<longrightarrow> stream_holds z w' (data @ concat (map ser_op ops)))"
  using assms(2-)
proof (induction ops arbitrary: w)
  case (Cons op ops)
  have "op_len op \<le> 65535" using Cons.prems(4) by simp
  then obtain w1 where w1: "stream_append z (op_len op) (ser_op op) w = Ok w1"
    "sw_block_threshold w1 = sw_block_threshold w" "length (sw_uncompressed_block w1) \<le> sw_block_threshold w"
    "\<And>data. stream_holds z w data \<Longrightarrow> stream_holds z w1 (data @ ser_op op)"
    using stream_append_ok [OF assms(1) Cons.prems(1,2)] by metis
  then obtain w' where "append_ops z ops w1 = Ok w'" "sw_block_threshold w' = sw_block_threshold w1"
    "length (sw_uncompressed_block w') \<le> sw_block_threshold w1"
    "\<forall>data. stream_holds z w1 data \<longrightarrow> stream_holds z w' (data @ concat (map ser_op ops))"
    using Cons.IH [of w1] Cons.prems by auto
  with w1 show ?case by fastforce
qed simp

lemma stream_roundtrip:
  assumes "zstd_ok z" and "0 < t" and "\<forall>op \<in> set ops. op_ok op \<and> op_len op \<le> 65535"
  obtains w payload where "append_ops z ops (with_block_threshold t) = Ok w" "stream_finish z w = Ok payload"
    "\<And>rest. deserialize_stream z (payload @ rest) = Ok (ops, rest)"
proof -
  have t: "0 < sw_block_threshold (with_block_threshold t)" "sw_block_threshold (with_block_threshold t) < 2 ^ 16"
    using assms(2) unsigned_less [of t, where 'a = nat] by (simp_all add: with_block_threshold_def unat_gt_0 word_neq_0_conv)
  have "length (sw_uncompressed_block (with_block_threshold t)) \<le> sw_block_threshold (with_block_threshold t)"
    by (simp add: with_block_threshold_def)
  from append_ops_ok [OF assms(1) t this, of ops] assms(3) obtain w where
    w: "append_ops z ops (with_block_threshold t) = Ok w" "sw_block_threshold w < 2 ^ 16"
      "length (sw_uncompressed_block w) \<le> sw_block_threshold w" "stream_holds z w (concat (map ser_op ops))"
    using stream_holds_new [of z t] t by (metis append_Nil)
  from stream_finish_ok [OF assms(1) w(2-4)] obtain payload where
    p: "stream_finish z w = Ok payload" by blast
  have "deserialize_stream z (payload @ rest) = Ok (ops, rest)" for rest
    using stream_finish_ok [OF assms(1) w(2-4), of rest] p assms(3)
    by (auto simp: deserialize_stream_def de_items_ser)
  with w(1) p show ?thesis using that by blast
qed

section \<open>Rebuilding a delta\<close>

definition builder_nodes :: "delta_builder \<Rightarrow> node_delta list" where
  "builder_nodes b = delta_node_deltas (db_delta b) @ (case db_current_node_delta b of None \<Rightarrow> [] | Some n \<Rightarrow> [n])"

definition versions_ascend :: "node_delta \<Rightarrow> bool" where
  "versions_ascend n = sorted_wrt (<) (map kvm_version (nd_key_values n))"

definition delta_ok :: "delta \<Rightarrow> bool" where
  "delta_ok d =
     (distinct (map nd_chitchat_id (delta_node_deltas d)) \<and> list_all versions_ascend (delta_node_deltas d) \<and>
      list_all (\<lambda>op. op_ok op \<and> op_len op \<le> 65535) (get_operations d))"

lemma builder_nodes_flush [simp]: "builder_nodes (builder_flush b) = builder_nodes b"
  "db_current_node_delta (builder_flush b) = None" "db_existing_nodes (builder_flush b) = db_existing_nodes b"
  by (simp_all add: builder_nodes_def builder_flush_def split: option.splits)

lemma builder_finish_eq: "builder_finish len b = \<lparr>delta_node_deltas = builder_nodes b, delta_serialized_len = len\<rparr>"
  by (intro delta.equality) (simp_all add: builder_finish_def builder_flush_def builder_nodes_def split: option.splits)

lemma apply_kvs:
  "db_current_node_delta b = Some n \<Longrightarrow> versions_ascend (n\<lparr>nd_key_values := nd_key_values n @ kvs\<rparr>) \<Longrightarrow>
   apply_ops (map OpKeyValue kvs) b =
     Ok (b\<lparr>db_current_node_delta := Some (n\<lparr>nd_key_values := nd_key_values n @ kvs\<rparr>)\<rparr>)"
proof (induction kvs arbitrary: b n)
  case Nil
  then have "b\<lparr>db_current_node_delta := Some n\<rparr> = b" by (intro delta_builder.equality) simp_all
  then show ?case by simp
next
  case (Cons m kvs)
  have "kvm_version x < kvm_version m" if "x \<in> set (nd_key_values n)" for x
    using Cons.prems(2) that by (auto simp: versions_ascend_def sorted_wrt_append)
  then have "\<not> (nd_key_values n \<noteq> [] \<and> kvm_version (last (nd_key_values n)) \<ge> kvm_version m)"
    by (metis last_in_set leD)
  then have "apply_op (OpKeyValue m) b = Ok (b\<lparr>db_current_node_delta := Some (n\<lparr>nd_key_values := nd_key_values n @ [m]\<rparr>)\<rparr>)"
    using Cons.prems(1) by (auto simp: apply_op_def)
  then show ?case
    using Cons.IH [of "b\<lparr>db_current_node_delta := Some (n\<lparr>nd_key_values := nd_key_values n @ [m]\<rparr>)\<rparr>"
        "n\<lparr>nd_key_values := nd_key_values n @ [m]\<rparr>"] Cons.prems(2)
    by (simp add: versions_ascend_def)
qed

lemma apply_ops_append: "apply_ops (xs @ ys) b = obind (apply_ops xs b) (apply_ops ys)"
proof (induction xs arbitrary: b)
  case (Cons op ops)
  then show ?case by (cases "apply_op op b") simp_all
qed simp

lemma apply_node_operations:
  assumes "nd_chitchat_id n \<notin> set (db_existing_nodes b)" and "versions_ascend n"
  shows "\<exists>b'. apply_ops (node_operations n) b = Ok b' \<and> builder_nodes b' = builder_nodes b @ [n] \<and>
    db_existing_nodes b' = nd_chitchat_id n # db_existing_nodes b"
proof -
  let ?n0 = "\<lparr>nd_chitchat_id = nd_chitchat_id n, nd_from_version_excluded = nd_from_version_excluded n,
    nd_last_gc_version = nd_last_gc_version n, nd_key_values = [], nd_max_version = None\<rparr>"
  let ?n1 = "?n0\<lparr>nd_key_values := nd_key_values n\<rparr>"
  let ?b0 = "(builder_flush b)\<lparr>db_existing_nodes := nd_chitchat_id n # db_existing_nodes b, db_current_node_delta := Some ?n0\<rparr>"
  let ?b1 = "?b0\<lparr>db_current_node_delta := Some ?n1\<rparr>"
  have start: "apply_op (OpNode (nd_chitchat_id n) (nd_last_gc_version n) (nd_from_version_excluded n)) b = Ok ?b0"
    using assms(1) by (simp add: apply_op_def Let_def)
  have kvs: "apply_ops (map OpKeyValue (nd_key_values n)) ?b0 = Ok ?b1"
    using apply_kvs [of ?b0 ?n0 "nd_key_values n"] assms(2) by (simp add: versions_ascend_def)
  have nodes: "builder_nodes (?b0\<lparr>db_current_node_delta := Some x\<rparr>) = builder_nodes b @ [x]" for x
    using builder_nodes_flush(1) [of b] builder_nodes_flush(2) [of b] by (simp add: builder_nodes_def)
  show ?thesis
  proof (cases "nd_max_version n")
    case None
    then have "?n1 = n" by (intro node_delta.equality) simp_all
    with None start kvs nodes [of ?n1] show ?thesis
      by (auto simp: node_operations_def apply_ops_append)
  next
    case (Some v)
    then have "?n1\<lparr>nd_max_version := Some v\<rparr> = n" by (intro node_delta.equality) simp_all
    with Some start kvs nodes [of "?n1\<lparr>nd_max_version := Some v\<rparr>"] show ?thesis
      by (auto simp: node_operations_def apply_ops_append apply_op_def)
  qed
qed

lemma apply_get_operations:
  assumes "distinct (map nd_chitchat_id ns)" and "list_all versions_ascend ns"
    and "\<forall>n \<in> set ns. nd_chitchat_id n \<notin> set (db_existing_nodes b)"
  shows "\<exists>b'. apply_ops (concat (map node_operations ns)) b = Ok b' \<and> builder_nodes b' = builder_nodes b @ ns"
  using assms
proof (induction ns arbitrary: b)
  case (Cons n ns)
  obtain b1 where b1: "apply_ops (node_operations n) b = Ok b1" "builder_nodes b1 = builder_nodes b @ [n]"
    "db_existing_nodes b1 = nd_chitchat_id n # db_existing_nodes b"
    using apply_node_operations [of n b] Cons.prems by auto
  have "\<forall>m \<in> set ns. nd_chitchat_id m \<notin> set (db_existing_nodes b1)"
    using Cons.prems by (auto simp: b1(3) image_iff)
  then obtain b' where "apply_ops (concat (map node_operations ns)) b1 = Ok b'" "builder_nodes b' = builder_nodes b1 @ ns"
    using Cons.IH [of b1] Cons.prems by auto
  with b1 show ?case by (auto simp: apply_ops_append)
qed simp

lemma de_delta_ser:
  assumes "zstd_ok z" and "delta_ok d" and "ser_delta z d = Ok b"
  shows "de_delta z (b @ rest) = Ok (d, rest)"
proof -
  have ops: "\<forall>op \<in> set (get_operations d). op_ok op \<and> op_len op \<le> 65535"
    using assms(2) by (simp add: delta_ok_def list_all_iff)
  obtain w where "append_ops z (get_operations d) (with_block_threshold 16384) = Ok w" "stream_finish z w = Ok b"
    and len: "length b = delta_serialized_len d"
    using assms(3) by (auto simp: ser_delta_def split: if_splits)
  moreover have "0 < (16384 :: u16)" by simp
  ultimately have stream: "deserialize_stream z (b @ rest) = Ok (get_operations d, rest)"
    using stream_roundtrip [OF assms(1) _ ops] by (metis outcome.inject(1))
  obtain b' where b': "apply_ops (get_operations d) delta_builder_default = Ok b'" "builder_nodes b' = delta_node_deltas d"
    using apply_get_operations [of "delta_node_deltas d" delta_builder_default] assms(2)
    by (auto simp: delta_ok_def get_operations_def delta_builder_default_def delta_default_def builder_nodes_def)
  have "builder_finish (length b) b' = d"
    using b'(2) len by (simp add: builder_finish_eq)
  with stream b'(1) show ?thesis by (simp add: de_delta_def)
qed

section \<open>Round trip of messages\<close>

abbreviation in_id_order :: "(chitchat_id, 'v) hmap \<Rightarrow> (chitchat_id, 'v) hmap" where
  "in_id_order d \<equiv> sort_key (chitchat_key \<circ> fst) d"

definition digest_ok :: "zstd \<Rightarrow> digest \<Rightarrow> bool" where
  "digest_ok z d =
     (hm_wf d \<and> length d < 2 ^ 16 \<and> list_all (\<lambda>(c, _). chitchat_id_ok c) d \<and>
      (case zstd_encode_all z (serialize_uncompressed d) of None \<Rightarrow> False | Some c \<Rightarrow> length c < 2 ^ 32))"

lemma de_node_digest_ser [wire_simps]: "de_node_digest (ser_node_digest n @ rest) = Ok (n, rest)"
  by (simp add: de_node_digest_def ser_node_digest_def wire_simps)

lemma de_digest_entries_ser:
  "list_all (\<lambda>(c, _). chitchat_id_ok c) es \<Longrightarrow> distinct (map fst (acc @ es)) \<Longrightarrow>
   de_digest_entries (length es) (concat (map (\<lambda>(c, n). ser_chitchat_id c @ ser_node_digest n) es) @ rest) acc =
     Ok (acc @ es, rest)"
proof (induction es arbitrary: acc)
  case (Cons e es)
  obtain c n where e: "e = (c, n)" by (cases e)
  have "hm_insert c n acc = acc @ [(c, n)]"
    using Cons.prems(2) by (intro hm_insert_fresh) (auto simp: e hm_get_def map_of_eq_None_iff)
  then show ?case using Cons.IH [of "acc @ [(c, n)]"] Cons.prems by (simp add: e wire_simps)
qed simp

lemma deserialize_uncompressed_ser:
  assumes "hm_wf d" and "length d < 2 ^ 16" and "list_all (\<lambda>(c, _). chitchat_id_ok c) d"
  shows "deserialize_uncompressed (serialize_uncompressed d) = Ok (in_id_order d, [])"
proof -
  have "de_digest_entries (length (in_id_order d))
      (concat (map (\<lambda>(c, n). ser_chitchat_id c @ ser_node_digest n) (in_id_order d)) @ []) [] = Ok ([] @ in_id_order d, [])"
    using assms(3) assms(1)
    by (intro de_digest_entries_ser) (simp_all add: list_all_iff flip: hm_wf_def)
  then show ?thesis
    using assms(2) by (simp add: deserialize_uncompressed_def serialize_uncompressed_def wire_simps unat_of_nat)
qed

lemma de_digest_ser [wire_simps]:
  assumes "zstd_ok z" and "digest_ok z d"
  shows "de_digest z (ser_digest z d @ rest) = Ok (in_id_order d, rest)"
proof -
  obtain c where c: "zstd_encode_all z (serialize_uncompressed d) = Some c" "length c < 2 ^ 32"
    using assms(2) by (auto simp: digest_ok_def split: option.splits)
  then have "zstd_decode_all z c = Some (serialize_uncompressed d)"
    using assms(1) by (simp add: zstd_ok_def)
  then show ?thesis
    using c assms(2) deserialize_uncompressed_ser [of d]
    by (simp add: de_digest_def ser_digest_def digest_ok_def wire_simps unat_of_nat)
qed

definition message_ok :: "zstd \<Rightarrow> chitchat_message \<Rightarrow> bool" where
  "message_ok z msg =
     (case msg of
        Syn cluster_id d \<Rightarrow> string_ok cluster_id \<and> digest_ok z d
      | SynAck d dl \<Rightarrow> digest_ok z d \<and> delta_ok dl
      | Ack dl \<Rightarrow> delta_ok dl
      | BadCluster \<Rightarrow> True)"

text \<open>The same message with the entries of its digest in the order of a \<open>BTreeMap\<close>.\<close>

definition sorted_message :: "chitchat_message \<Rightarrow> chitchat_message" where
  "sorted_message msg =
     (case msg of Syn cluster_id d \<Rightarrow> Syn cluster_id (in_id_order d) | SynAck d dl \<Rightarrow> SynAck (in_id_order d) dl
      | Ack dl \<Rightarrow> Ack dl | BadCluster \<Rightarrow> BadCluster)"

lemma de_message_header:
  "de_message z (ser_u16 45139 @ ser_u8 0 @ ty # body) =
     (if ty = 0 then
        obind (de_digest z body) (\<lambda>(d, rest).
        obind (de_str rest) (\<lambda>(cluster_id, rest). Ok (Syn cluster_id d, rest)))
      else if ty = 1 then
        obind (de_digest z body) (\<lambda>(d, rest).
        obind (de_delta z rest) (\<lambda>(dl, rest). Ok (SynAck d dl, rest)))
      else if ty = 2 then obind (de_delta z body) (\<lambda>(dl, rest). Ok (Ack dl, rest))
      else if ty = 3 then Ok (BadCluster, body)
      else Bail ''invalid message type'')"
proof -
  define magic where "magic = (45139 :: u16)"
  have "of_nat (le_value (ser_u16 magic)) = magic"
    by (simp add: ser_u16_def le_value_le_bytes [OF unat_less_bytes(1)])
  then show ?thesis
    unfolding de_message_def magic_def [symmetric] by (simp add: ser_u8_def nth_append)
qed

lemma length_ser_delta: "ser_delta z dl = Ok b \<Longrightarrow> length b = delta_serialized_len dl"
  by (auto simp: ser_delta_def split: if_splits)


section \<open>Malformed messages\<close>

lemma de_array_no_panic [simp]: "de_array n buf \<noteq> Panic e"
  by (simp add: de_array_def)

lemma de_int_no_panic [simp]:
  "de_u8 buf \<noteq> Panic e" "de_u16 buf \<noteq> Panic e" "de_u32 buf \<noteq> Panic e" "de_u64 buf \<noteq> Panic e"
  by (auto simp: de_u8_def de_u16_def de_u32_def de_u64_def obind_eq_Panic)

lemma de_str_no_panic [simp]: "de_str buf \<noteq> Panic e"
  by (auto simp: de_str_def obind_eq_Panic)

lemma de_socket_addr_no_panic [simp]: "de_socket_addr buf \<noteq> Panic e"
  by (auto simp: de_socket_addr_def de_ip_def obind_eq_Panic)

lemma de_chitchat_id_no_panic [simp]: "de_chitchat_id buf \<noteq> Panic e"
  by (auto simp: de_chitchat_id_def obind_eq_Panic)

lemma de_mutation_no_panic [simp]: "de_mutation buf \<noteq> Panic e"
  by (auto simp: de_mutation_def de_mutation_status_def obind_eq_Panic split: option.splits)

lemma de_op_no_panic [simp]: "de_op buf \<noteq> Panic e"
  by (auto simp: de_op_def obind_eq_Panic)

lemma de_items_no_panic [simp]: "de_items buf \<noteq> Panic e"
proof (induction buf rule: de_items.induct)
  case (1 buf)
  then show ?case
    by (subst de_items.simps) (auto simp: obind_eq_Panic split: outcome.splits)
qed

lemma de_blocks_no_panic [simp]: "de_blocks z buf data \<noteq> Panic e"
proof (induction z buf data rule: de_blocks.induct)
  case (1 z buf data)
  then show ?case
    by (subst de_blocks.simps) (auto split: outcome.splits option.splits)
qed

lemma apply_op_no_panic [simp]: "apply_op op b \<noteq> Panic e"
  by (auto simp: apply_op_def Let_def split: delta_op.splits option.splits)

lemma apply_ops_no_panic [simp]: "apply_ops ops b \<noteq> Panic e"
  by (induction ops arbitrary: b) (auto simp: obind_eq_Panic)

lemma de_delta_no_panic [simp]: "de_delta z buf \<noteq> Panic e"
  by (auto simp: de_delta_def deserialize_stream_def obind_eq_Panic)

lemma de_digest_entries_no_panic [simp]: "de_digest_entries k buf d \<noteq> Panic e"
  by (induction k buf d rule: de_digest_entries.induct) (auto simp: obind_eq_Panic de_node_digest_def)

lemma de_digest_panic:
  "(\<exists>e. de_digest z buf = Panic e) \<longleftrightarrow> 4 \<le> length buf \<and> length buf - 4 < le_value (take 4 buf)"
proof -
  have "le_value (take 4 buf) < 2 ^ 32"
    using le_value_less [of "take 4 buf"] power_increasing [of "length (take 4 buf)" 4 "256 :: nat"] by simp
  then show ?thesis
    by (auto simp: de_digest_def de_u32_def de_array_def deserialize_uncompressed_def Let_def obind_eq_Panic
        unat_of_nat split: if_splits)
qed

text \<open>
  C12: reading a datagram from the network panics in exactly one case: it carries the right magic
  number and version, is of type SYN or SYN-ACK, and announces a compressed digest longer than what
  follows. Eight bytes are enough. Every other malformed datagram is rejected with an error.
\<close>

theorem datagram_panics_iff:
  "(\<exists>e. de_message z buf = Panic e) \<longleftrightarrow>
     8 \<le> length buf \<and> le_value (take 2 buf) = 45139 \<and> buf ! 2 = 0 \<and> (buf ! 3 = 0 \<or> buf ! 3 = 1) \<and>
     length buf - 8 < le_value (take 4 (drop 4 buf))"
proof -
  have magic: "of_nat (le_value (take 2 buf)) = (45139 :: u16) \<longleftrightarrow> le_value (take 2 buf) = 45139"
  proof -
    have "le_value (take 2 buf) < 2 ^ 16"
      using le_value_less [of "take 2 buf"] power_increasing [of "length (take 2 buf)" 2 "256 :: nat"] by simp
    then have "unat (of_nat (le_value (take 2 buf)) :: u16) = le_value (take 2 buf)" by (simp add: unat_of_nat)
    moreover have "unat (45139 :: u16) = 45139" by simp
    ultimately show ?thesis by (metis of_nat_numeral)
  qed
  show ?thesis
  proof (cases "length buf < 4")
    case True
    then show ?thesis by (auto simp: de_message_def)
  next
    case False
    then obtain a b c ty rest where buf: "buf = a # b # c # ty # rest"
      by (auto simp: not_less numeral_eq_Suc Suc_le_length_iff)
    have "(\<exists>e. de_message z buf = Panic e) \<longleftrightarrow>
        le_value (take 2 buf) = 45139 \<and> c = 0 \<and> (ty = 0 \<or> ty = 1) \<and> (\<exists>e. de_digest z rest = Panic e)"
      unfolding de_message_def magic by (auto simp: buf obind_eq_Panic)
    then show ?thesis unfolding de_digest_panic by (auto simp: buf)
  qed
qed

text \<open>A compression library that stores blocks as they are.\<close>

definition stored_zstd :: zstd where
  "stored_zstd =
     \<lparr>zstd_compress_to_buffer = (\<lambda>b cap. if length b \<le> cap then Some b else None),
      zstd_decompress_to_buffer = (\<lambda>c cap. if length c \<le> cap then Some c else None),
      zstd_encode_all = Some, zstd_decode_all = Some\<rparr>"

lemma stored_zstd_ok: "zstd_ok stored_zstd"
  by (simp add: zstd_ok_def stored_zstd_def)

definition example_delta :: delta where
  "example_delta =
     (case obind (with_mtu 1000) (\<lambda>s.
           obind (try_add_node stored_zstd example_node 0 0 s) (\<lambda>(_, s).
           obind (try_add_kv stored_zstd [107] \<lparr>vv_value = [118], vv_version = 1, vv_status = StatusSet\<rparr> s) (\<lambda>(_, s).
           serializer_finish stored_zstd s))) of
        Ok d \<Rightarrow> d | _ \<Rightarrow> delta_default)"

definition example_message :: chitchat_message where
  "example_message =
     SynAck [(example_node, \<lparr>dg_heartbeat = 3, dg_last_gc_version = 0, dg_max_version = 1\<rparr>)] example_delta"

definition example_datagram :: bytes where
  "example_datagram = (case ser_message stored_zstd example_message of Ok b \<Rightarrow> b | _ \<Rightarrow> [])"


section \<open>Deltas within the size of a datagram\<close>

definition payload_bound :: "stream_writer \<Rightarrow> nat" where
  "payload_bound w = length (sw_output w) +
     (if sw_uncompressed_block w = [] then 0 else 3 + length (sw_uncompressed_block w)) + 1"

lemma flush_full_small: "length (sw_uncompressed_block w) \<le> sw_block_threshold w \<Longrightarrow> flush_full z w = Ok w"
  by (subst flush_full.simps) simp

text \<open>For an item that fits one block the upper bound the writer announces is one.\<close>

lemma stream_append_bound:
  assumes "zstd_ok z" and "sw_block_threshold w < 2 ^ 16"
    and "length (sw_uncompressed_block w) \<le> sw_block_threshold w"
    and "length item = n" and "0 < n" and "n \<le> sw_block_threshold w"
    and "serialized_len_upperbound_after n w = Ok bound" and "stream_append z n item w = Ok w'"
  shows "payload_bound w' \<le> bound \<and> sw_block_threshold w' = sw_block_threshold w \<and>
    length (sw_uncompressed_block w') \<le> sw_block_threshold w"
proof -
  let ?w = "w\<lparr>sw_uncompressed_block := sw_uncompressed_block w @ item\<rparr>" and ?t = "sw_block_threshold w"
  have full: "flush_full z ?w = Ok w'"
    using assms(8) by (simp add: stream_append_def split: if_splits)
  show ?thesis
  proof (cases "length (sw_uncompressed_block w) + n > ?t")
    case False
    then have "w' = ?w" using full flush_full_small [of ?w z] assms(4) by simp
    then show ?thesis
      using False assms(4,5,7) by (auto simp: payload_bound_def serialized_len_upperbound_after_def)
  next
    case True
    have "sw_block_threshold ?w < 2 ^ 16" using assms(2) by simp
    from flush_block_ok [OF assms(1) this] obtain written where
      w1: "flush_block z ?w = Ok (?w\<lparr>sw_output := sw_output ?w @ written,
         sw_uncompressed_block := drop (sw_block_threshold ?w) (sw_uncompressed_block ?w)\<rparr>)"
      and len: "length written \<le> (if sw_uncompressed_block ?w = [] then 0
         else 3 + min (length (sw_uncompressed_block ?w)) (sw_block_threshold ?w))"
      by metis
    let ?w1 = "?w\<lparr>sw_output := sw_output w @ written, sw_uncompressed_block := drop ?t (sw_uncompressed_block w @ item)\<rparr>"
    have rest: "length (drop ?t (sw_uncompressed_block w @ item)) = length (sw_uncompressed_block w) + n - ?t"
      using assms(4) by simp
    have "flush_full z ?w = flush_full z ?w1"
      using True assms(4,5,6) w1 by (subst flush_full.simps) simp
    also have "\<dots> = Ok ?w1"
      by (rule flush_full_small) (use assms(3,6) rest in simp)
    finally have w': "w' = ?w1" using full by simp
    have "length written \<le> 3 + ?t" using len by (auto simp: min_def split: if_splits)
    moreover have "bound = 3 + length (sw_output w) + length (sw_uncompressed_block w) + 3 + n + 1"
      using assms(5,7) True by (simp add: serialized_len_upperbound_after_def)
    ultimately show ?thesis
      unfolding w' using True assms(3,4,6) by (auto simp: payload_bound_def)
  qed
qed

text \<open>
  When the datagram is smaller than a block, an item that would need a second block does not fit
  the datagram either: nothing is flushed before the end.
\<close>

lemma stream_append_unflushed:
  assumes "serialized_len_upperbound_after n w = Ok bound" and "bound \<le> sw_block_threshold w"
    and "stream_append z n item w = Ok w'" and "length item = n"
  shows "sw_output w' = sw_output w"
proof -
  have "length (sw_uncompressed_block w) + n \<le> sw_block_threshold w"
    using assms(1,2) by (auto simp: serialized_len_upperbound_after_def split: if_splits)
  then have "flush_full z (w\<lparr>sw_uncompressed_block := sw_uncompressed_block w @ item\<rparr>) =
      Ok (w\<lparr>sw_uncompressed_block := sw_uncompressed_block w @ item\<rparr>)"
    using assms(4) by (intro flush_full_small) simp
  then show ?thesis using assms(3) by (auto simp: stream_append_def split: if_splits)
qed

lemma append_ops_small:
  "length (sw_uncompressed_block w @ concat (map ser_op ops)) \<le> sw_block_threshold w \<Longrightarrow>
   \<forall>op \<in> set ops. op_len op \<le> 65535 \<Longrightarrow>
   append_ops z ops w = Ok (w\<lparr>sw_uncompressed_block := sw_uncompressed_block w @ concat (map ser_op ops)\<rparr>)"
proof (induction ops arbitrary: w)
  case (Cons op ops)
  let ?w = "w\<lparr>sw_uncompressed_block := sw_uncompressed_block w @ ser_op op\<rparr>"
  have "stream_append z (op_len op) (ser_op op) w = Ok ?w"
    using Cons.prems by (simp add: stream_append_def flush_full_small)
  then show ?case using Cons.IH [of ?w] Cons.prems by simp
qed simp

lemma stream_finish_threshold:
  "length (sw_uncompressed_block w) \<le> sw_block_threshold w \<Longrightarrow> length (sw_uncompressed_block w) \<le> t \<Longrightarrow>
   stream_finish z (w\<lparr>sw_block_threshold := t\<rparr>) = stream_finish z w"
  by (simp add: stream_finish_def flush_block_def Let_def min_absorb1 obind_assoc split: option.splits)

lemma holds_unflushed: "sw_output w = [] \<Longrightarrow> stream_holds z w data \<Longrightarrow> sw_uncompressed_block w = data"
proof -
  assume "sw_output w = []" and "stream_holds z w data"
  then obtain flushed where f: "data = flushed @ sw_uncompressed_block w" "de_blocks z [0] [] = de_blocks z [0] flushed"
    by (auto simp: stream_holds_def)
  have "de_blocks z [0] acc = Ok (acc, [])" for acc by (subst de_blocks.simps) (simp add: wire_simps)
  with f show ?thesis by simp
qed

text \<open>The delta under construction and the stream written so far belong together.\<close>

definition builder_ok :: "delta_builder \<Rightarrow> bool" where
  "builder_ok b =
     (set (db_existing_nodes b) = nd_chitchat_id ` set (builder_nodes b) \<and> delta_ok (builder_finish 0 b))"

definition serializer_ok :: "zstd \<Rightarrow> nat \<Rightarrow> delta_serializer \<Rightarrow> bool" where
  "serializer_ok z mtu s =
     (builder_ok (ds_delta_builder s) \<and> ds_mtu s = mtu \<and> payload_bound (ds_writer s) \<le> mtu \<and>
      sw_block_threshold (ds_writer s) = min 16384 mtu \<and> 100 \<le> mtu \<and>
      length (sw_uncompressed_block (ds_writer s)) \<le> min 16384 mtu \<and>
      (mtu < 16384 \<longrightarrow> sw_output (ds_writer s) = []) \<and>
      append_ops z (get_operations (builder_finish 0 (ds_delta_builder s))) (with_block_threshold (of_nat (min 16384 mtu))) =
        Ok (ds_writer s))"

definition op_fits :: "delta_op \<Rightarrow> delta_builder \<Rightarrow> bool" where
  "op_fits op b =
     (case op of OpNode _ _ _ \<Rightarrow> True
      | _ \<Rightarrow> (case db_current_node_delta b of Some n \<Rightarrow> nd_max_version n = None | None \<Rightarrow> False))"

lemma unat_threshold: "unat (of_nat (min 16384 mtu) :: u16) = min 16384 mtu"
proof -
  have "min 16384 mtu < 2 ^ 16" by simp
  then show ?thesis by (simp only: unat_of_nat) (simp add: take_bit_nat_eq_self)
qed

lemma serializer_ok_new: "with_mtu mtu = Ok s \<Longrightarrow> serializer_ok z mtu s \<and> builder_nodes (ds_delta_builder s) = []"
  by (auto simp: with_mtu_def serializer_ok_def builder_ok_def delta_builder_default_def builder_finish_eq
      builder_nodes_def delta_default_def delta_ok_def get_operations_def with_block_threshold_def payload_bound_def
      unat_threshold u16_try_from_def split: if_splits)

lemma append_ops_snoc:
  "append_ops z (ops @ [op]) w = obind (append_ops z ops w) (stream_append z (op_len op) (ser_op op))"
proof (induction ops arbitrary: w)
  case Nil
  show ?case by (cases "stream_append z (op_len op) (ser_op op) w") simp_all
next
  case (Cons x ops)
  then show ?case by (cases "stream_append z (op_len x) (ser_op x) w") simp_all
qed

lemma sorted_snoc: "sorted_wrt (<) (map f xs @ [v]) \<longleftrightarrow>
    sorted_wrt (<) (map f xs) \<and> (xs = [] \<or> f (last xs) < (v :: 'a :: linorder))"
proof (cases xs rule: rev_cases)
  case (snoc ys y)
  then show ?thesis by (auto simp: sorted_wrt_append)
qed simp

text \<open>What one more operation adds to the delta under construction.\<close>

lemma apply_op_ok:
  assumes "apply_op op b = Ok b'" and "builder_ok b" and "op_fits op b" and "op_ok op" and "op_len op \<le> 65535"
  shows "builder_ok b' \<and>
    get_operations (builder_finish 0 b') = get_operations (builder_finish 0 b) @ [op]"
proof (cases op)
  case (OpNode c g f)
  let ?n = "\<lparr>nd_chitchat_id = c, nd_from_version_excluded = f, nd_last_gc_version = g, nd_key_values = [], nd_max_version = None\<rparr>"
  have c: "c \<notin> set (db_existing_nodes b)" and b': "b' = (builder_flush b)\<lparr>db_existing_nodes := c # db_existing_nodes b,
      db_current_node_delta := Some ?n\<rparr>"
    using assms(1) by (auto simp: OpNode apply_op_def Let_def split: if_splits)
  have nodes: "builder_nodes b' = builder_nodes b @ [?n]"
    using builder_nodes_flush(1,2) [of b] by (simp add: b' builder_nodes_def)
  have "db_existing_nodes b' = c # db_existing_nodes b" by (simp add: b')
  then show ?thesis
    using assms(2,4,5) c
    by (auto simp: builder_ok_def builder_finish_eq nodes delta_ok_def get_operations_def node_operations_def
        versions_ascend_def OpNode)
next
  case (OpKeyValue m)
  then obtain n where n: "db_current_node_delta b = Some n" "nd_max_version n = None"
    using assms(3) by (auto simp: op_fits_def split: option.splits)
  let ?n = "n\<lparr>nd_key_values := nd_key_values n @ [m]\<rparr>"
  have v: "nd_key_values n = [] \<or> kvm_version (last (nd_key_values n)) < kvm_version m"
    and b': "b' = b\<lparr>db_current_node_delta := Some ?n\<rparr>"
    using assms(1) n by (auto simp: OpKeyValue apply_op_def split: if_splits)
  have nodes: "builder_nodes b = delta_node_deltas (db_delta b) @ [n]" "builder_nodes b' = delta_node_deltas (db_delta b) @ [?n]"
    using n by (simp_all add: b' builder_nodes_def)
  have "versions_ascend n \<Longrightarrow> versions_ascend ?n"
    using v by (simp add: versions_ascend_def sorted_snoc)
  moreover have "db_existing_nodes b' = db_existing_nodes b" by (simp add: b')
  ultimately show ?thesis
    using assms(2,4,5) n
    by (auto simp: builder_ok_def builder_finish_eq nodes delta_ok_def get_operations_def node_operations_def OpKeyValue)
next
  case (OpSetMaxVersion v)
  then obtain n where n: "db_current_node_delta b = Some n" "nd_max_version n = None"
    using assms(3) by (auto simp: op_fits_def split: option.splits)
  let ?n = "n\<lparr>nd_max_version := Some v\<rparr>"
  have b': "b' = b\<lparr>db_current_node_delta := Some ?n\<rparr>"
    using assms(1) n by (auto simp: OpSetMaxVersion apply_op_def)
  have nodes: "builder_nodes b = delta_node_deltas (db_delta b) @ [n]" "builder_nodes b' = delta_node_deltas (db_delta b) @ [?n]"
    using n by (simp_all add: b' builder_nodes_def)
  have "versions_ascend ?n = versions_ascend n" by (simp add: versions_ascend_def)
  moreover have "db_existing_nodes b' = db_existing_nodes b" by (simp add: b')
  ultimately show ?thesis
    using assms(2,4,5) n
    by (auto simp: builder_ok_def builder_finish_eq nodes delta_ok_def get_operations_def node_operations_def OpSetMaxVersion)
qed

lemma try_add_op_ok:
  assumes "try_add_op z op s = Ok (added, s')" and "serializer_ok z mtu s" and "zstd_ok z"
    and "op_fits op (ds_delta_builder s)" and "op_ok op" and "op_len op \<le> min 16384 mtu"
  shows "serializer_ok z mtu s' \<and>
    (if added then apply_op op (ds_delta_builder s) = Ok (ds_delta_builder s') else s' = s)"
proof (cases added)
  case True
  then obtain bound w b' where b: "serialized_len_upperbound_after (op_len op) (ds_writer s) = Ok bound"
    "stream_append z (op_len op) (ser_op op) (ds_writer s) = Ok w" "bound \<le> mtu"
    "apply_op op (ds_delta_builder s) = Ok b'" "s' = s\<lparr>ds_writer := w, ds_delta_builder := b'\<rparr>"
    using assms(1,2)
    by (cases "apply_op op (ds_delta_builder s)") (auto simp: try_add_op_def serializer_ok_def split: if_splits)
  note s = assms(2) [unfolded serializer_ok_def]
  have t: "sw_block_threshold (ds_writer s) < 2 ^ 16"
    "length (sw_uncompressed_block (ds_writer s)) \<le> sw_block_threshold (ds_writer s)"
    "op_len op \<le> sw_block_threshold (ds_writer s)"
    using s assms(6) by auto
  have w: "payload_bound w \<le> mtu \<and> sw_block_threshold w = min 16384 mtu \<and>
      length (sw_uncompressed_block w) \<le> min 16384 mtu"
    using stream_append_bound [OF assms(3) t(1,2) length_ser_op [OF assms(5)] op_len_pos t(3) b(1,2)] b(3) s by auto
  have "op_len op \<le> 65535" using assms(6) by simp
  note ops = apply_op_ok [OF b(4) _ assms(4,5) this]
  have "append_ops z (get_operations (builder_finish 0 b')) (with_block_threshold (of_nat (min 16384 mtu))) = Ok w"
    using ops s b(2) by (simp add: append_ops_snoc)
  moreover have "sw_output w = []" if "mtu < 16384"
    using stream_append_unflushed [OF b(1) _ b(2) length_ser_op [OF assms(5)]] b(3) s that by simp
  ultimately show ?thesis using w ops s b True by (simp add: serializer_ok_def)
next
  case False
  then show ?thesis
    using assms(1,2) by (cases "apply_op op (ds_delta_builder s)") (auto simp: try_add_op_def split: if_splits)
qed

lemma serializer_finish_ok:
  assumes "serializer_ok z mtu s" and "zstd_ok z"
  shows "\<exists>d. serializer_finish z s = Ok d \<and> delta_node_deltas d = builder_nodes (ds_delta_builder s) \<and> delta_ok d \<and>
    delta_serialized_len d \<le> mtu \<and> (\<exists>b. ser_delta z d = Ok b \<and> length b \<le> mtu)"
proof -
  note s = assms(1) [unfolded serializer_ok_def builder_ok_def]
  let ?t = "of_nat (min 16384 mtu) :: u16" and ?ops = "get_operations (builder_finish 0 (ds_delta_builder s))"
  have ops: "\<forall>op \<in> set ?ops. op_len op \<le> 65535"
    using s by (auto simp: delta_ok_def list_all_iff)
  have t: "0 < sw_block_threshold (with_block_threshold ?t)" "sw_block_threshold (with_block_threshold ?t) < 2 ^ 16"
    "length (sw_uncompressed_block (with_block_threshold ?t)) \<le> sw_block_threshold (with_block_threshold ?t)"
    using s unat_threshold [of mtu] by (simp_all add: with_block_threshold_def)
  have holds: "stream_holds z (ds_writer s) (concat (map ser_op ?ops))"
    using append_ops_ok [OF assms(2) t ops] s stream_holds_new [of z ?t] by auto
  have w: "sw_block_threshold (ds_writer s) < 2 ^ 16"
    "length (sw_uncompressed_block (ds_writer s)) \<le> sw_block_threshold (ds_writer s)"
    using s by auto
  obtain payload where p: "stream_finish z (ds_writer s) = Ok payload" "length payload \<le> payload_bound (ds_writer s)"
    using stream_finish_ok [OF assms(2) w holds] unfolding payload_bound_def by metis
  let ?d = "builder_finish (length payload) (ds_delta_builder s)"
  have same: "get_operations ?d = ?ops" "delta_ok ?d = delta_ok (builder_finish 0 (ds_delta_builder s))"
    by (simp_all add: builder_finish_eq get_operations_def delta_ok_def)
  have "\<exists>w. append_ops z ?ops (with_block_threshold 16384) = Ok w \<and> stream_finish z w = Ok payload"
  proof (cases "16384 \<le> mtu")
    case True
    then show ?thesis using s p(1) by (auto simp: min_absorb1)
  next
    case False
    let ?w = "(ds_writer s)\<lparr>sw_block_threshold := 16384\<rparr>"
    have u: "sw_uncompressed_block (ds_writer s) = concat (map ser_op ?ops)" "sw_output (ds_writer s) = []"
      using s False holds_unflushed [OF _ holds] by auto
    have "append_ops z ?ops (with_block_threshold 16384) =
        Ok ((with_block_threshold 16384)\<lparr>sw_uncompressed_block := concat (map ser_op ?ops)\<rparr>)"
      using append_ops_small [of "with_block_threshold 16384" ?ops z] ops w(2) s False
      by (simp add: u(1) [symmetric] with_block_threshold_def)
    moreover have "(with_block_threshold 16384)\<lparr>sw_uncompressed_block := concat (map ser_op ?ops)\<rparr> = ?w"
      by (intro stream_writer.equality) (simp_all add: with_block_threshold_def u)
    moreover have "stream_finish z ?w = Ok payload"
      using stream_finish_threshold [OF w(2), of 16384 z] p(1) s by auto
    ultimately show ?thesis by metis
  qed
  moreover have "delta_serialized_len ?d = length payload" by (simp add: builder_finish_eq)
  ultimately have "ser_delta z ?d = Ok payload" unfolding ser_delta_def same(1) by auto
  then show ?thesis
    using p s same by (auto simp: serializer_finish_def builder_finish_eq)
qed

end
