(* ===== verification/Gossip_State.thy ===== *)
theory Gossip_State
  imports Gossip_Wire "HOL-Library.Multiset"
begin

text \<open>
  What a node knows about every member of the cluster, and the reconciliation of this knowledge with
  a peer (src/chitchat/src/state.rs). The current time is a parameter of the operations that read the
  clock, the shuffle of equally stale members a parameter of the delta. The listeners, which all
  states of a cluster share, are passed to the operations that run them.
\<close>

section \<open>The state of one member\<close>

record node_state =
  ns_chitchat_id :: chitchat_id
  ns_heartbeat :: u64
  ns_key_values :: "(bytes, versioned_value) hmap"
  ns_max_version :: u64
  ns_last_gc_version :: u64

definition node_state_new :: "chitchat_id \<Rightarrow> node_state" where
  "node_state_new c =
     \<lparr>ns_chitchat_id = c, ns_heartbeat = 0, ns_key_values = [], ns_max_version = 0, ns_last_gc_version = 0\<rparr>"

definition key_values_including_deleted :: "node_state \<Rightarrow> (bytes \<times> versioned_value) list" where
  "key_values_including_deleted s = sort_key fst (ns_key_values s)"

definition ns_live_key_values :: "node_state \<Rightarrow> (bytes \<times> bytes) list" where
  "ns_live_key_values s =
     map (\<lambda>(k, v). (k, vv_value v)) (filter (\<lambda>(_, v). \<not> vv_is_deleted v) (key_values_including_deleted s))"

definition set_max_version :: "u64 \<Rightarrow> node_state \<Rightarrow> node_state" where
  "set_max_version v s = s\<lparr>ns_max_version := v\<rparr>"

definition set_last_gc_version :: "u64 \<Rightarrow> node_state \<Rightarrow> node_state" where
  "set_last_gc_version v s = s\<lparr>ns_last_gc_version := v\<rparr>"

definition delta_max_version :: "node_delta \<Rightarrow> u64 option" where
  "delta_max_version nd =
     (case map kvm_version (nd_key_values nd) of [] \<Rightarrow> nd_max_version nd | v # vs \<Rightarrow> Some (foldl max v vs))"

definition reset_for :: "node_delta \<Rightarrow> node_state" where
  "reset_for nd =
     (node_state_new (nd_chitchat_id nd))
       \<lparr>ns_max_version :=
          (case nd_max_version nd of Some v \<Rightarrow> if nd_key_values nd = [] then v else 0 | None \<Rightarrow> 0),
        ns_last_gc_version := nd_last_gc_version nd\<rparr>"

definition prepare_apply_delta :: "node_delta \<Rightarrow> node_state \<Rightarrow> bool \<times> node_state" where
  "prepare_apply_delta nd s =
     (if nd_from_version_excluded nd > ns_max_version s then (False, s)
      else if ns_max_version s > nd_last_gc_version nd then (True, s)
      else if ns_last_gc_version s \<ge> nd_last_gc_version nd then (True, s)
      else
        (case delta_max_version nd of
           None \<Rightarrow> (False, s)
         | Some v \<Rightarrow>
             if (nd_last_gc_version nd, v) \<le> (ns_last_gc_version s, ns_max_version s) then (False, s)
             else (True, reset_for nd)))"

definition set_versioned_value ::
    "listeners \<Rightarrow> bytes \<Rightarrow> versioned_value \<Rightarrow> node_state \<Rightarrow> (listener_calls \<times> node_state) outcome" where
  "set_versioned_value ls key u s =
     (let s1 = s\<lparr>ns_max_version := max (vv_version u) (ns_max_version s)\<rparr>;
          ev = \<lparr>ev_key = key, ev_value = vv_value u, ev_node = ns_chitchat_id s\<rparr>;
          s2 = s1\<lparr>ns_key_values := hm_insert key u (ns_key_values s)\<rparr> in
      if (case hm_get (ns_key_values s) key of Some e \<Rightarrow> vv_version e \<ge> vv_version u | None \<Rightarrow> False) then Ok ([], s1)
      else if vv_is_deleted u then Ok ([], s2)
      else obind (trigger_event ev ls) (\<lambda>calls. Ok (calls, s2)))"

fun apply_mutations ::
    "listeners \<Rightarrow> instant \<Rightarrow> u64 \<Rightarrow> key_value_mutation list \<Rightarrow> node_state \<Rightarrow> (listener_calls \<times> node_state) outcome" where
  "apply_mutations ls now current_max_version [] s = Ok ([], s)"
| "apply_mutations ls now current_max_version (m # ms) s =
     (if kvm_version m \<le> current_max_version \<or>
         scheduled_for_deletion (kvm_status m) \<and> kvm_version m \<le> ns_last_gc_version s
      then apply_mutations ls now current_max_version ms s
      else
        obind (set_versioned_value ls (kvm_key m)
            \<lparr>vv_value = kvm_value m, vv_version = kvm_version m, vv_status = into_status (kvm_status m) now\<rparr> s) (\<lambda>(calls, s).
        obind (apply_mutations ls now current_max_version ms s) (\<lambda>(calls', s). Ok (calls @ calls', s))))"

definition ns_apply_delta ::
    "listeners \<Rightarrow> instant \<Rightarrow> node_delta \<Rightarrow> node_state \<Rightarrow> (listener_calls \<times> node_state) outcome" where
  "ns_apply_delta ls now nd s =
     (let (applicable, s') = prepare_apply_delta nd s in
      if applicable then apply_mutations ls now (ns_max_version s') (nd_key_values nd) s' else Ok ([], s'))"

definition get_versioned :: "node_state \<Rightarrow> bytes \<Rightarrow> versioned_value option" where
  "get_versioned s key = hm_get (ns_key_values s) key"

definition ns_get :: "node_state \<Rightarrow> bytes \<Rightarrow> bytes option" where
  "ns_get s key =
     (case get_versioned s key of None \<Rightarrow> None | Some v \<Rightarrow> if vv_is_deleted v then None else Some (vv_value v))"

definition ns_contains_key :: "node_state \<Rightarrow> bytes \<Rightarrow> bool" where
  "ns_contains_key s key = (ns_get s key \<noteq> None)"

definition num_key_values :: "node_state \<Rightarrow> nat" where
  "num_key_values s = length (ns_live_key_values s)"

definition iter_prefix :: "node_state \<Rightarrow> bytes \<Rightarrow> (bytes \<times> versioned_value) list" where
  "iter_prefix s p =
     filter (\<lambda>(_, v). \<not> vv_is_deleted v)
       (takeWhile (\<lambda>(k, _). prefix p k) (filter (\<lambda>(k, _). p \<le> k) (sort_key fst (ns_key_values s))))"

definition set_with_version ::
    "listeners \<Rightarrow> bytes \<Rightarrow> bytes \<Rightarrow> u64 \<Rightarrow> node_state \<Rightarrow> (listener_calls \<times> node_state) outcome" where
  "set_with_version ls key value version s =
     (if version > ns_max_version s
      then set_versioned_value ls key \<lparr>vv_value = value, vv_version = version, vv_status = StatusSet\<rparr> s
      else Panic ''assertion failed: version > self.max_version'')"

definition ns_set :: "listeners \<Rightarrow> bytes \<Rightarrow> bytes \<Rightarrow> node_state \<Rightarrow> (listener_calls \<times> node_state) outcome" where
  "ns_set ls key value s =
     (if (case get_versioned s key of Some v \<Rightarrow> vv_value v = value \<and> vv_status v = StatusSet | None \<Rightarrow> False)
      then Ok ([], s)
      else
        obind (expect (checked_add (ns_max_version s) 1) ''attempt to add with overflow'') (\<lambda>new_version.
        set_with_version ls key value new_version s))"

definition is_delete_after_ttl :: "deletion_status \<Rightarrow> bool" where
  "is_delete_after_ttl st = (case st of StatusDeleteAfterTtl _ \<Rightarrow> True | _ \<Rightarrow> False)"

definition ns_set_with_ttl ::
    "listeners \<Rightarrow> instant \<Rightarrow> bytes \<Rightarrow> bytes \<Rightarrow> node_state \<Rightarrow> (listener_calls \<times> node_state) outcome" where
  "ns_set_with_ttl ls now key value s =
     (if (case get_versioned s key of Some v \<Rightarrow> vv_value v = value \<and> is_delete_after_ttl (vv_status v) | None \<Rightarrow> False)
      then Ok ([], s)
      else
        obind (expect (checked_add (ns_max_version s) 1) ''attempt to add with overflow'') (\<lambda>new_version.
        set_versioned_value ls key
          \<lparr>vv_value = value, vv_version = new_version, vv_status = StatusDeleteAfterTtl now\<rparr> s))"

definition ns_delete :: "instant \<Rightarrow> bytes \<Rightarrow> node_state \<Rightarrow> node_state outcome" where
  "ns_delete now key s =
     (case get_versioned s key of
        None \<Rightarrow> Ok s
      | Some v \<Rightarrow>
          obind (expect (checked_add (ns_max_version s) 1) ''attempt to add with overflow'') (\<lambda>new_version.
          Ok (s\<lparr>ns_max_version := new_version,
                ns_key_values := hm_insert key
                  \<lparr>vv_value = [], vv_version = new_version, vv_status = into_status MutDelete now\<rparr> (ns_key_values s)\<rparr>)))"

definition ns_delete_after_ttl :: "instant \<Rightarrow> bytes \<Rightarrow> node_state \<Rightarrow> node_state outcome" where
  "ns_delete_after_ttl now key s =
     (case get_versioned s key of
        None \<Rightarrow> Ok s
      | Some v \<Rightarrow>
          obind (expect (checked_add (ns_max_version s) 1) ''attempt to add with overflow'') (\<lambda>new_version.
          Ok (s\<lparr>ns_max_version := new_version,
                ns_key_values := hm_insert key
                  (v\<lparr>vv_version := new_version, vv_status := into_status MutDeleteAfterTtl now\<rparr>) (ns_key_values s)\<rparr>)))"

definition inc_heartbeat :: "node_state \<Rightarrow> node_state" where
  "inc_heartbeat s = s\<lparr>ns_heartbeat := ns_heartbeat s + 1\<rparr>"

definition try_set_heartbeat :: "u64 \<Rightarrow> node_state \<Rightarrow> bool \<times> node_state" where
  "try_set_heartbeat h s =
     (if ns_heartbeat s = 0 then (False, s\<lparr>ns_heartbeat := h\<rparr>)
      else if h > ns_heartbeat s then (True, s\<lparr>ns_heartbeat := h\<rparr>)
      else (False, s))"

definition ns_digest :: "node_state \<Rightarrow> node_digest" where
  "ns_digest s = \<lparr>dg_heartbeat = ns_heartbeat s, dg_last_gc_version = ns_last_gc_version s,
     dg_max_version = ns_max_version s\<rparr>"

definition expired :: "instant \<Rightarrow> duration \<Rightarrow> versioned_value \<Rightarrow> bool" where
  "expired now grace_period v =
     (case time_of_start_scheduled_for_deletion (vv_status v) of
        None \<Rightarrow> False | Some t \<Rightarrow> \<not> now < t + grace_period)"

definition ns_gc_keys_marked_for_deletion :: "instant \<Rightarrow> duration \<Rightarrow> node_state \<Rightarrow> node_state" where
  "ns_gc_keys_marked_for_deletion now grace_period s =
     s\<lparr>ns_key_values := hm_retain (\<lambda>_ v. \<not> expired now grace_period v) (ns_key_values s),
       ns_last_gc_version :=
         fold (\<lambda>(_, v) acc. max (vv_version v) acc)
           (filter (\<lambda>(_, v). expired now grace_period v) (ns_key_values s)) (ns_last_gc_version s)\<rparr>"

definition remove_key_value_internal :: "bytes \<Rightarrow> node_state \<Rightarrow> node_state" where
  "remove_key_value_internal key s = s\<lparr>ns_key_values := hm_remove key (ns_key_values s)\<rparr>"

definition ns_stale_key_values :: "u64 \<Rightarrow> node_state \<Rightarrow> (bytes \<times> versioned_value) list" where
  "ns_stale_key_values floor_version s =
     filter (\<lambda>(_, v). vv_version v > floor_version) (key_values_including_deleted s)"

section \<open>The state of the cluster\<close>

record cluster_state =
  cs_node_states :: "(chitchat_id, node_state) hmap"
  cs_seed_addrs :: "socket_addr list"
  cs_listeners :: listeners

definition with_seed_addrs :: "socket_addr list \<Rightarrow> cluster_state" where
  "with_seed_addrs seeds = \<lparr>cs_node_states = [], cs_seed_addrs = seeds, cs_listeners = listeners_default\<rparr>"

text \<open>
  The entry \<open>node_state_mut\<close> returns a reference to is read by \<open>member\<close>, which creates it when it is
  missing, and written back by \<open>put_member\<close>.
\<close>

definition member :: "chitchat_id \<Rightarrow> cluster_state \<Rightarrow> node_state" where
  "member c cs = (case hm_get (cs_node_states cs) c of Some s \<Rightarrow> s | None \<Rightarrow> node_state_new c)"

definition put_member :: "chitchat_id \<Rightarrow> node_state \<Rightarrow> cluster_state \<Rightarrow> cluster_state" where
  "put_member c s cs = cs\<lparr>cs_node_states := hm_insert c s (cs_node_states cs)\<rparr>"

definition remove_node :: "chitchat_id \<Rightarrow> cluster_state \<Rightarrow> cluster_state" where
  "remove_node c cs = cs\<lparr>cs_node_states := hm_remove c (cs_node_states cs)\<rparr>"

fun apply_node_deltas ::
    "instant \<Rightarrow> node_delta list \<Rightarrow> cluster_state \<Rightarrow> (listener_calls \<times> cluster_state) outcome" where
  "apply_node_deltas now [] cs = Ok ([], cs)"
| "apply_node_deltas now (nd # nds) cs =
     obind (ns_apply_delta (cs_listeners cs) now nd (member (nd_chitchat_id nd) cs)) (\<lambda>(calls, s).
     obind (apply_node_deltas now nds (put_member (nd_chitchat_id nd) s cs)) (\<lambda>(calls', cs). Ok (calls @ calls', cs)))"

definition cs_apply_delta :: "instant \<Rightarrow> delta \<Rightarrow> cluster_state \<Rightarrow> (listener_calls \<times> cluster_state) outcome" where
  "cs_apply_delta now d cs = apply_node_deltas now (delta_node_deltas d) cs"

definition compute_digest :: "chitchat_id list \<Rightarrow> cluster_state \<Rightarrow> digest" where
  "compute_digest scheduled cs =
     hm_map_values ns_digest (filter (\<lambda>(c, _). c \<notin> set scheduled) (in_id_order (cs_node_states cs)))"

definition cs_gc_keys_marked_for_deletion :: "instant \<Rightarrow> duration \<Rightarrow> cluster_state \<Rightarrow> cluster_state" where
  "cs_gc_keys_marked_for_deletion now grace_period cs =
     cs\<lparr>cs_node_states := hm_map_values (ns_gc_keys_marked_for_deletion now grace_period) (cs_node_states cs)\<rparr>"

section \<open>Which members to gossip first\<close>

record staleness =
  st_is_unknown :: bool
  st_max_version :: u64
  st_num_stale_key_values :: nat

text \<open>The order of \<open>Staleness\<close> is the lexicographic order of this key.\<close>

definition staleness_key :: "staleness \<Rightarrow> bool \<times> int" where
  "staleness_key st = (st_is_unknown st,
     if st_is_unknown st then - int (unat (st_max_version st)) else int (st_num_stale_key_values st))"

definition staleness_score :: "node_state \<Rightarrow> u64 \<Rightarrow> staleness option" where
  "staleness_score s floor_version =
     (if ns_max_version s \<le> floor_version then None
      else
        (let is_unknown = (floor_version = 0) in
         Some \<lparr>st_is_unknown = is_unknown, st_max_version = ns_max_version s,
           st_num_stale_key_values =
             (if is_unknown then num_key_values s else length (ns_stale_key_values floor_version s))\<rparr>))"

record stale_node =
  sn_chitchat_id :: chitchat_id
  sn_node_state :: node_state
  sn_from_version_excluded :: u64

definition sn_stale_key_values :: "stale_node \<Rightarrow> (bytes \<times> versioned_value) list" where
  "sn_stale_key_values n =
     sort_key (\<lambda>(_, v). vv_version v) (ns_stale_key_values (sn_from_version_excluded n) (sn_node_state n))"

type_synonym sorted_stale_nodes = "(bool \<times> int, stale_node list) hmap"

definition offer :: "chitchat_id \<Rightarrow> node_state \<Rightarrow> u64 \<Rightarrow> sorted_stale_nodes \<Rightarrow> sorted_stale_nodes" where
  "offer c s from_version_excluded m =
     (case staleness_score s from_version_excluded of
        None \<Rightarrow> m
      | Some st \<Rightarrow>
          (let n = \<lparr>sn_chitchat_id = c, sn_node_state = s, sn_from_version_excluded = from_version_excluded\<rparr>
           in hm_modify_or_insert (staleness_key st) (\<lambda>l. l @ [n]) [n] m))"

definition stale_nodes_into_iter :: "(stale_node list \<Rightarrow> stale_node list) \<Rightarrow> sorted_stale_nodes \<Rightarrow> stale_node list" where
  "stale_nodes_into_iter shuffle m = concat (map (shuffle \<circ> snd) (rev (sort_key fst m)))"

section \<open>Reconciliation\<close>

definition from_version :: "node_digest option \<Rightarrow> node_state \<Rightarrow> u64" where
  "from_version dg s =
     (let (gc, mv) = (case dg of Some d \<Rightarrow> (dg_last_gc_version d, dg_max_version d) | None \<Rightarrow> (0, 0))
      in if gc < ns_last_gc_version s \<and> mv < ns_last_gc_version s then 0 else mv)"

definition collect_stale :: "digest \<Rightarrow> chitchat_id list \<Rightarrow> cluster_state \<Rightarrow> sorted_stale_nodes" where
  "collect_stale dg scheduled cs =
     fold (\<lambda>(c, s) m.
         if c \<in> set scheduled \<or>
            ns_max_version s \<le> (case hm_get dg c of Some d \<Rightarrow> dg_max_version d | None \<Rightarrow> 0)
         then m
         else offer c s (from_version (hm_get dg c) s) m)
       (in_id_order (cs_node_states cs)) []"

fun add_kvs :: "zstd \<Rightarrow> (bytes \<times> versioned_value) list \<Rightarrow> delta_serializer \<Rightarrow> (bool \<times> delta_serializer) outcome" where
  "add_kvs z [] s = Ok (True, s)"
| "add_kvs z ((k, v) # kvs) s =
     obind (try_add_kv z k v s) (\<lambda>(added, s). if added then add_kvs z kvs s else Ok (False, s))"

fun add_stale_nodes :: "zstd \<Rightarrow> stale_node list \<Rightarrow> delta_serializer \<Rightarrow> delta outcome" where
  "add_stale_nodes z [] s = serializer_finish z s"
| "add_stale_nodes z (n # ns) s =
     obind (try_add_node z (sn_chitchat_id n) (ns_last_gc_version (sn_node_state n)) (sn_from_version_excluded n) s)
       (\<lambda>(added, s).
     if \<not> added then serializer_finish z s
     else
       obind (add_kvs z (sn_stale_key_values n) s) (\<lambda>(complete, s).
       if \<not> complete then serializer_finish z s
       else if sn_stale_key_values n = [] then
         obind (try_set_max_version z (ns_max_version (sn_node_state n)) s) (\<lambda>(_, s). add_stale_nodes z ns s)
       else add_stale_nodes z ns s))"

definition compute_partial_delta_respecting_mtu ::
    "zstd \<Rightarrow> (stale_node list \<Rightarrow> stale_node list) \<Rightarrow> digest \<Rightarrow> nat \<Rightarrow> chitchat_id list \<Rightarrow> cluster_state \<Rightarrow> delta outcome" where
  "compute_partial_delta_respecting_mtu z shuffle dg mtu scheduled cs =
     obind (with_mtu mtu) (add_stale_nodes z (stale_nodes_into_iter shuffle (collect_stale dg scheduled cs)))"

section \<open>Histories and faithful copies\<close>

text \<open>
  The owner of a state numbers its writes; the history is the list of the writes, each with the
  version it got. A copy of the state is faithful to the history when it holds only writes of the
  history, holds the latest write of every key up to its own version unless this is a deletion
  already collected, and holds no outdated value whose deletion it would skip.
\<close>

type_synonym history = "key_value_mutation list"

definition history_top :: "history \<Rightarrow> u64" where
  "history_top h = (if h = [] then 0 else kvm_version (last h))"

definition history_ok :: "history \<Rightarrow> bool" where
  "history_ok h = (sorted_wrt (<) (map kvm_version h) \<and> (\<forall>m \<in> set h. 0 < kvm_version m))"

definition latest :: "history \<Rightarrow> bytes \<Rightarrow> key_value_mutation option" where
  "latest h k = find (\<lambda>m. kvm_key m = k) (rev h)"

definition faithful :: "history \<Rightarrow> node_state \<Rightarrow> bool" where
  "faithful h s =
     (hm_wf (ns_key_values s) \<and> ns_max_version s \<le> history_top h \<and> ns_last_gc_version s \<le> history_top h \<and>
      (\<forall>k e. get_versioned s k = Some e \<longrightarrow> mutation_of k e \<in> set h \<and> vv_version e \<le> ns_max_version s) \<and>
      (\<forall>k m. latest h k = Some m \<longrightarrow> kvm_version m \<le> ns_max_version s \<longrightarrow>
         (\<exists>e. get_versioned s k = Some e \<and> mutation_of k e = m) \<or>
         get_versioned s k = None \<and> scheduled_for_deletion (kvm_status m) \<and> kvm_version m \<le> ns_last_gc_version s) \<and>
      (\<forall>k e m. get_versioned s k = Some e \<longrightarrow> latest h k = Some m \<longrightarrow> vv_version e < kvm_version m \<longrightarrow>
         scheduled_for_deletion (kvm_status m) \<longrightarrow> ns_last_gc_version s < kvm_version m))"

text \<open>A delta about a member is faithful when it comes from a faithful copy.\<close>

definition delta_faithful :: "history \<Rightarrow> node_delta \<Rightarrow> bool" where
  "delta_faithful h nd =
     (nd_last_gc_version nd \<le> history_top h \<and>
      (\<forall>m \<in> set (nd_key_values nd). m \<in> set h) \<and> distinct (map kvm_key (nd_key_values nd)) \<and>
      (nd_max_version nd \<noteq> None \<longrightarrow> nd_key_values nd = []) \<and>
      (\<forall>v. delta_max_version nd = Some v \<longrightarrow> v \<le> history_top h \<and>
         (\<forall>k m. latest h k = Some m \<longrightarrow> nd_from_version_excluded nd < kvm_version m \<longrightarrow> kvm_version m \<le> v \<longrightarrow>
            m \<in> set (nd_key_values nd) \<or>
            scheduled_for_deletion (kvm_status m) \<and> kvm_version m \<le> nd_last_gc_version nd)) \<and>
      (\<forall>m' \<in> set (nd_key_values nd). \<forall>m. latest h (kvm_key m') = Some m \<longrightarrow> kvm_version m' < kvm_version m \<longrightarrow>
         scheduled_for_deletion (kvm_status m) \<longrightarrow> nd_last_gc_version nd < kvm_version m))"

lemma mutation_of_sel [simp]:
  "kvm_key (mutation_of k e) = k" "kvm_value (mutation_of k e) = vv_value e"
  "kvm_version (mutation_of k e) = vv_version e" "kvm_status (mutation_of k e) = mutation_from_status (vv_status e)"
  by (simp_all add: mutation_of_def)

lemma latest_snoc: "latest (h @ [m]) k = (if kvm_key m = k then Some m else latest h k)"
  by (simp add: latest_def)

lemma latest_Some: "latest h k = Some m \<Longrightarrow> m \<in> set h \<and> kvm_key m = k"
  unfolding latest_def find_Some_iff by (metis nth_mem set_rev)

lemma latest_None: "latest h k = None \<longleftrightarrow> (\<forall>m \<in> set h. kvm_key m \<noteq> k)"
  by (auto simp: latest_def find_None_iff)

lemma history_top_snoc [simp]: "history_top (h @ [m]) = kvm_version m"
  by (simp add: history_top_def)

lemma history_ok_snoc: "history_ok (h @ [m]) \<longleftrightarrow> history_ok h \<and> history_top h < kvm_version m"
  by (cases h rule: rev_cases)
    (auto simp: history_ok_def history_top_def sorted_wrt_append word_gt_0 intro: order.strict_trans word_gt_0 [THEN iffD2])

lemma latest_max:
  assumes "history_ok h" and "m \<in> set h"
  shows "\<exists>m'. latest h (kvm_key m) = Some m' \<and> kvm_version m \<le> kvm_version m'"
  using assms
proof (induction h rule: rev_induct)
  case (snoc x h)
  then have "\<forall>y \<in> set h. kvm_version y < kvm_version x" by (auto simp: history_ok_def sorted_wrt_append)
  with snoc show ?case by (fastforce simp: latest_snoc history_ok_snoc)
qed simp

lemma history_le_top: "history_ok h \<Longrightarrow> m \<in> set h \<Longrightarrow> kvm_version m \<le> history_top h"
proof (induction h rule: rev_induct)
  case (snoc x h)
  then show ?case by (auto simp: history_ok_snoc)
qed simp

lemma history_version_inject:
  "history_ok h \<Longrightarrow> m \<in> set h \<Longrightarrow> m' \<in> set h \<Longrightarrow> kvm_version m = kvm_version m' \<Longrightarrow> m = m'"
proof (induction h rule: rev_induct)
  case (snoc x h)
  then have "\<forall>y \<in> set h. kvm_version y < kvm_version x" by (auto simp: history_ok_def sorted_wrt_append)
  with snoc show ?case by (auto simp: history_ok_snoc)
qed simp

lemma latest_le_top: "history_ok h \<Longrightarrow> latest h k = Some m \<Longrightarrow> kvm_version m \<le> history_top h"
  using history_le_top latest_Some by blast

lemma node_state_new_max: "ns_max_version (node_state_new c) = 0"
  by (simp add: node_state_new_def)

lemma faithful_new: "history_ok h \<Longrightarrow> faithful h (node_state_new c)"
  by (auto simp: faithful_def node_state_new_def get_versioned_def history_ok_def dest!: latest_Some)

lemma faithful_heartbeat [simp]: "faithful h (s\<lparr>ns_heartbeat := x\<rparr>) = faithful h s"
  by (simp add: faithful_def get_versioned_def)

section \<open>The owner writes\<close>

lemma faithful_grow:
  assumes "faithful h s" and "history_top h < kvm_version m"
  shows "faithful (h @ [m]) s"
  using assms unfolding faithful_def latest_snoc history_top_snoc
  by (auto split: if_splits)

lemma delta_faithful_grow:
  assumes "delta_faithful h nd" and "history_top h < kvm_version m"
  shows "delta_faithful (h @ [m]) nd"
  using assms unfolding delta_faithful_def latest_snoc history_top_snoc
  by (auto split: if_splits)

lemma faithful_entry:
  "faithful h s \<Longrightarrow> get_versioned s k = Some e \<Longrightarrow> mutation_of k e \<in> set h \<and> vv_version e \<le> ns_max_version s"
  unfolding faithful_def by blast

lemma faithful_latest:
  "faithful h s \<Longrightarrow> latest h k = Some m \<Longrightarrow> kvm_version m \<le> ns_max_version s \<Longrightarrow>
   (\<exists>e. get_versioned s k = Some e \<and> mutation_of k e = m) \<or>
   get_versioned s k = None \<and> scheduled_for_deletion (kvm_status m) \<and> kvm_version m \<le> ns_last_gc_version s"
  unfolding faithful_def by blast

lemma faithful_outdated:
  "faithful h s \<Longrightarrow> get_versioned s k = Some e \<Longrightarrow> latest h k = Some m \<Longrightarrow> vv_version e < kvm_version m \<Longrightarrow>
   scheduled_for_deletion (kvm_status m) \<Longrightarrow> ns_last_gc_version s < kvm_version m"
  unfolding faithful_def by blast

lemma faithful_tops:
  "faithful h s \<Longrightarrow> hm_wf (ns_key_values s) \<and> ns_max_version s \<le> history_top h \<and> ns_last_gc_version s \<le> history_top h"
  unfolding faithful_def by blast

lemma faithful_write:
  assumes "faithful h s" and "ns_max_version s = history_top h" and "history_top h < vv_version u" and "history_ok h"
  shows "faithful (h @ [mutation_of k u]) (s\<lparr>ns_max_version := vv_version u, ns_key_values := hm_insert k u (ns_key_values s)\<rparr>)"
    (is "faithful ?h ?s")
proof -
  have get: "get_versioned ?s k' = (if k' = k then Some u else get_versioned s k')" for k'
    by (simp add: get_versioned_def hm.get_ins)
  note tops = faithful_tops [OF assms(1)]
  show ?thesis
    unfolding faithful_def
  proof (intro conjI allI impI)
    show "hm_wf (ns_key_values ?s)" using tops by (simp add: hm.wf_ins)
    show "ns_max_version ?s \<le> history_top ?h" "ns_last_gc_version ?s \<le> history_top ?h"
      using tops assms(3) by auto
  next
    fix k' e assume "get_versioned ?s k' = Some e"
    then show "mutation_of k' e \<in> set ?h" "vv_version e \<le> ns_max_version ?s"
      using faithful_entry [OF assms(1), of k' e] assms(2,3) by (auto simp: get split: if_splits)
  next
    fix k' m assume "latest ?h k' = Some m" "kvm_version m \<le> ns_max_version ?s"
    then show "(\<exists>e. get_versioned ?s k' = Some e \<and> mutation_of k' e = m) \<or>
       get_versioned ?s k' = None \<and> scheduled_for_deletion (kvm_status m) \<and> kvm_version m \<le> ns_last_gc_version ?s"
      using faithful_latest [OF assms(1), of k' m] assms(2) tops
      by (cases "k' = k") (auto simp: latest_snoc get dest: latest_le_top [OF assms(4)])
  next
    fix k' e m
    assume "get_versioned ?s k' = Some e" "latest ?h k' = Some m" "vv_version e < kvm_version m"
      "scheduled_for_deletion (kvm_status m)"
    then show "ns_last_gc_version ?s < kvm_version m"
      using faithful_outdated [OF assms(1), of k' e m] by (auto simp: get latest_snoc split: if_splits)
  qed
qed

datatype local_write =
    WriteSet bytes bytes
  | WriteSetWithTtl bytes bytes
  | WriteDelete bytes
  | WriteDeleteAfterTtl bytes

fun written_key :: "local_write \<Rightarrow> bytes" where
  "written_key (WriteSet k v) = k"
| "written_key (WriteSetWithTtl k v) = k"
| "written_key (WriteDelete k) = k"
| "written_key (WriteDeleteAfterTtl k) = k"

fun do_write :: "listeners \<Rightarrow> instant \<Rightarrow> local_write \<Rightarrow> node_state \<Rightarrow> node_state outcome" where
  "do_write ls now (WriteSet k v) s = obind (ns_set ls k v s) (\<lambda>(_, s). Ok s)"
| "do_write ls now (WriteSetWithTtl k v) s = obind (ns_set_with_ttl ls now k v s) (\<lambda>(_, s). Ok s)"
| "do_write ls now (WriteDelete k) s = ns_delete now k s"
| "do_write ls now (WriteDeleteAfterTtl k) s = ns_delete_after_ttl now k s"

text \<open>The history after a write: one more mutation if the write took a new version.\<close>

definition logged :: "local_write \<Rightarrow> node_state \<Rightarrow> node_state \<Rightarrow> history \<Rightarrow> history" where
  "logged w s s' h =
     (if ns_max_version s' = ns_max_version s then h
      else (case get_versioned s' (written_key w) of Some e \<Rightarrow> h @ [mutation_of (written_key w) e] | None \<Rightarrow> h))"

lemma checked_add_1_less: "checked_add v 1 = Some v' \<Longrightarrow> (v :: u64) < v'"
proof -
  assume "checked_add v 1 = Some v'"
  then have "unat v' = unat v + 1" using unat_checked_add by fastforce
  then show "v < v'" by (simp add: word_less_nat_alt)
qed

text \<open>Every write either leaves the state alone or puts one entry under the next version.\<close>

lemma do_write_cases:
  assumes "do_write ls now w s = Ok s'" and "\<And>k e. get_versioned s k = Some e \<Longrightarrow> vv_version e \<le> ns_max_version s"
  shows "s' = s \<or>
    (\<exists>u. ns_max_version s < vv_version u \<and>
       s' = s\<lparr>ns_max_version := vv_version u, ns_key_values := hm_insert (written_key w) u (ns_key_values s)\<rparr>)"
proof -
  have put: "s'' = s\<lparr>ns_max_version := vv_version u, ns_key_values := hm_insert k u (ns_key_values s)\<rparr>"
    if "set_versioned_value ls k u s = Ok (calls, s'')" "ns_max_version s < vv_version u" for k u calls s''
    using that assms(2) [of k]
    by (fastforce simp: set_versioned_value_def Let_def get_versioned_def max_def split: if_splits option.splits)
  have via_set: ?thesis
    if "checked_add (ns_max_version s) 1 = Some (vv_version u)" "set_versioned_value ls (written_key w) u s = Ok (calls, s')"
    for u calls
    using put [OF that(2)] checked_add_1_less [OF that(1)] by blast
  have in_place: ?thesis
    if "checked_add (ns_max_version s) 1 = Some (vv_version u)"
      "s' = s\<lparr>ns_max_version := vv_version u, ns_key_values := hm_insert (written_key w) u (ns_key_values s)\<rparr>" for u
    using that(2) checked_add_1_less [OF that(1)] by blast
  show ?thesis
  proof (cases w)
    case (WriteSet k v)
    then obtain calls where "ns_set ls k v s = Ok (calls, s')" using assms(1) by auto
    then consider "s' = s" | v' where "checked_add (ns_max_version s) 1 = Some v'"
        "set_versioned_value ls (written_key w) \<lparr>vv_value = v, vv_version = v', vv_status = StatusSet\<rparr> s = Ok (calls, s')"
      unfolding ns_set_def set_with_version_def WriteSet by (auto split: if_splits)
    then show ?thesis by cases (simp, rule via_set, simp_all)
  next
    case (WriteSetWithTtl k v)
    then obtain calls where "ns_set_with_ttl ls now k v s = Ok (calls, s')" using assms(1) by auto
    then consider "s' = s" | v' where "checked_add (ns_max_version s) 1 = Some v'"
        "set_versioned_value ls (written_key w) \<lparr>vv_value = v, vv_version = v', vv_status = StatusDeleteAfterTtl now\<rparr> s = Ok (calls, s')"
      unfolding ns_set_with_ttl_def WriteSetWithTtl by (auto split: if_splits)
    then show ?thesis by cases (simp, rule via_set, simp_all)
  next
    case (WriteDelete k)
    then have run: "ns_delete now k s = Ok s'" using assms(1) by simp
    show ?thesis
    proof (cases "get_versioned s k")
      case None
      with run show ?thesis by (simp add: ns_delete_def)
    next
      case (Some v)
      with run obtain v' where v': "checked_add (ns_max_version s) 1 = Some v'"
        by (cases "checked_add (ns_max_version s) 1") (simp_all add: ns_delete_def)
      show ?thesis
        by (rule in_place [of "\<lparr>vv_value = [], vv_version = v', vv_status = into_status MutDelete now\<rparr>"])
          (use run Some v' in \<open>simp_all add: ns_delete_def WriteDelete\<close>)
    qed
  next
    case (WriteDeleteAfterTtl k)
    then have run: "ns_delete_after_ttl now k s = Ok s'" using assms(1) by simp
    show ?thesis
    proof (cases "get_versioned s k")
      case None
      with run show ?thesis by (simp add: ns_delete_after_ttl_def)
    next
      case (Some v)
      with run obtain v' where v': "checked_add (ns_max_version s) 1 = Some v'"
        by (cases "checked_add (ns_max_version s) 1") (simp_all add: ns_delete_after_ttl_def)
      show ?thesis
        by (rule in_place [of "v\<lparr>vv_version := v', vv_status := into_status MutDeleteAfterTtl now\<rparr>"])
          (use run Some v' in \<open>simp_all add: ns_delete_after_ttl_def WriteDeleteAfterTtl\<close>)
    qed
  qed
qed

lemma do_write_faithful:
  assumes "do_write ls now w s = Ok s'" and "faithful h s" and "history_ok h" and "ns_max_version s = history_top h"
  shows "history_ok (logged w s s' h) \<and> faithful (logged w s s' h) s' \<and>
    ns_max_version s' = history_top (logged w s s' h) \<and>
    (logged w s s' h = h \<or> (\<exists>m. logged w s s' h = h @ [m] \<and> history_top h < kvm_version m))"
proof -
  have written: "s' = s \<or> (\<exists>u. ns_max_version s < vv_version u \<and>
      s' = s\<lparr>ns_max_version := vv_version u, ns_key_values := hm_insert (written_key w) u (ns_key_values s)\<rparr>)"
    by (rule do_write_cases [OF assms(1)]) (use faithful_entry [OF assms(2)] in blast)
  show ?thesis
  proof (cases "s' = s")
    case True
    with assms show ?thesis by (simp add: logged_def)
  next
    case False
    then obtain u where u: "ns_max_version s < vv_version u"
      "s' = s\<lparr>ns_max_version := vv_version u, ns_key_values := hm_insert (written_key w) u (ns_key_values s)\<rparr>"
      using written by blast
    have "logged w s s' h = h @ [mutation_of (written_key w) u]"
      unfolding u(2) using u(1) by (simp add: logged_def get_versioned_def)
    moreover have "ns_max_version s' = vv_version u" by (simp add: u(2))
    moreover have "faithful (h @ [mutation_of (written_key w) u]) s'"
      unfolding u(2) by (rule faithful_write [OF assms(2,4) _ assms(3)]) (use u(1) assms(4) in simp)
    ultimately show ?thesis using u(1) assms(3,4) by (simp add: history_ok_snoc)
  qed
qed

section \<open>Collecting deletions\<close>

abbreviation fold_versions :: "(bytes \<times> versioned_value) list \<Rightarrow> u64 \<Rightarrow> u64" where
  "fold_versions \<equiv> fold (\<lambda>(_, v) acc. max (vv_version v) acc)"

lemma fold_max_version:
  "g \<le> fold_versions xs g \<and> (\<forall>(k, v) \<in> set xs. vv_version v \<le> fold_versions xs g) \<and>
    (fold_versions xs g = g \<or> (\<exists>(k, v) \<in> set xs. fold_versions xs g = vv_version v))"
proof (induction xs arbitrary: g)
  case (Cons x xs)
  obtain k v where x: "x = (k, v)" by (cases x)
  from Cons.IH [of "max (vv_version v) g"] show ?case
    by (auto simp: x max_def split: if_splits)
qed simp

lemma gc_keys_faithful:
  assumes "faithful h s"
  shows "faithful h (ns_gc_keys_marked_for_deletion now grace s)" (is "faithful h ?s")
proof -
  note tops = faithful_tops [OF assms]
  have get: "get_versioned ?s k = (case get_versioned s k of None \<Rightarrow> None | Some e \<Rightarrow>
      if expired now grace e then None else Some e)" for k
    using tops by (simp add: ns_gc_keys_marked_for_deletion_def get_versioned_def hm_get_retain split: option.splits)
  have max: "ns_max_version ?s = ns_max_version s"
    by (simp add: ns_gc_keys_marked_for_deletion_def)
  let ?gone = "filter (\<lambda>(_, v). expired now grace v) (ns_key_values s)"
  note fold = fold_max_version [of "ns_last_gc_version s" ?gone]
  have gc: "ns_last_gc_version s \<le> ns_last_gc_version ?s"
    "ns_last_gc_version ?s = ns_last_gc_version s \<or> ns_last_gc_version ?s \<le> ns_max_version s"
    "\<And>k e. get_versioned s k = Some e \<Longrightarrow> expired now grace e \<Longrightarrow> vv_version e \<le> ns_last_gc_version ?s"
  proof -
    have entry: "vv_version v \<le> ns_max_version s" if "(k, v) \<in> set ?gone" for k v
      using that faithful_entry [OF assms, of k v] tops by (auto simp: get_versioned_def hm_get_iff)
    show "ns_last_gc_version s \<le> ns_last_gc_version ?s"
      using fold by (simp add: ns_gc_keys_marked_for_deletion_def)
    show "ns_last_gc_version ?s = ns_last_gc_version s \<or> ns_last_gc_version ?s \<le> ns_max_version s"
      using fold entry by (auto simp: ns_gc_keys_marked_for_deletion_def)
    show "vv_version e \<le> ns_last_gc_version ?s" if "get_versioned s k = Some e" "expired now grace e" for k e
    proof -
      have "(k, e) \<in> set ?gone" using that by (auto simp: get_versioned_def dest: hm_get_SomeD)
      then show ?thesis using fold by (auto simp: ns_gc_keys_marked_for_deletion_def)
    qed
  qed
  have sched: "scheduled_for_deletion (mutation_from_status (vv_status e))" if "expired now grace e" for e
    using that by (auto simp: expired_def scheduled_iff_time split: option.splits)
  show ?thesis
    unfolding faithful_def max
  proof (intro conjI allI impI)
    show "hm_wf (ns_key_values ?s)" using tops by (simp add: ns_gc_keys_marked_for_deletion_def hm_wf_retain)
    show "ns_max_version s \<le> history_top h" "ns_last_gc_version ?s \<le> history_top h" using tops gc(2) by auto
  next
    fix k e assume "get_versioned ?s k = Some e"
    then have "get_versioned s k = Some e" by (auto simp: get split: option.splits if_splits)
    then show "mutation_of k e \<in> set h" "vv_version e \<le> ns_max_version s"
      using faithful_entry [OF assms] by blast+
  next
    fix k m assume m: "latest h k = Some m" "kvm_version m \<le> ns_max_version s"
    from faithful_latest [OF assms this]
    show "(\<exists>e. get_versioned ?s k = Some e \<and> mutation_of k e = m) \<or>
       get_versioned ?s k = None \<and> scheduled_for_deletion (kvm_status m) \<and> kvm_version m \<le> ns_last_gc_version ?s"
    proof (elim disjE exE conjE)
      fix e assume e: "get_versioned s k = Some e" "mutation_of k e = m"
      then show ?thesis
        using sched [of e] gc(3) [of k e] by (cases "expired now grace e") (auto simp: get simp flip: e(2))
    next
      assume "get_versioned s k = None" "scheduled_for_deletion (kvm_status m)" "kvm_version m \<le> ns_last_gc_version s"
      then show ?thesis using gc(1) by (auto simp: get)
    qed
  next
    fix k e m
    assume e: "get_versioned ?s k = Some e" and m: "latest h k = Some m" "vv_version e < kvm_version m"
      "scheduled_for_deletion (kvm_status m)"
    from e have e: "get_versioned s k = Some e" by (auto simp: get split: option.splits if_splits)
    have "\<not> kvm_version m \<le> ns_max_version s"
      using faithful_latest [OF assms m(1)] e m(2) by auto
    with faithful_outdated [OF assms e m] gc(2) show "ns_last_gc_version ?s < kvm_version m" by auto
  qed
qed

section \<open>Applying a delta\<close>

definition mutation_entry :: "instant \<Rightarrow> key_value_mutation \<Rightarrow> versioned_value" where
  "mutation_entry now m = \<lparr>vv_value = kvm_value m, vv_version = kvm_version m, vv_status = into_status (kvm_status m) now\<rparr>"

definition skipped :: "u64 \<Rightarrow> u64 \<Rightarrow> key_value_mutation \<Rightarrow> bool" where
  "skipped current gc m = (kvm_version m \<le> current \<or> scheduled_for_deletion (kvm_status m) \<and> kvm_version m \<le> gc)"

lemma mutation_of_entry [simp]: "mutation_of (kvm_key m) (mutation_entry now m) = m"
  by (simp add: mutation_of_def mutation_entry_def)

lemma mutation_entry_version [simp]: "vv_version (mutation_entry now m) = kvm_version m"
  by (simp add: mutation_entry_def)

lemma set_versioned_value_fresh:
  assumes "set_versioned_value ls k u s = Ok (calls, s')"
    and "\<And>e. get_versioned s k = Some e \<Longrightarrow> vv_version e < vv_version u"
  shows "s' = s\<lparr>ns_max_version := max (vv_version u) (ns_max_version s), ns_key_values := hm_insert k u (ns_key_values s)\<rparr>"
proof -
  have "\<not> (case hm_get (ns_key_values s) k of Some e \<Rightarrow> vv_version e \<ge> vv_version u | None \<Rightarrow> False)"
    using assms(2) by (cases "hm_get (ns_key_values s) k") (auto simp: get_versioned_def not_le)
  with assms(1) show ?thesis
    unfolding set_versioned_value_def Let_def by (auto split: if_splits)
qed

lemma apply_mutations_result:
  assumes "apply_mutations ls now cur ms s = Ok (calls, s')" and "distinct (map kvm_key ms)"
    and "\<forall>m \<in> set ms. \<forall>e. get_versioned s (kvm_key m) = Some e \<longrightarrow> vv_version e \<le> cur"
    and "hm_wf (ns_key_values s)"
  shows "ns_last_gc_version s' = ns_last_gc_version s \<and> hm_wf (ns_key_values s') \<and>
    ns_max_version s \<le> ns_max_version s' \<and>
    (ns_max_version s' = ns_max_version s \<or>
      (\<exists>m \<in> set ms. \<not> skipped cur (ns_last_gc_version s) m \<and> ns_max_version s' = kvm_version m)) \<and>
    (\<forall>m \<in> set ms. \<not> skipped cur (ns_last_gc_version s) m \<longrightarrow>
      get_versioned s' (kvm_key m) = Some (mutation_entry now m) \<and> kvm_version m \<le> ns_max_version s') \<and>
    (\<forall>k. (\<forall>m \<in> set ms. kvm_key m = k \<longrightarrow> skipped cur (ns_last_gc_version s) m) \<longrightarrow>
      get_versioned s' k = get_versioned s k)"
  using assms
proof (induction ms arbitrary: s calls)
  case (Cons m ms)
  show ?case
  proof (cases "skipped cur (ns_last_gc_version s) m")
    case True
    then have "apply_mutations ls now cur ms s = Ok (calls, s')"
      using Cons.prems(1) by (simp add: skipped_def)
    from Cons.IH [OF this _ _ Cons.prems(4)] Cons.prems(2,3) True show ?thesis by simp
  next
    case False
    then obtain s1 c1 c2 where set1: "set_versioned_value ls (kvm_key m) (mutation_entry now m) s = Ok (c1, s1)"
      and rest: "apply_mutations ls now cur ms s1 = Ok (c2, s')"
      using Cons.prems(1) by (auto simp: skipped_def mutation_entry_def)
    have fresh: "vv_version e < kvm_version m" if "get_versioned s (kvm_key m) = Some e" for e
      using Cons.prems(3) that False by (auto simp: skipped_def not_le)
    have s1: "s1 = s\<lparr>ns_max_version := max (kvm_version m) (ns_max_version s),
        ns_key_values := hm_insert (kvm_key m) (mutation_entry now m) (ns_key_values s)\<rparr>"
      using set_versioned_value_fresh [OF set1] fresh by simp
    have get1: "get_versioned s1 k = (if k = kvm_key m then Some (mutation_entry now m) else get_versioned s k)" for k
      by (simp add: s1 get_versioned_def hm.get_ins)
    have keys: "\<And>m'. m' \<in> set ms \<Longrightarrow> kvm_key m' \<noteq> kvm_key m" "distinct (map kvm_key ms)"
      using Cons.prems(2) by (auto simp: image_iff)
    have old: "\<forall>m' \<in> set ms. \<forall>e. get_versioned s1 (kvm_key m') = Some e \<longrightarrow> vv_version e \<le> cur"
      using Cons.prems(3) keys(1) by (simp add: get1)
    have s1': "ns_last_gc_version s1 = ns_last_gc_version s" "hm_wf (ns_key_values s1)"
      "ns_max_version s1 = max (kvm_version m) (ns_max_version s)"
      using Cons.prems(4) by (simp_all add: s1 hm.wf_ins)
    note ih = Cons.IH [OF rest keys(2) old s1'(2), unfolded s1'(1)]
    have last: "get_versioned s' (kvm_key m) = Some (mutation_entry now m)"
      using ih keys(1) by (simp add: get1)
    show ?thesis
    proof (intro conjI allI impI ballI)
      show "ns_last_gc_version s' = ns_last_gc_version s" "hm_wf (ns_key_values s')" using ih by blast+
      show "ns_max_version s \<le> ns_max_version s'" using ih s1'(3) by (auto simp: max_def split: if_splits)
      show "ns_max_version s' = ns_max_version s \<or>
          (\<exists>m \<in> set (m # ms). \<not> skipped cur (ns_last_gc_version s) m \<and> ns_max_version s' = kvm_version m)"
        using ih False s1'(3) by (auto simp: max_def split: if_splits)
    next
      fix m' assume "m' \<in> set (m # ms)" "\<not> skipped cur (ns_last_gc_version s) m'"
      then show "get_versioned s' (kvm_key m') = Some (mutation_entry now m')" "kvm_version m' \<le> ns_max_version s'"
        using ih last s1'(3) by (auto simp: max_def split: if_splits)
    next
      fix k assume "\<forall>m' \<in> set (m # ms). kvm_key m' = k \<longrightarrow> skipped cur (ns_last_gc_version s) m'"
      then show "get_versioned s' k = get_versioned s k" using ih False by (auto simp: get1)
    qed
  qed
qed simp

lemma foldl_max_ge: "(v :: u64) \<le> foldl max v vs \<and> (\<forall>x \<in> set vs. x \<le> foldl max v vs)"
proof (induction vs arbitrary: v)
  case (Cons x vs)
  from Cons.IH [of "max v x"] show ?case by (auto intro: order_trans)
qed simp

lemma foldl_max_in: "foldl max (v :: u64) vs \<in> set (v # vs)"
proof (induction vs arbitrary: v)
  case (Cons x vs)
  from Cons.IH [of "max v x"] show ?case by (auto simp: max_def split: if_splits)
qed simp

lemma delta_max_version_kvs:
  assumes "nd_key_values nd \<noteq> []"
  obtains m where "m \<in> set (nd_key_values nd)" "delta_max_version nd = Some (kvm_version m)"
    "\<And>m'. m' \<in> set (nd_key_values nd) \<Longrightarrow> kvm_version m' \<le> kvm_version m"
proof -
  obtain a as where kvs: "nd_key_values nd = a # as" using assms by (cases "nd_key_values nd") auto
  let ?v = "foldl max (kvm_version a) (map kvm_version as)"
  have "?v \<in> kvm_version ` set (nd_key_values nd)"
    using foldl_max_in [of "kvm_version a" "map kvm_version as"] by (auto simp: kvs)
  then obtain m where m: "m \<in> set (nd_key_values nd)" "?v = kvm_version m" by auto
  have ge: "kvm_version m' \<le> ?v" if "m' \<in> set (nd_key_values nd)" for m'
    using that foldl_max_ge [of "kvm_version a" "map kvm_version as"] by (auto simp: kvs)
  have "delta_max_version nd = Some ?v" by (simp add: delta_max_version_def kvs)
  with m ge show ?thesis using that by metis
qed

text \<open>
  What a delta can rely on when it is merged into a copy: nothing collected by the sender lies above
  the version of the copy without being collected in the copy too, and the copy has collected nothing
  above its own version that the sender still has.
\<close>

lemma merge_faithful:
  assumes b: "faithful h b" and d: "delta_faithful h nd" and h: "history_ok h"
    and start: "nd_from_version_excluded nd \<le> ns_max_version b"
    and gap: "nd_last_gc_version nd < ns_max_version b \<or> nd_last_gc_version nd \<le> ns_last_gc_version b"
    and safe: "ns_last_gc_version b \<le> ns_max_version b \<or> ns_last_gc_version b \<le> nd_last_gc_version nd"
    and run: "apply_mutations ls now (ns_max_version b) (nd_key_values nd) b = Ok (calls, s)"
  shows "faithful h s"
proof -
  let ?kvs = "nd_key_values nd" and ?cur = "ns_max_version b" and ?gc = "ns_last_gc_version b"
  note d' = d [unfolded delta_faithful_def]
  have kvs: "\<And>m. m \<in> set ?kvs \<Longrightarrow> m \<in> set h" "distinct (map kvm_key ?kvs)" using d' by blast+
  have old: "\<forall>m \<in> set ?kvs. \<forall>e. get_versioned b (kvm_key m) = Some e \<longrightarrow> vv_version e \<le> ?cur"
    using faithful_entry [OF b] by blast
  note res = apply_mutations_result [OF run kvs(2) old conjunct1 [OF faithful_tops [OF b]]]
  have new: "get_versioned s (kvm_key m) = Some (mutation_entry now m)" "kvm_version m \<le> ns_max_version s" "?cur < kvm_version m"
    if "m \<in> set ?kvs" "\<not> skipped ?cur ?gc m" for m
    using res that by (auto simp: skipped_def not_le)
  have gc: "ns_last_gc_version s = ?gc" using res by blast
  have from_kv: "(\<exists>m \<in> set ?kvs. kvm_key m = k \<and> \<not> skipped ?cur ?gc m) \<or> get_versioned s k = get_versioned b k" for k
    using res by blast
  have none: "get_versioned b k = None" if "latest h k = Some m" "?cur < kvm_version m" "scheduled_for_deletion (kvm_status m)"
      "kvm_version m \<le> ?gc" for k m
    using that faithful_entry [OF b, of k] faithful_outdated [OF b, of k] by (metis leD not_None_eq order_le_less_trans)
  show ?thesis
    unfolding faithful_def gc
  proof (intro conjI allI impI)
    show "hm_wf (ns_key_values s)" using res by blast
    show "?gc \<le> history_top h" using faithful_tops [OF b] by blast
    show "ns_max_version s \<le> history_top h"
      using res faithful_tops [OF b] kvs(1) history_le_top [OF h] by metis
  next
    fix k e assume e: "get_versioned s k = Some e"
    have "mutation_of k e \<in> set h \<and> vv_version e \<le> ns_max_version s"
      using from_kv [of k]
    proof
      assume "\<exists>m \<in> set ?kvs. kvm_key m = k \<and> \<not> skipped ?cur ?gc m"
      then show ?thesis using new kvs(1) e by auto
    next
      assume "get_versioned s k = get_versioned b k"
      then show ?thesis using faithful_entry [OF b, of k e] e res by auto
    qed
    then show "mutation_of k e \<in> set h" "vv_version e \<le> ns_max_version s" by blast+
  next
    fix k m assume m: "latest h k = Some m" "kvm_version m \<le> ns_max_version s"
    have later: "kvm_version m' \<le> kvm_version m" if "m' \<in> set ?kvs" "kvm_key m' = k" for m'
      using latest_max [OF h kvs(1) [OF that(1)]] that(2) m(1) by auto
    show "(\<exists>e. get_versioned s k = Some e \<and> mutation_of k e = m) \<or>
       get_versioned s k = None \<and> scheduled_for_deletion (kvm_status m) \<and> kvm_version m \<le> ?gc"
    proof (cases "kvm_version m \<le> ?cur")
      case True
      then have "get_versioned s k = get_versioned b k"
        using from_kv [of k] later new(3) by (metis leD order_trans)
      then show ?thesis using faithful_latest [OF b m(1) True] by simp
    next
      case above: False
      then obtain m1 where m1: "m1 \<in> set ?kvs" "kvm_version m \<le> kvm_version m1"
        using res m(2) by auto
      then have "?kvs \<noteq> []" by auto
      then obtain m2 where m2: "m2 \<in> set ?kvs" "delta_max_version nd = Some (kvm_version m2)"
        "kvm_version m1 \<le> kvm_version m2" using m1(1) by (metis delta_max_version_kvs)
      have covered: "m \<in> set ?kvs \<or> scheduled_for_deletion (kvm_status m) \<and> kvm_version m \<le> nd_last_gc_version nd"
        using d' m2(2,3) m(1) m1(2) start above by (meson le_less_linear order_le_less_trans order_trans)
      show ?thesis
      proof (cases "m \<in> set ?kvs \<and> \<not> skipped ?cur ?gc m")
        case True
        then show ?thesis using new(1) [of m] latest_Some [OF m(1)] mutation_of_entry by metis
      next
        case False
        have gone: "scheduled_for_deletion (kvm_status m) \<and> kvm_version m \<le> ?gc"
          using False covered gap above by (auto simp: skipped_def)
        have "skipped ?cur ?gc m'" if "m' \<in> set ?kvs" "kvm_key m' = k" for m'
        proof (cases "m' = m")
          case True
          then show ?thesis using gone by (simp add: skipped_def)
        next
          case outdated: False
          have "m \<notin> set ?kvs"
            using kvs(2) that outdated latest_Some [OF m(1)] by (metis distinct_map inj_onD)
          moreover have "kvm_version m' < kvm_version m"
            using later [OF that] outdated history_version_inject [OF h kvs(1) [OF that(1)]] latest_Some [OF m(1)]
            by (metis order_le_less)
          ultimately show ?thesis using d' covered that m(1) by (metis leD)
        qed
        then have "get_versioned s k = get_versioned b k" using from_kv [of k] by blast
        then show ?thesis using none [OF m(1)] above gone by auto
      qed
    qed
  next
    fix k e m
    assume e: "get_versioned s k = Some e" and m: "latest h k = Some m" "vv_version e < kvm_version m"
      "scheduled_for_deletion (kvm_status m)"
    show "?gc < kvm_version m"
      using from_kv [of k]
    proof
      assume "\<exists>m' \<in> set ?kvs. kvm_key m' = k \<and> \<not> skipped ?cur ?gc m'"
      then obtain m' where m': "m' \<in> set ?kvs" "kvm_key m' = k" "\<not> skipped ?cur ?gc m'" by blast
      then have "vv_version e = kvm_version m'" using new(1) e by auto
      then have "?cur < kvm_version m" "nd_last_gc_version nd < kvm_version m"
        using new(3) [OF m'(1,3)] m d' m'(1,2) by auto
      then show ?thesis using safe by auto
    next
      assume "get_versioned s k = get_versioned b k"
      then show ?thesis using faithful_outdated [OF b _ m] e by simp
    qed
  qed
qed

text \<open>Applying a delta resets the copy exactly when the sender collected deletions the copy may have missed.\<close>

definition resets :: "node_delta \<Rightarrow> node_state \<Rightarrow> bool" where
  "resets nd s = (nd_from_version_excluded nd \<le> ns_max_version s \<and> ns_max_version s \<le> nd_last_gc_version nd \<and>
     ns_last_gc_version s < nd_last_gc_version nd \<and> delta_max_version nd \<noteq> None)"

definition delta_safe :: "node_delta \<Rightarrow> node_state \<Rightarrow> bool" where
  "delta_safe nd s =
     ((resets nd s \<longrightarrow> nd_from_version_excluded nd = 0) \<and>
      (ns_last_gc_version s \<le> ns_max_version s \<or> ns_last_gc_version s \<le> nd_last_gc_version nd))"

text \<open>In particular the test whether the delta brings a fresher state never fails where it stands.\<close>

lemma prepare_apply_delta_eq:
  "prepare_apply_delta nd s =
     (if resets nd s then (True, reset_for nd)
      else (nd_from_version_excluded nd \<le> ns_max_version s \<and>
        (nd_last_gc_version nd < ns_max_version s \<or> nd_last_gc_version nd \<le> ns_last_gc_version s), s))"
  by (auto simp: prepare_apply_delta_def resets_def not_le not_less less_eq_prod_def split: option.splits)

lemma reset_for_faithful:
  assumes "delta_faithful h nd" and "history_ok h" and "resets nd s" and "nd_from_version_excluded nd = 0"
  shows "faithful h (reset_for nd)"
proof -
  note d = assms(1) [unfolded delta_faithful_def]
  have pos: "0 < kvm_version m" if "latest h k = Some m" for k m
    using that assms(2) latest_Some by (auto simp: history_ok_def)
  have get: "get_versioned (reset_for nd) k = None" for k
    by (simp add: get_versioned_def reset_for_def node_state_new_def)
  show ?thesis
  proof (cases "nd_key_values nd = [] \<and> nd_max_version nd \<noteq> None")
    case True
    then obtain v where v: "nd_max_version nd = Some v" "delta_max_version nd = Some v" "nd_key_values nd = []"
      by (auto simp: delta_max_version_def)
    then have "ns_max_version (reset_for nd) = v" "ns_last_gc_version (reset_for nd) = nd_last_gc_version nd"
      by (simp_all add: reset_for_def)
    moreover have "v \<le> history_top h" "nd_last_gc_version nd \<le> history_top h" using d v(2) by blast+
    moreover have "scheduled_for_deletion (kvm_status m) \<and> kvm_version m \<le> nd_last_gc_version nd"
      if "latest h k = Some m" "kvm_version m \<le> v" for k m
      using d v pos [OF that(1)] that assms(4) by (metis empty_iff list.set(1))
    ultimately show ?thesis by (simp add: faithful_def get) (simp add: reset_for_def node_state_new_def)
  next
    case False
    then have "ns_max_version (reset_for nd) = 0" by (auto simp: reset_for_def split: option.splits)
    moreover have "ns_last_gc_version (reset_for nd) = nd_last_gc_version nd" by (simp add: reset_for_def)
    moreover have "nd_last_gc_version nd \<le> history_top h" using d by blast
    moreover have "\<not> kvm_version m \<le> 0" if "latest h k = Some m" for k m
      using pos [OF that] by simp
    ultimately show ?thesis by (auto simp: faithful_def get) (simp add: reset_for_def node_state_new_def)
  qed
qed

theorem ns_apply_delta_faithful:
  assumes "faithful h s" and "delta_faithful h nd" and "history_ok h" and "delta_safe nd s"
    and "ns_apply_delta ls now nd s = Ok (calls, s')"
  shows "faithful h s'"
proof (cases "resets nd s")
  case True
  then have zero: "nd_from_version_excluded nd = 0" using assms(4) by (simp add: delta_safe_def)
  have gc: "ns_last_gc_version (reset_for nd) = nd_last_gc_version nd" by (simp add: reset_for_def)
  have run: "apply_mutations ls now (ns_max_version (reset_for nd)) (nd_key_values nd) (reset_for nd) = Ok (calls, s')"
    using assms(5) True by (simp add: ns_apply_delta_def prepare_apply_delta_eq)
  show ?thesis
    by (rule merge_faithful [OF reset_for_faithful [OF assms(2,3) True zero] assms(2,3) _ _ _ run])
      (simp_all add: zero gc)
next
  case False
  show ?thesis
  proof (cases "fst (prepare_apply_delta nd s)")
    case True
    with False have ok: "nd_from_version_excluded nd \<le> ns_max_version s"
      "nd_last_gc_version nd < ns_max_version s \<or> nd_last_gc_version nd \<le> ns_last_gc_version s"
      "apply_mutations ls now (ns_max_version s) (nd_key_values nd) s = Ok (calls, s')"
      using assms(5) by (auto simp: ns_apply_delta_def prepare_apply_delta_eq)
    show ?thesis
      by (rule merge_faithful [OF assms(1-3) ok(1,2) _ ok(3)]) (use assms(4) in \<open>simp add: delta_safe_def\<close>)
  next
    case skip: False
    then have "s' = s" using False assms(5) by (auto simp: ns_apply_delta_def prepare_apply_delta_eq split: if_splits)
    then show ?thesis using assms(1) by simp
  qed
qed

section \<open>Computing a delta\<close>

definition stale_mutations :: "u64 \<Rightarrow> node_state \<Rightarrow> key_value_mutation list" where
  "stale_mutations f s =
     map (\<lambda>(k, v). mutation_of k v) (sort_key (\<lambda>(_, v). vv_version v) (ns_stale_key_values f s))"

definition sent_from :: "u64 \<Rightarrow> node_state \<Rightarrow> node_delta \<Rightarrow> bool" where
  "sent_from f s nd =
     (nd_from_version_excluded nd = f \<and> nd_last_gc_version nd = ns_last_gc_version s \<and>
      (\<exists>n. nd_key_values nd = take n (stale_mutations f s)) \<and>
      (nd_max_version nd = None \<or> nd_max_version nd = Some (ns_max_version s) \<and> stale_mutations f s = []))"

lemma stale_mutations_iff:
  "hm_wf (ns_key_values s) \<Longrightarrow>
   m \<in> set (stale_mutations f s) \<longleftrightarrow> (\<exists>e. get_versioned s (kvm_key m) = Some e \<and> m = mutation_of (kvm_key m) e \<and> f < kvm_version m)"
  unfolding stale_mutations_def ns_stale_key_values_def key_values_including_deleted_def get_versioned_def
  by (auto simp: hm_get_iff image_iff) (metis mutation_of_sel(3))

lemma stale_mutations_distinct:
  assumes "hm_wf (ns_key_values s)"
  shows "distinct (map kvm_key (stale_mutations f s))"
proof -
  have "map kvm_key (stale_mutations f s) = map fst (sort_key (\<lambda>(_, v). vv_version v) (ns_stale_key_values f s))"
    by (simp add: stale_mutations_def comp_def split_beta)
  moreover have "hm_wf (ns_stale_key_values f s)"
    using assms unfolding ns_stale_key_values_def key_values_including_deleted_def hm_wf_def
    by (metis distinct_map_filter hm_wf_def hm_wf_sort)
  ultimately show ?thesis by (simp flip: hm_wf_def)
qed

lemma stale_mutations_versions:
  "map kvm_version (stale_mutations f s) =
     map (\<lambda>(_, v). vv_version v) (sort_key (\<lambda>(_, v). vv_version v) (ns_stale_key_values f s))"
  by (simp add: stale_mutations_def comp_def split_beta)

lemma stale_mutations_sorted: "sorted (map kvm_version (stale_mutations f s))"
  by (simp add: stale_mutations_versions)

lemma take_sorted:
  assumes "sorted (map f xs)" and "x \<in> set xs" and "y \<in> set (take n xs)" and "f x \<le> f y"
    and "\<And>a b. a \<in> set xs \<Longrightarrow> b \<in> set xs \<Longrightarrow> f a = f b \<Longrightarrow> a = b"
  shows "x \<in> set (take n xs)"
proof (rule ccontr)
  assume "x \<notin> set (take n xs)"
  then have x: "x \<in> set (drop n xs)" using assms(2) by (metis UnE append_take_drop_id set_append)
  have "sorted (map f (take n xs) @ map f (drop n xs))" using assms(1) by (metis append_take_drop_id map_append)
  then have "f y \<le> f x" using x assms(3) by (auto simp: sorted_append)
  then have "x = y" using assms(2-5) in_set_takeD by (metis order_antisym)
  with \<open>x \<notin> set (take n xs)\<close> assms(3) show False by simp
qed

lemma sent_from_faithful:
  assumes "faithful h s" and "history_ok h" and "sent_from f s nd"
  shows "delta_faithful h nd"
proof -
  note tops = faithful_tops [OF assms(1)]
  note stale = stale_mutations_iff [OF conjunct1 [OF tops]]
  obtain n where nd: "nd_from_version_excluded nd = f" "nd_last_gc_version nd = ns_last_gc_version s"
    "nd_key_values nd = take n (stale_mutations f s)"
    "nd_max_version nd = None \<or> nd_max_version nd = Some (ns_max_version s) \<and> stale_mutations f s = []"
    using assms(3) by (auto simp: sent_from_def)
  have kv: "\<exists>e. get_versioned s (kvm_key m) = Some e \<and> m = mutation_of (kvm_key m) e" "m \<in> set (stale_mutations f s)"
    if "m \<in> set (nd_key_values nd)" for m
    using that stale [of m f] by (auto simp: nd dest: in_set_takeD)
  have in_h: "m \<in> set h" if "m \<in> set (stale_mutations f s)" for m
    using that stale [of m f] faithful_entry [OF assms(1)] by metis
  have present: "m \<in> set (stale_mutations f s) \<or> scheduled_for_deletion (kvm_status m) \<and> kvm_version m \<le> ns_last_gc_version s"
    if "latest h k = Some m" "f < kvm_version m" "kvm_version m \<le> ns_max_version s" for k m
    using faithful_latest [OF assms(1) that(1,3)] stale [of m f] that(2) latest_Some [OF that(1)] by metis
  show ?thesis
    unfolding delta_faithful_def nd(1,2)
  proof (intro conjI allI ballI impI)
    show "ns_last_gc_version s \<le> history_top h" using tops by blast
    show "m \<in> set h" if "m \<in> set (nd_key_values nd)" for m using kv(2) [OF that] in_h by blast
    show "distinct (map kvm_key (nd_key_values nd))"
      using stale_mutations_distinct [of s f] tops by (simp add: nd take_map [symmetric])
    show "nd_key_values nd = []" if "nd_max_version nd \<noteq> None" using that nd(3,4) by auto
  next
    fix v assume v: "delta_max_version nd = Some v"
    have v': "v \<le> ns_max_version s \<and> (\<forall>k m. latest h k = Some m \<longrightarrow> f < kvm_version m \<longrightarrow> kvm_version m \<le> v \<longrightarrow>
        m \<in> set (nd_key_values nd) \<or> scheduled_for_deletion (kvm_status m) \<and> kvm_version m \<le> ns_last_gc_version s)"
    proof (cases "nd_key_values nd = []")
      case True
      then have "nd_max_version nd = Some v" using v by (simp add: delta_max_version_def)
      then show ?thesis using nd(4) present by auto
    next
      case False
      then obtain m2 where m2: "m2 \<in> set (nd_key_values nd)" "v = kvm_version m2"
        using v by (metis delta_max_version_kvs option.inject)
      have le: "v \<le> ns_max_version s" using kv(1) [OF m2(1)] faithful_entry [OF assms(1)] m2(2) by (metis mutation_of_sel(3))
      moreover have "m \<in> set (nd_key_values nd) \<or> scheduled_for_deletion (kvm_status m) \<and> kvm_version m \<le> ns_last_gc_version s"
        if m: "latest h k = Some m" "f < kvm_version m" "kvm_version m \<le> v" for k m
        using present [OF m(1,2) order_trans [OF m(3) le]]
      proof
        assume "m \<in> set (stale_mutations f s)"
        then show ?thesis
          using take_sorted [OF stale_mutations_sorted _ m2(1) [unfolded nd(3)]] m(3) m2(2)
            history_version_inject [OF assms(2) in_h in_h] unfolding nd(3) by blast
      qed blast
      ultimately show ?thesis by blast
    qed
    then show "v \<le> history_top h" using tops by auto
    show "m \<in> set (nd_key_values nd) \<or> scheduled_for_deletion (kvm_status m) \<and> kvm_version m \<le> ns_last_gc_version s"
      if "latest h k = Some m" "f < kvm_version m" "kvm_version m \<le> v" for k m
      using v' that by blast
  next
    fix m' m
    assume "m' \<in> set (nd_key_values nd)" "latest h (kvm_key m') = Some m" "kvm_version m' < kvm_version m"
      "scheduled_for_deletion (kvm_status m)"
    then show "ns_last_gc_version s < kvm_version m"
      using kv(1) [of m'] faithful_outdated [OF assms(1)] by (metis mutation_of_sel(3))
  qed
qed

text \<open>The stale members, in whatever order the shuffle leaves them.\<close>

abbreviation flat_stale :: "sorted_stale_nodes \<Rightarrow> stale_node list" where
  "flat_stale m \<equiv> concat (map snd m)"

lemma mset_flat_update:
  "hm_get m k = Some l \<Longrightarrow> mset (flat_stale (hm_insert k (l @ [n]) m)) = mset (flat_stale m) + {#n#}"
  unfolding hm_get_def hm_insert_def by (induction m) (auto split: if_splits)

lemma mset_flat_offer:
  "mset (flat_stale (offer c s f m)) = mset (flat_stale m) +
     (if ns_max_version s \<le> f then {#}
      else {#\<lparr>sn_chitchat_id = c, sn_node_state = s, sn_from_version_excluded = f\<rparr>#})"
proof (cases "staleness_score s f")
  case None
  then show ?thesis by (simp add: offer_def staleness_score_def Let_def split: if_splits)
next
  case (Some st)
  then have "\<not> ns_max_version s \<le> f" by (simp add: staleness_score_def split: if_splits)
  with Some show ?thesis
    by (cases "hm_get m (staleness_key st)")
      (simp_all add: offer_def Let_def hm_modify_or_insert_def hm_insert_fresh mset_flat_update)
qed

definition stale_member_of :: "digest \<Rightarrow> chitchat_id list \<Rightarrow> cluster_state \<Rightarrow> stale_node \<Rightarrow> bool" where
  "stale_member_of dg scheduled cs n =
     ((sn_chitchat_id n, sn_node_state n) \<in> set (cs_node_states cs) \<and> sn_chitchat_id n \<notin> set scheduled \<and>
      sn_from_version_excluded n = from_version (hm_get dg (sn_chitchat_id n)) (sn_node_state n))"

lemma mset_flat_perm: "mset m = mset m' \<Longrightarrow> mset (flat_stale m) = mset (flat_stale m')"
proof -
  assume "mset m = mset m'"
  then have "mset (map (mset \<circ> snd) m) = mset (map (mset \<circ> snd) m')" by simp
  then have "sum_list (map (mset \<circ> snd) m) = sum_list (map (mset \<circ> snd) m')"
    by (simp only: sum_mset_sum_list [symmetric])
  then show ?thesis by (simp add: mset_concat comp_def)
qed

lemma distinct_step:
  "mset xs = mset ys \<or> mset xs = mset (ys @ [c]) \<Longrightarrow> distinct (ys @ c # zs) \<Longrightarrow> distinct (xs @ zs)"
  using mset_eq_imp_distinct_iff [of "xs @ zs" "ys @ zs"] mset_eq_imp_distinct_iff [of "xs @ zs" "ys @ c # zs"]
  by auto

lemma collect_stale_flat:
  fixes dg scheduled
  defines "f \<equiv> \<lambda>(c, s) m. if c \<in> set scheduled \<or>
      ns_max_version s \<le> (case hm_get dg c of Some d \<Rightarrow> dg_max_version d | None \<Rightarrow> 0) then m
    else offer c s (from_version (hm_get dg c) s) m"
  assumes "\<forall>(c, s) \<in> set es. (c, s) \<in> set (cs_node_states cs)" and "distinct (map sn_chitchat_id (flat_stale m) @ map fst es)"
    and "\<forall>n \<in> set (flat_stale m). stale_member_of dg scheduled cs n"
  shows "distinct (map sn_chitchat_id (flat_stale (fold f es m))) \<and>
    (\<forall>n \<in> set (flat_stale (fold f es m)). stale_member_of dg scheduled cs n)"
  using assms(2-)
proof (induction es arbitrary: m)
  case (Cons e es)
  obtain c s where e: "e = (c, s)" by (cases e)
  let ?n = "\<lparr>sn_chitchat_id = c, sn_node_state = s, sn_from_version_excluded = from_version (hm_get dg c) s\<rparr>"
  have m': "mset (flat_stale (f e m)) = mset (flat_stale m) \<or>
      c \<notin> set scheduled \<and> mset (flat_stale (f e m)) = mset (flat_stale m) + {#?n#}"
    by (auto simp: e f_def mset_flat_offer)
  then have "mset (map sn_chitchat_id (flat_stale (f e m))) = mset (map sn_chitchat_id (flat_stale m)) \<or>
      mset (map sn_chitchat_id (flat_stale (f e m))) = mset (map sn_chitchat_id (flat_stale m) @ [c])"
    by (auto simp del: map_concat)
  then have "distinct (map sn_chitchat_id (flat_stale (f e m)) @ map fst es)"
    by (rule distinct_step) (use Cons.prems(2) in \<open>simp add: e del: map_concat\<close>)
  moreover have "\<forall>n \<in> set (flat_stale (f e m)). stale_member_of dg scheduled cs n"
  proof
    fix n assume "n \<in> set (flat_stale (f e m))"
    then have "n \<in> set (flat_stale m) \<or> c \<notin> set scheduled \<and> n = ?n"
      using m' by (auto simp del: set_concat set_mset_mset simp flip: set_mset_mset)
    then show "stale_member_of dg scheduled cs n"
      using Cons.prems(1,3) by (auto simp: e stale_member_of_def simp del: set_concat)
  qed
  ultimately show ?case
    using Cons.IH [of "f e m"] Cons.prems(1) by (simp del: map_concat set_concat)
qed simp

lemma collect_stale_ok:
  assumes "hm_wf (cs_node_states cs)" and "\<And>xs. mset (shuffle xs) = mset xs"
  shows "distinct (map sn_chitchat_id (stale_nodes_into_iter shuffle (collect_stale dg scheduled cs)))"
    and "\<forall>n \<in> set (stale_nodes_into_iter shuffle (collect_stale dg scheduled cs)). stale_member_of dg scheduled cs n"
proof -
  let ?m = "collect_stale dg scheduled cs"
  have "distinct (map fst (in_id_order (cs_node_states cs)))"
    using assms(1) by (simp flip: hm_wf_def)
  then have flat: "distinct (map sn_chitchat_id (flat_stale ?m))" "\<forall>n \<in> set (flat_stale ?m). stale_member_of dg scheduled cs n"
    using collect_stale_flat [of "in_id_order (cs_node_states cs)" cs "[]" dg scheduled] by (simp_all add: collect_stale_def)
  have "mset (concat (map (shuffle \<circ> snd) xs)) = mset (flat_stale xs)" for xs :: sorted_stale_nodes
    by (induction xs) (simp_all add: assms(2))
  then have "mset (stale_nodes_into_iter shuffle ?m) = mset (flat_stale (rev (sort_key fst ?m)))"
    by (simp add: stale_nodes_into_iter_def)
  also have "\<dots> = mset (flat_stale ?m)"
    by (rule mset_flat_perm) simp
  finally have eq: "mset (stale_nodes_into_iter shuffle ?m) = mset (flat_stale ?m)" .
  then have "mset (map sn_chitchat_id (stale_nodes_into_iter shuffle ?m)) = mset (map sn_chitchat_id (flat_stale ?m))"
    by (metis mset_map)
  with flat(1) show "distinct (map sn_chitchat_id (stale_nodes_into_iter shuffle ?m))"
    by (metis mset_eq_imp_distinct_iff)
  show "\<forall>n \<in> set (stale_nodes_into_iter shuffle ?m). stale_member_of dg scheduled cs n"
    using flat(2) mset_eq_setD [OF eq] by simp
qed

text \<open>What must fit: every key, value and node id of a member alone fits a block and a datagram.\<close>

definition member_fits :: "nat \<Rightarrow> chitchat_id \<Rightarrow> node_state \<Rightarrow> bool" where
  "member_fits mtu c s =
     (chitchat_id_ok c \<and> op_len (OpNode c 0 0) \<le> min 16384 mtu \<and> hm_wf (ns_key_values s) \<and>
      distinct (map (vv_version \<circ> snd) (ns_key_values s)) \<and>
      list_all (\<lambda>(k, v). mutation_ok (mutation_of k v) \<and> op_len (OpKeyValue (mutation_of k v)) \<le> min 16384 mtu)
        (ns_key_values s))"

lemma try_add_op_total:
  assumes "serializer_ok z mtu s" and "zstd_ok z" and "op_fits op (ds_delta_builder s)" and "op_ok op"
    and "op_len op \<le> min 16384 mtu" and "apply_op op (ds_delta_builder s) = Ok b'"
  shows "\<exists>added s'. try_add_op z op s = Ok (added, s') \<and> serializer_ok z mtu s' \<and>
    (if added then ds_delta_builder s' = b' else s' = s)"
proof -
  note s = assms(1) [unfolded serializer_ok_def]
  have "\<exists>bound. serialized_len_upperbound_after (op_len op) (ds_writer s) = Ok bound"
    using op_len_pos [of op] by (simp add: serialized_len_upperbound_after_def)
  then obtain bound where bound: "serialized_len_upperbound_after (op_len op) (ds_writer s) = Ok bound" ..
  have t: "0 < sw_block_threshold (ds_writer s)" "sw_block_threshold (ds_writer s) < 2 ^ 16" "op_len op \<le> 65535"
    using s assms(5) by auto
  obtain w where w: "stream_append z (op_len op) (ser_op op) (ds_writer s) = Ok w"
    using stream_append_ok [OF assms(2) t] by blast
  have "\<exists>added s'. try_add_op z op s = Ok (added, s')"
    using bound w assms(6) by (auto simp: try_add_op_def)
  then show ?thesis
    using try_add_op_ok [OF _ assms(1-5)] assms(6) by (metis outcome.inject(1))
qed

text \<open>The node under construction, and those before it.\<close>

definition builds :: "node_delta list \<Rightarrow> node_delta \<Rightarrow> delta_serializer \<Rightarrow> bool" where
  "builds done n s = (db_current_node_delta (ds_delta_builder s) = Some n \<and>
     delta_node_deltas (db_delta (ds_delta_builder s)) = done)"

lemma builds_nodes: "builds done n s \<Longrightarrow> builder_nodes (ds_delta_builder s) = done @ [n]"
  by (simp add: builds_def builder_nodes_def)

lemma add_kvs_total:
  assumes "serializer_ok z mtu s" and "zstd_ok z" and "builds done n s" and "nd_max_version n = None"
    and "versions_ascend (n\<lparr>nd_key_values := nd_key_values n @ map (\<lambda>(k, v). mutation_of k v) kvs\<rparr>)"
    and "\<forall>(k, v) \<in> set kvs. mutation_ok (mutation_of k v) \<and> op_len (OpKeyValue (mutation_of k v)) \<le> min 16384 mtu"
  shows "\<exists>complete s' i. add_kvs z kvs s = Ok (complete, s') \<and> serializer_ok z mtu s' \<and>
    builds done (n\<lparr>nd_key_values := nd_key_values n @ take i (map (\<lambda>(k, v). mutation_of k v) kvs)\<rparr>) s'"
  using assms(1,3-)
proof (induction kvs arbitrary: s n)
  case Nil
  then show ?case by auto
next
  case (Cons kv kvs)
  obtain k v where kv: "kv = (k, v)" by (cases kv)
  let ?m = "mutation_of k v" and ?n = "n\<lparr>nd_key_values := nd_key_values n @ [mutation_of k v]\<rparr>"
  let ?b = "(ds_delta_builder s)\<lparr>db_current_node_delta := Some ?n\<rparr>"
  have "apply_ops (map OpKeyValue [?m]) (ds_delta_builder s) = Ok ?b"
    using apply_kvs [of "ds_delta_builder s" n "[?m]"] Cons.prems(2,4)
    by (auto simp: builds_def versions_ascend_def kv sorted_wrt_append)
  then have "apply_op (OpKeyValue ?m) (ds_delta_builder s) = Ok ?b" by auto
  moreover have "op_fits (OpKeyValue ?m) (ds_delta_builder s)"
    using Cons.prems(2,3) by (simp add: op_fits_def builds_def)
  moreover have "op_ok (OpKeyValue ?m)" "op_len (OpKeyValue ?m) \<le> min 16384 mtu"
    using Cons.prems(5) by (auto simp: kv op_ok_def)
  ultimately obtain added s1 where s1: "try_add_kv z k v s = Ok (added, s1)" "serializer_ok z mtu s1"
    "if added then ds_delta_builder s1 = ?b else s1 = s"
    using try_add_op_total [OF Cons.prems(1) assms(2)] unfolding try_add_kv_def by blast
  show ?case
  proof (cases added)
    case True
    then have "builds done ?n s1" using s1(3) Cons.prems(2) by (simp add: builds_def)
    from Cons.IH [OF s1(2) this] Cons.prems obtain complete s' i where
      "add_kvs z kvs s1 = Ok (complete, s')" "serializer_ok z mtu s'"
      "builds done (?n\<lparr>nd_key_values := nd_key_values ?n @ take i (map (\<lambda>(k, v). mutation_of k v) kvs)\<rparr>) s'"
      by (auto simp: kv versions_ascend_def)
    then show ?thesis
      using s1(1) True by (intro exI [of _ complete] exI [of _ s'] exI [of _ "Suc i"]) (simp add: kv)
  next
    case False
    then show ?thesis
      using s1 Cons.prems(1,2) by (intro exI [of _ False] exI [of _ s] exI [of _ 0]) (simp add: kv)
  qed
qed

lemma stale_mutations_ascend:
  assumes "distinct (map (vv_version \<circ> snd) (ns_key_values s))"
  shows "sorted_wrt (<) (map kvm_version (stale_mutations f s))"
proof -
  have "distinct (map (\<lambda>(_, v). vv_version v) (ns_stale_key_values f s))"
    using assms unfolding ns_stale_key_values_def key_values_including_deleted_def
    by (auto simp: distinct_map inj_on_def) (metis snd_conv prod.inject)+
  then have "distinct (map kvm_version (stale_mutations f s))"
    unfolding stale_mutations_versions by (simp add: distinct_map)
  then show ?thesis using stale_mutations_sorted [of f s] by (simp add: strict_sorted_iff)
qed

definition sent_about :: "stale_node list \<Rightarrow> node_delta \<Rightarrow> bool" where
  "sent_about ns nd = (\<exists>n \<in> set ns. nd_chitchat_id nd = sn_chitchat_id n \<and>
     sent_from (sn_from_version_excluded n) (sn_node_state n) nd)"

lemma flush_deltas: "delta_node_deltas (db_delta (builder_flush b)) = builder_nodes b"
  by (simp add: builder_flush_def builder_nodes_def split: option.splits)

lemma add_stale_nodes_total:
  assumes "serializer_ok z mtu s" and "zstd_ok z" and "set ns \<subseteq> set all"
    and "distinct (map nd_chitchat_id (builder_nodes (ds_delta_builder s)) @ map sn_chitchat_id ns)"
    and "\<forall>n \<in> set ns. member_fits mtu (sn_chitchat_id n) (sn_node_state n)"
    and "\<forall>nd \<in> set (builder_nodes (ds_delta_builder s)). sent_about all nd"
  shows "\<exists>s' d. add_stale_nodes z ns s = Ok d \<and> serializer_ok z mtu s' \<and> serializer_finish z s' = Ok d \<and>
    (\<forall>nd \<in> set (builder_nodes (ds_delta_builder s')). sent_about all nd)"
  using assms(1,3-)
proof (induction ns arbitrary: s)
  case Nil
  then show ?case using serializer_finish_ok [OF _ assms(2)] by fastforce
next
  case (Cons n ns)
  let ?c = "sn_chitchat_id n" and ?s = "sn_node_state n" and ?f = "sn_from_version_excluded n"
  let ?n0 = "\<lparr>nd_chitchat_id = ?c, nd_from_version_excluded = ?f, nd_last_gc_version = ns_last_gc_version ?s,
    nd_key_values = [], nd_max_version = None\<rparr>"
  let ?nodes = "builder_nodes (ds_delta_builder s)"
  have fits: "member_fits mtu ?c ?s" using Cons.prems(4) by simp
  have finish: "\<exists>s' d. serializer_finish z s = Ok d \<and> serializer_ok z mtu s' \<and> serializer_finish z s' = Ok d \<and>
      (\<forall>nd \<in> set (builder_nodes (ds_delta_builder s')). sent_about all nd)"
    if "serializer_ok z mtu s" "\<forall>nd \<in> set (builder_nodes (ds_delta_builder s)). sent_about all nd" for s
    using that serializer_finish_ok [OF that(1) assms(2)] by blast
  have fresh: "?c \<notin> set (db_existing_nodes (ds_delta_builder s))"
    using Cons.prems(1,3) by (auto simp: serializer_ok_def builder_ok_def)
  define b0 where "b0 = (builder_flush (ds_delta_builder s))
    \<lparr>db_existing_nodes := ?c # db_existing_nodes (ds_delta_builder s), db_current_node_delta := Some ?n0\<rparr>"
  have b0: "apply_op (OpNode ?c (ns_last_gc_version ?s) ?f) (ds_delta_builder s) = Ok b0"
      "db_current_node_delta b0 = Some ?n0" "delta_node_deltas (db_delta b0) = ?nodes"
    using fresh by (simp_all add: b0_def apply_op_def Let_def flush_deltas)
  have "op_ok (OpNode ?c (ns_last_gc_version ?s) ?f)" "op_len (OpNode ?c (ns_last_gc_version ?s) ?f) \<le> min 16384 mtu"
    using fits by (simp_all add: member_fits_def op_ok_def op_len_def)
  then obtain added s0 where s0: "try_add_node z ?c (ns_last_gc_version ?s) ?f s = Ok (added, s0)" "serializer_ok z mtu s0"
    "if added then ds_delta_builder s0 = b0 else s0 = s"
    using try_add_op_total [OF Cons.prems(1) assms(2) _ _ _ b0(1)] by (auto simp: try_add_node_def op_fits_def)
  show ?case
  proof (cases added)
    case False
    then show ?thesis using s0 finish [OF Cons.prems(1,5)] by simp
  next
    case True
    then have builds0: "builds ?nodes ?n0 s0" using s0(3) b0 by (simp add: builds_def)
    have kvs: "map (\<lambda>(k, v). mutation_of k v) (sn_stale_key_values n) = stale_mutations ?f ?s"
      by (simp add: sn_stale_key_values_def stale_mutations_def)
    have asc: "versions_ascend (?n0\<lparr>nd_key_values := nd_key_values ?n0 @ map (\<lambda>(k, v). mutation_of k v) (sn_stale_key_values n)\<rparr>)"
      using stale_mutations_ascend [of ?s ?f] fits unfolding kvs by (simp add: versions_ascend_def member_fits_def)
    have "\<forall>(k, v) \<in> set (sn_stale_key_values n). mutation_ok (mutation_of k v) \<and>
        op_len (OpKeyValue (mutation_of k v)) \<le> min 16384 mtu"
      using fits by (auto simp: member_fits_def list_all_iff sn_stale_key_values_def ns_stale_key_values_def
          key_values_including_deleted_def)
    from add_kvs_total [OF s0(2) assms(2) builds0 _ asc this] obtain complete s1 i where
      s1: "add_kvs z (sn_stale_key_values n) s0 = Ok (complete, s1)" "serializer_ok z mtu s1"
        "builds ?nodes (?n0\<lparr>nd_key_values := take i (stale_mutations ?f ?s)\<rparr>) s1"
      unfolding kvs by auto
    let ?n1 = "?n0\<lparr>nd_key_values := take i (stale_mutations ?f ?s)\<rparr>"
    have all: "n \<in> set all" using Cons.prems(2) by simp
    have sent: "sent_about all ?n1"
      using all by (auto simp: sent_about_def sent_from_def intro!: bexI [of _ n])
    have step: "\<exists>s' d. add_stale_nodes z ns s2 = Ok d \<and> serializer_ok z mtu s' \<and> serializer_finish z s' = Ok d \<and>
        (\<forall>nd \<in> set (builder_nodes (ds_delta_builder s')). sent_about all nd)"
      if "serializer_ok z mtu s2" "builds ?nodes n2 s2" "nd_chitchat_id n2 = ?c" "sent_about all n2" for s2 n2
      by (rule Cons.IH) (use that Cons.prems builds_nodes [OF that(2)] in auto)
    show ?thesis
    proof (cases complete)
      case False
      then show ?thesis
        using s0(1) True s1 finish [OF s1(2)] builds_nodes [OF s1(3)] sent Cons.prems(5) by auto
    next
      case complete: True
      show ?thesis
      proof (cases "sn_stale_key_values n = []")
        case False
        then show ?thesis using s0(1) True s1 complete step [OF s1(2,3) _ sent] by simp
      next
        case empty: True
        then have no_kvs: "stale_mutations ?f ?s = []" using kvs by simp
        let ?n2 = "?n1\<lparr>nd_max_version := Some (ns_max_version ?s)\<rparr>"
        let ?b2 = "(ds_delta_builder s1)\<lparr>db_current_node_delta := Some ?n2\<rparr>"
        have "apply_op (OpSetMaxVersion (ns_max_version ?s)) (ds_delta_builder s1) = Ok ?b2"
          "op_fits (OpSetMaxVersion (ns_max_version ?s)) (ds_delta_builder s1)"
          using s1(3) by (simp_all add: apply_op_def op_fits_def builds_def)
        moreover have "op_ok (OpSetMaxVersion (ns_max_version ?s))" "op_len (OpSetMaxVersion (ns_max_version ?s)) \<le> min 16384 mtu"
          using s1(2) by (simp_all add: op_ok_def op_len_def serializer_ok_def)
        ultimately obtain added2 s2 where s2: "try_set_max_version z (ns_max_version ?s) s1 = Ok (added2, s2)"
          "serializer_ok z mtu s2" "if added2 then ds_delta_builder s2 = ?b2 else s2 = s1"
          using try_add_op_total [OF s1(2) assms(2)] unfolding try_set_max_version_def by blast
        have "sent_about all ?n2"
          unfolding sent_about_def
        proof (rule bexI [OF _ all])
          show "nd_chitchat_id ?n2 = ?c \<and> sent_from ?f ?s ?n2"
            unfolding sent_from_def no_kvs by simp
        qed
        moreover have "builds ?nodes (if added2 then ?n2 else ?n1) s2"
          using s2(3) s1(3) by (auto simp: builds_def)
        ultimately show ?thesis
          using s0(1) True s1(1) complete empty s2(1) step [OF s2(2), of "if added2 then ?n2 else ?n1"] sent by simp
      qed
    qed
  qed
qed

lemma compute_partial_delta_total:
  assumes "zstd_ok z" and "\<And>xs. mset (shuffle xs) = mset xs" and "hm_wf (cs_node_states cs)" and "100 \<le> mtu"
    and "\<forall>(c, s) \<in> set (cs_node_states cs). member_fits mtu c s"
  shows "\<exists>d b. compute_partial_delta_respecting_mtu z shuffle dg mtu scheduled cs = Ok d \<and> delta_ok d \<and>
    ser_delta z d = Ok b \<and> length b \<le> mtu \<and>
    (\<forall>nd \<in> set (delta_node_deltas d). \<exists>s. hm_get (cs_node_states cs) (nd_chitchat_id nd) = Some s \<and>
       nd_chitchat_id nd \<notin> set scheduled \<and> sent_from (from_version (hm_get dg (nd_chitchat_id nd)) s) s nd)"
proof -
  let ?ns = "stale_nodes_into_iter shuffle (collect_stale dg scheduled cs)"
  note ns = collect_stale_ok [OF assms(3,2), of dg scheduled]
  have "u16_try_from (min 16384 mtu) = Some (of_nat (min 16384 mtu))"
    by (rule u16_try_from_small) (simp add: min_less_iff_disj)
  then obtain s0 where s0: "with_mtu mtu = Ok s0"
    using assms(4) by (simp add: with_mtu_def)
  have ok: "serializer_ok z mtu s0" "builder_nodes (ds_delta_builder s0) = []"
    using serializer_ok_new [OF s0] by blast+
  have fits: "\<forall>n \<in> set ?ns. member_fits mtu (sn_chitchat_id n) (sn_node_state n)"
    using ns(2) assms(5) by (auto simp: stale_member_of_def)
  have "distinct (map nd_chitchat_id (builder_nodes (ds_delta_builder s0)) @ map sn_chitchat_id ?ns)"
    using ns(1) ok(2) by simp
  from add_stale_nodes_total [OF ok(1) assms(1) subset_refl this fits] ok(2) obtain s' d where
    d: "add_stale_nodes z ?ns s0 = Ok d" "serializer_ok z mtu s'" "serializer_finish z s' = Ok d"
      "\<forall>nd \<in> set (builder_nodes (ds_delta_builder s')). sent_about ?ns nd" by auto
  from serializer_finish_ok [OF d(2) assms(1)] d(3) obtain b where
    b: "delta_node_deltas d = builder_nodes (ds_delta_builder s')" "delta_ok d" "ser_delta z d = Ok b" "length b \<le> mtu"
    by auto
  have "\<exists>s. hm_get (cs_node_states cs) (nd_chitchat_id nd) = Some s \<and>
      nd_chitchat_id nd \<notin> set scheduled \<and> sent_from (from_version (hm_get dg (nd_chitchat_id nd)) s) s nd"
    if "nd \<in> set (delta_node_deltas d)" for nd
    using d(4) that ns(2) unfolding b(1) sent_about_def stale_member_of_def hm_get_iff [OF assms(3), symmetric]
    by metis
  then show ?thesis
    using s0 d(1) b(2-4) by (auto simp: compute_partial_delta_respecting_mtu_def)
qed


definition other_node :: chitchat_id where
  "other_node = example_node\<lparr>cc_node_id := [111]\<rparr>"

definition written_state :: node_state where
  "written_state =
     (case do_write listeners_default 0 (WriteSet [107] [118]) (node_state_new example_node) of Ok s \<Rightarrow> s | _ \<Rightarrow> node_state_new example_node)"

definition written_cluster :: cluster_state where
  "written_cluster = put_member example_node written_state (with_seed_addrs [])"

definition sent_delta :: delta where
  "sent_delta =
     (case compute_partial_delta_respecting_mtu stored_zstd (\<lambda>l. l) [] 1000 [] written_cluster of Ok d \<Rightarrow> d | _ \<Rightarrow> delta_default)"


end
