(* ===== verification/Gossip_Network.thy ===== *)
theory Gossip_Network
  imports Gossip_State
begin

text \<open>
  The cluster as a whole: nodes that write their own state, collect deletions and exchange deltas
  over a network that delays, repeats and loses them. The invariant ties every copy to the history of
  its owner's writes, and from it follows what a reader of a copy sees. The last section runs the code
  on the two deliveries the invariant has to exclude.
\<close>

section \<open>A cluster that gossips\<close>

text \<open>
  The nodes of a cluster, each with its copy of every member's state, the deltas sent so far, and
  for every member the history of its own writes. A delta may be delivered late, twice or never. A
  node writes its own state only.
\<close>

record gossip_net =
  net_history :: "chitchat_id \<Rightarrow> history"
  net_cluster :: "chitchat_id \<Rightarrow> cluster_state"
  net_sent :: "delta set"

datatype gossip_event =
    LocalWrite chitchat_id local_write
  | CollectGarbage chitchat_id
  | SendDelta chitchat_id digest
  | DeliverDelta chitchat_id delta
  | HeartbeatSeen chitchat_id chitchat_id u64
  | ForgetMember chitchat_id chitchat_id

text \<open>A delta is delivered safely: no part of it resets the node's own state or triggers the data loss described below.\<close>

definition delivery_safe :: "chitchat_id \<Rightarrow> cluster_state \<Rightarrow> delta \<Rightarrow> bool" where
  "delivery_safe n cs d =
     (\<forall>nd \<in> set (delta_node_deltas d). delta_safe nd (member (nd_chitchat_id nd) cs) \<and>
        (nd_chitchat_id nd = n \<longrightarrow> \<not> resets nd (member n cs)))"

inductive gossip_step :: "zstd \<Rightarrow> (stale_node list \<Rightarrow> stale_node list) \<Rightarrow> gossip_net \<Rightarrow> gossip_event \<Rightarrow> gossip_net \<Rightarrow> bool"
  for z shuffle where
  net_write: "do_write (cs_listeners (net_cluster g n)) now w (member n (net_cluster g n)) = Ok s \<Longrightarrow>
    gossip_step z shuffle g (LocalWrite n w)
      (g\<lparr>net_history := (net_history g)(n := logged w (member n (net_cluster g n)) s (net_history g n)),
         net_cluster := (net_cluster g)(n := put_member n s (net_cluster g n))\<rparr>)"
| net_collect: "gossip_step z shuffle g (CollectGarbage n)
      (g\<lparr>net_cluster := (net_cluster g)(n := cs_gc_keys_marked_for_deletion now grace (net_cluster g n))\<rparr>)"
| net_send: "compute_partial_delta_respecting_mtu z shuffle dg mtu scheduled (net_cluster g n) = Ok d \<Longrightarrow>
    \<forall>(c, s) \<in> set (cs_node_states (net_cluster g n)). member_fits mtu c s \<Longrightarrow>
    gossip_step z shuffle g (SendDelta n dg) (g\<lparr>net_sent := insert d (net_sent g)\<rparr>)"
| net_deliver: "d \<in> net_sent g \<Longrightarrow> delivery_safe n (net_cluster g n) d \<Longrightarrow>
    cs_apply_delta now d (net_cluster g n) = Ok (calls, cs) \<Longrightarrow>
    gossip_step z shuffle g (DeliverDelta n d) (g\<lparr>net_cluster := (net_cluster g)(n := cs)\<rparr>)"
| net_heartbeat: "gossip_step z shuffle g (HeartbeatSeen n c h)
      (g\<lparr>net_cluster := (net_cluster g)(n := put_member c (snd (try_set_heartbeat h (member c (net_cluster g n)))) (net_cluster g n))\<rparr>)"
| net_forget: "c \<noteq> n \<Longrightarrow> gossip_step z shuffle g (ForgetMember n c)
      (g\<lparr>net_cluster := (net_cluster g)(n := remove_node c (net_cluster g n))\<rparr>)"

inductive_cases gossip_stepE: "gossip_step z shuffle g e g'"

definition gossip_start :: "gossip_net \<Rightarrow> bool" where
  "gossip_start g = ((\<forall>c. net_history g c = []) \<and> net_sent g = {} \<and> (\<forall>n. cs_node_states (net_cluster g n) = []))"

definition cluster_ok :: "(chitchat_id \<Rightarrow> history) \<Rightarrow> chitchat_id \<Rightarrow> cluster_state \<Rightarrow> bool" where
  "cluster_ok h n cs =
     (hm_wf (cs_node_states cs) \<and> (\<forall>c. faithful (h c) (member c cs)) \<and> ns_max_version (member n cs) = history_top (h n))"

definition gossip_ok :: "gossip_net \<Rightarrow> bool" where
  "gossip_ok g =
     ((\<forall>c. history_ok (net_history g c)) \<and> (\<forall>n. cluster_ok (net_history g) n (net_cluster g n)) \<and>
      (\<forall>d \<in> net_sent g. distinct (map nd_chitchat_id (delta_node_deltas d)) \<and>
         (\<forall>nd \<in> set (delta_node_deltas d). delta_faithful (net_history g (nd_chitchat_id nd)) nd)))"

lemma member_put [simp]: "member c (put_member c' s cs) = (if c = c' then s else member c cs)"
  by (simp add: member_def put_member_def hm.get_ins)

lemma put_member_wf: "hm_wf (cs_node_states cs) \<Longrightarrow> hm_wf (cs_node_states (put_member c s cs))"
  by (simp add: put_member_def hm.wf_ins)

lemma cluster_ok_put:
  "cluster_ok h n cs \<Longrightarrow> faithful (h c) s \<Longrightarrow> (c = n \<Longrightarrow> ns_max_version s = history_top (h n)) \<Longrightarrow>
   cluster_ok h n (put_member c s cs)"
  by (auto simp: cluster_ok_def put_member_wf)

lemma cluster_ok_grow:
  assumes "cluster_ok h n cs" and "c \<noteq> n" and "h' = h \<or> (\<exists>m. h' = h(c := h c @ [m]) \<and> history_top (h c) < kvm_version m)"
  shows "cluster_ok h' n cs"
  using assms faithful_grow by (auto simp: cluster_ok_def)

lemma member_gc: "member c (cs_gc_keys_marked_for_deletion now grace cs) = ns_gc_keys_marked_for_deletion now grace (member c cs)"
  by (cases "hm_get (cs_node_states cs) c")
    (simp_all add: member_def cs_gc_keys_marked_for_deletion_def hm_get_map_values ns_gc_keys_marked_for_deletion_def
      node_state_new_def hm_retain_def)

lemma cluster_ok_gc: "cluster_ok h n cs \<Longrightarrow> cluster_ok h n (cs_gc_keys_marked_for_deletion now grace cs)"
  by (auto simp: cluster_ok_def member_gc gc_keys_faithful)
    (simp_all add: cs_gc_keys_marked_for_deletion_def ns_gc_keys_marked_for_deletion_def)

lemma cluster_ok_remove:
  "cluster_ok h n cs \<Longrightarrow> c \<noteq> n \<Longrightarrow> history_ok (h c) \<Longrightarrow> cluster_ok h n (remove_node c cs)"
  by (auto simp: cluster_ok_def remove_node_def member_def hm.get_del hm.wf_del faithful_new)

lemma cluster_ok_heartbeat:
  assumes "cluster_ok h n cs"
  shows "cluster_ok h n (put_member c (snd (try_set_heartbeat x (member c cs))) cs)"
proof (rule cluster_ok_put [OF assms])
  show "faithful (h c) (snd (try_set_heartbeat x (member c cs)))"
    using assms by (simp add: try_set_heartbeat_def cluster_ok_def)
  show "ns_max_version (snd (try_set_heartbeat x (member c cs))) = history_top (h n)" if "c = n"
    using assms that by (simp add: try_set_heartbeat_def cluster_ok_def)
qed

lemma ns_apply_delta_max:
  assumes "ns_apply_delta ls now nd s = Ok (calls, s')" and "faithful h s" and "delta_faithful h nd" and "\<not> resets nd s"
  shows "ns_max_version s \<le> ns_max_version s'"
proof (cases "fst (prepare_apply_delta nd s)")
  case True
  then have run: "apply_mutations ls now (ns_max_version s) (nd_key_values nd) s = Ok (calls, s')"
    using assms(1,4) by (simp add: ns_apply_delta_def prepare_apply_delta_eq)
  have "distinct (map kvm_key (nd_key_values nd))" using assms(3) by (simp add: delta_faithful_def)
  moreover have "\<forall>m \<in> set (nd_key_values nd). \<forall>e. get_versioned s (kvm_key m) = Some e \<longrightarrow> vv_version e \<le> ns_max_version s"
    using faithful_entry [OF assms(2)] by blast
  ultimately show ?thesis
    using apply_mutations_result [OF run] faithful_tops [OF assms(2)] by blast
next
  case False
  then have "s' = s" using assms(1,4) by (auto simp: ns_apply_delta_def prepare_apply_delta_eq split: if_splits)
  then show ?thesis by simp
qed

lemma apply_node_deltas_ok:
  assumes "apply_node_deltas now nds cs = Ok (calls, cs')" and "cluster_ok h n cs" and "\<And>c. history_ok (h c)"
    and "distinct (map nd_chitchat_id nds)"
    and "\<forall>nd \<in> set nds. delta_faithful (h (nd_chitchat_id nd)) nd \<and> delta_safe nd (member (nd_chitchat_id nd) cs) \<and>
      (nd_chitchat_id nd = n \<longrightarrow> \<not> resets nd (member n cs))"
  shows "cluster_ok h n cs'"
  using assms(1,2,4,5)
proof (induction nds arbitrary: cs calls)
  case (Cons nd nds)
  let ?c = "nd_chitchat_id nd"
  obtain c1 c2 s where s: "ns_apply_delta (cs_listeners cs) now nd (member ?c cs) = Ok (c1, s)"
    and rest: "apply_node_deltas now nds (put_member ?c s cs) = Ok (c2, cs')"
    using Cons.prems(1) by auto
  have nd: "delta_faithful (h ?c) nd" "delta_safe nd (member ?c cs)" "?c = n \<Longrightarrow> \<not> resets nd (member n cs)"
    "faithful (h ?c) (member ?c cs)"
    using Cons.prems(2,4) by (auto simp: cluster_ok_def)
  have new: "faithful (h ?c) s" by (rule ns_apply_delta_faithful [OF nd(4,1) assms(3) nd(2) s])
  have "cluster_ok h n (put_member ?c s cs)"
  proof (rule cluster_ok_put [OF Cons.prems(2) new])
    assume "?c = n"
    then have "ns_max_version (member n cs) \<le> ns_max_version s" "ns_max_version (member n cs) = history_top (h n)"
      using ns_apply_delta_max [OF s nd(4,1)] nd(3) Cons.prems(2) by (auto simp: cluster_ok_def)
    with \<open>?c = n\<close> faithful_tops [OF new] show "ns_max_version s = history_top (h n)" by simp
  qed
  moreover have "nd_chitchat_id x \<noteq> ?c" if "x \<in> set nds" for x
    using Cons.prems(3) that by (auto simp: image_iff)
  ultimately show ?case
    using Cons.IH [OF rest] Cons.prems(3,4) by simp
qed simp

definition fair_shuffle :: "(stale_node list \<Rightarrow> stale_node list) \<Rightarrow> bool" where
  "fair_shuffle shuffle = (\<forall>xs. mset (shuffle xs) = mset xs)"

lemma sent_delta_ok:
  assumes "zstd_ok z" and "fair_shuffle shuffle" and "cluster_ok h n cs" and "\<And>c. history_ok (h c)"
    and "compute_partial_delta_respecting_mtu z shuffle dg mtu scheduled cs = Ok d"
    and "\<forall>(c, s) \<in> set (cs_node_states cs). member_fits mtu c s"
  shows "distinct (map nd_chitchat_id (delta_node_deltas d)) \<and>
    (\<forall>nd \<in> set (delta_node_deltas d). delta_faithful (h (nd_chitchat_id nd)) nd)"
proof -
  have mtu: "100 \<le> mtu"
    using assms(5) by (auto simp: compute_partial_delta_respecting_mtu_def with_mtu_def split: if_splits)
  have wf: "hm_wf (cs_node_states cs)" using assms(3) by (simp add: cluster_ok_def)
  have perm: "mset (shuffle xs) = mset xs" for xs using assms(2) by (simp add: fair_shuffle_def)
  from compute_partial_delta_total [OF assms(1) perm wf mtu assms(6), of dg scheduled] assms(5)
  have d: "delta_ok d" "\<And>nd. nd \<in> set (delta_node_deltas d) \<Longrightarrow> \<exists>s. hm_get (cs_node_states cs) (nd_chitchat_id nd) = Some s \<and>
      sent_from (from_version (hm_get dg (nd_chitchat_id nd)) s) s nd"
    by auto
  have "delta_faithful (h (nd_chitchat_id nd)) nd" if nd: "nd \<in> set (delta_node_deltas d)" for nd
  proof -
    obtain s where s: "hm_get (cs_node_states cs) (nd_chitchat_id nd) = Some s"
      "sent_from (from_version (hm_get dg (nd_chitchat_id nd)) s) s nd" using d(2) [OF nd] by blast
    then have "faithful (h (nd_chitchat_id nd)) s"
      using assms(3) by (metis cluster_ok_def member_def option.case(2))
    from sent_from_faithful [OF this assms(4) s(2)] show ?thesis .
  qed
  with d(1) show ?thesis by (simp add: delta_ok_def)
qed

lemma gossip_ok_write:
  assumes "gossip_ok g" and "do_write ls now w (member n (net_cluster g n)) = Ok s"
  shows "gossip_ok (g\<lparr>net_history := (net_history g)(n := logged w (member n (net_cluster g n)) s (net_history g n)),
    net_cluster := (net_cluster g)(n := put_member n s (net_cluster g n))\<rparr>)"
proof -
  let ?h = "net_history g" and ?hn = "logged w (member n (net_cluster g n)) s (net_history g n)"
  have g: "history_ok (?h c)" "cluster_ok ?h k (net_cluster g k)" for c k
    using assms(1) by (auto simp: gossip_ok_def)
  have own: "faithful (?h n) (member n (net_cluster g n))" "ns_max_version (member n (net_cluster g n)) = history_top (?h n)"
    using g(2) [of n] by (auto simp: cluster_ok_def)
  note w = do_write_faithful [OF assms(2) own(1) g(1) own(2)]
  have grow: "?h(n := ?hn) = ?h \<or> (\<exists>m. ?h(n := ?hn) = ?h(n := ?h n @ [m]) \<and> history_top (?h n) < kvm_version m)"
    using w by (auto simp: fun_upd_idem)
  have "cluster_ok (?h(n := ?hn)) k (((net_cluster g)(n := put_member n s (net_cluster g n))) k)" for k
  proof (cases "k = n")
    case True
    then show ?thesis using w g(2) [of n] by (auto simp: cluster_ok_def put_member_wf)
  next
    case False
    then show ?thesis using cluster_ok_grow [OF g(2) [of k] _ grow] by simp
  qed
  moreover have "delta_faithful ((?h(n := ?hn)) c) nd" if "delta_faithful (?h c) nd" for c nd
    using that w delta_faithful_grow by auto
  ultimately show ?thesis using assms(1) w by (simp add: gossip_ok_def)
qed

lemma gossip_ok_cluster:
  "gossip_ok g \<Longrightarrow> cluster_ok (net_history g) n cs \<Longrightarrow> gossip_ok (g\<lparr>net_cluster := (net_cluster g)(n := cs)\<rparr>)"
  by (simp add: gossip_ok_def)

lemma gossip_ok_step:
  assumes "gossip_ok g" and "gossip_step z shuffle g e g'" and "zstd_ok z" and "fair_shuffle shuffle"
  shows "gossip_ok g'"
proof -
  have g: "history_ok (net_history g c)" "cluster_ok (net_history g) n (net_cluster g n)" for c n
    using assms(1) by (auto simp: gossip_ok_def)
  from assms(2) show ?thesis
  proof cases
    case (net_write n now w s)
    then show ?thesis using gossip_ok_write [OF assms(1)] by simp
  next
    case (net_collect n now grace)
    then show ?thesis using gossip_ok_cluster [OF assms(1) cluster_ok_gc [OF g(2)]] by simp
  next
    case (net_send dg mtu scheduled n d)
    then show ?thesis
      using sent_delta_ok [OF assms(3,4) g(2) g(1) net_send(3,4)] assms(1) by (simp add: gossip_ok_def)
  next
    case (net_deliver d n now calls cs)
    have "cluster_ok (net_history g) n cs"
      by (rule apply_node_deltas_ok [OF net_deliver(5) [unfolded cs_apply_delta_def] g(2) g(1)])
        (use assms(1) net_deliver(3,4) in \<open>auto simp: gossip_ok_def delivery_safe_def\<close>)
    with net_deliver show ?thesis using gossip_ok_cluster [OF assms(1)] by simp
  next
    case (net_heartbeat n c h)
    then show ?thesis using gossip_ok_cluster [OF assms(1) cluster_ok_heartbeat [OF g(2)]] by simp
  next
    case (net_forget c n)
    then show ?thesis using gossip_ok_cluster [OF assms(1) cluster_ok_remove [OF g(2) _ g(1)]] by simp
  qed
qed

interpretation gossip: inductive_invariant gossip_start "gossip_step z shuffle"
  "\<lambda>g. zstd_ok z \<longrightarrow> fair_shuffle shuffle \<longrightarrow> gossip_ok g" for z shuffle
proof unfold_locales
  fix g assume "gossip_start g"
  then show "zstd_ok z \<longrightarrow> fair_shuffle shuffle \<longrightarrow> gossip_ok g"
    by (auto simp: gossip_start_def gossip_ok_def cluster_ok_def member_def faithful_new history_ok_def
        node_state_new_max history_top_def)
next
  fix g e g'
  assume "zstd_ok z \<longrightarrow> fair_shuffle shuffle \<longrightarrow> gossip_ok g" and "gossip_step z shuffle g e g'"
  then show "zstd_ok z \<longrightarrow> fair_shuffle shuffle \<longrightarrow> gossip_ok g'"
    using gossip_ok_step by blast
qed

section \<open>What a reader sees\<close>

definition read_history :: "history \<Rightarrow> bytes \<Rightarrow> bytes option" where
  "read_history h k =
     (case latest h k of None \<Rightarrow> None | Some m \<Rightarrow> if kvm_status m = MutDelete then None else Some (kvm_value m))"

lemma vv_is_deleted_iff: "vv_is_deleted e \<longleftrightarrow> mutation_from_status (vv_status e) = MutDelete"
  by (cases "vv_status e") (simp_all add: vv_is_deleted_def mutation_from_status_def)

lemma faithful_read:
  assumes "faithful h s" and "history_ok h" and "ns_max_version s = history_top h"
    and "\<And>m. latest h k = Some m \<Longrightarrow> kvm_status m \<noteq> MutDeleteAfterTtl"
  shows "ns_get s k = read_history h k"
proof (cases "latest h k")
  case None
  then have "get_versioned s k = None"
    using faithful_entry [OF assms(1), of k] by (cases "get_versioned s k") (auto simp: latest_None)
  with None show ?thesis by (simp add: ns_get_def read_history_def)
next
  case (Some m)
  have "kvm_version m \<le> ns_max_version s"
    using latest_le_top [OF assms(2) Some] assms(3) by simp
  from faithful_latest [OF assms(1) Some this] assms(4) [OF Some] Some show ?thesis
    by (cases "kvm_status m") (auto simp: ns_get_def read_history_def vv_is_deleted_iff scheduled_for_deletion_def)
qed


text \<open>Node 1 writes a key and sends it to node 2.\<close>

definition gossip_net_0 :: gossip_net where
  "gossip_net_0 = \<lparr>net_history = (\<lambda>_. []), net_cluster = (\<lambda>_. with_seed_addrs []), net_sent = {}\<rparr>"

definition receiving_cluster :: cluster_state where
  "receiving_cluster = (case cs_apply_delta 0 sent_delta (with_seed_addrs []) of Ok (_, cs) \<Rightarrow> cs | _ \<Rightarrow> with_seed_addrs [])"


section \<open>Deliveries that lose data\<close>

text \<open>
  A run of writes on a state, and a copy after the delta that answers its digest, cut off after its
  first n mutations when the datagram is full.
\<close>

definition run_writes :: "local_write list \<Rightarrow> node_state \<Rightarrow> node_state" where
  "run_writes ws s =
     foldl (\<lambda>s w. case do_write listeners_default 0 w s of Ok s' \<Rightarrow> s' | _ \<Rightarrow> s) s ws"

definition answer_delta :: "nat \<Rightarrow> node_state \<Rightarrow> node_state \<Rightarrow> node_delta" where
  "answer_delta n s copy =
     (let v = from_version (Some (ns_digest copy)) s; ms = stale_mutations v s in
      \<lparr>nd_chitchat_id = ns_chitchat_id s, nd_from_version_excluded = v, nd_last_gc_version = ns_last_gc_version s,
       nd_key_values = take n ms, nd_max_version = (if ms = [] then Some (ns_max_version s) else None)\<rparr>)"

definition answered :: "nat \<Rightarrow> node_state \<Rightarrow> node_state \<Rightarrow> node_state" where
  "answered n s copy =
     (case ns_apply_delta listeners_default 0 (answer_delta n s copy) copy of Ok (_, c) \<Rightarrow> c | _ \<Rightarrow> copy)"

lemma answer_delta_sent:
  "sent_from (from_version (Some (ns_digest copy)) s) s (answer_delta n s copy)"
  unfolding sent_from_def answer_delta_def Let_def by auto

text \<open>
  The owner writes a, writes b and deletes b; a peer copies this. The owner then collects b and
  writes c. Its answer to the peer starts after version 3, which is the version the owner collected
  up to, so the peer resets its copy and applies c alone: a is lost, although the copy now has the
  owner's version and its digest asks for nothing more.
\<close>

definition owner_before :: node_state where
  "owner_before = run_writes [WriteSet [97] [1], WriteSet [98] [2], WriteDelete [98]] (node_state_new example_node)"

lemma owner_before_eval [code]:
  "owner_before =
    \<lparr>ns_chitchat_id = example_node, ns_heartbeat = 0,
     ns_key_values = [([97], \<lparr>vv_value = [1], vv_version = 1, vv_status = StatusSet\<rparr>), ([98], \<lparr>vv_value = [], vv_version = 3, vv_status = StatusDeleted 0\<rparr>)],
     ns_max_version = 3, ns_last_gc_version = 0\<rparr>"
  by code_simp

definition owner_after :: node_state where
  "owner_after = run_writes [WriteSet [99] [3]] (ns_gc_keys_marked_for_deletion 10 5 owner_before)"

lemma owner_after_eval [code]:
  "owner_after =
    \<lparr>ns_chitchat_id = example_node, ns_heartbeat = 0,
     ns_key_values = [([97], \<lparr>vv_value = [1], vv_version = 1, vv_status = StatusSet\<rparr>), ([99], \<lparr>vv_value = [3], vv_version = 4, vv_status = StatusSet\<rparr>)],
     ns_max_version = 4, ns_last_gc_version = 3\<rparr>"
  by code_simp

definition copy_before :: node_state where
  "copy_before = answered 9 owner_before (node_state_new example_node)"

lemma copy_before_eval [code]:
  "copy_before =
    \<lparr>ns_chitchat_id = example_node, ns_heartbeat = 0,
     ns_key_values = [([97], \<lparr>vv_value = [1], vv_version = 1, vv_status = StatusSet\<rparr>), ([98], \<lparr>vv_value = [], vv_version = 3, vv_status = StatusDeleted 0\<rparr>)],
     ns_max_version = 3, ns_last_gc_version = 0\<rparr>"
  by code_simp

definition copy_after :: node_state where
  "copy_after = answered 9 owner_after copy_before"

lemma copy_after_eval [code]:
  "copy_after =
    \<lparr>ns_chitchat_id = example_node, ns_heartbeat = 0,
     ns_key_values = [([99], \<lparr>vv_value = [3], vv_version = 4, vv_status = StatusSet\<rparr>)],
     ns_max_version = 4, ns_last_gc_version = 3\<rparr>"
  by code_simp

lemma reset_from_late_delta_loses_key:
  "ns_get owner_after [97] = Some [1] \<and> ns_get copy_before [97] = Some [1] \<and> ns_get copy_after [97] = None \<and>
   ns_digest copy_after = ns_digest owner_after"
  by code_simp

text \<open>
  A copy that a delta cut off after its first write has reset holds the collected version 3 but only
  the writes up to version 1. A third node that never saw the deletion of k then answers with the
  write of k, and the owner with what follows: k is back in the copy, which has the owner's version.
\<close>

definition third_node :: node_state where
  "third_node = run_writes [WriteSet [120] [1], WriteSet [107] [2]] (node_state_new example_node)"

lemma third_node_eval [code]:
  "third_node =
    \<lparr>ns_chitchat_id = example_node, ns_heartbeat = 0,
     ns_key_values = [([120], \<lparr>vv_value = [1], vv_version = 1, vv_status = StatusSet\<rparr>), ([107], \<lparr>vv_value = [2], vv_version = 2, vv_status = StatusSet\<rparr>)],
     ns_max_version = 2, ns_last_gc_version = 0\<rparr>"
  by code_simp

definition deleting_owner :: node_state where
  "deleting_owner =
     run_writes [WriteSet [98] [7]] (ns_gc_keys_marked_for_deletion 10 5 (run_writes [WriteDelete [107]] third_node))"

lemma deleting_owner_eval [code]:
  "deleting_owner =
    \<lparr>ns_chitchat_id = example_node, ns_heartbeat = 0,
     ns_key_values = [([120], \<lparr>vv_value = [1], vv_version = 1, vv_status = StatusSet\<rparr>), ([98], \<lparr>vv_value = [7], vv_version = 4, vv_status = StatusSet\<rparr>)],
     ns_max_version = 4, ns_last_gc_version = 3\<rparr>"
  by code_simp

definition truncated_copy :: node_state where
  "truncated_copy = answered 1 deleting_owner (node_state_new example_node)"

lemma truncated_copy_eval [code]:
  "truncated_copy =
    \<lparr>ns_chitchat_id = example_node, ns_heartbeat = 0,
     ns_key_values = [([120], \<lparr>vv_value = [1], vv_version = 1, vv_status = StatusSet\<rparr>)],
     ns_max_version = 1, ns_last_gc_version = 3\<rparr>"
  by code_simp

definition misled_copy :: node_state where
  "misled_copy = answered 9 deleting_owner (answered 9 third_node truncated_copy)"

lemma misled_copy_eval [code]:
  "misled_copy =
    \<lparr>ns_chitchat_id = example_node, ns_heartbeat = 0,
     ns_key_values = [([120], \<lparr>vv_value = [1], vv_version = 1, vv_status = StatusSet\<rparr>), ([107], \<lparr>vv_value = [2], vv_version = 2, vv_status = StatusSet\<rparr>), ([98], \<lparr>vv_value = [7], vv_version = 4, vv_status = StatusSet\<rparr>)],
     ns_max_version = 4, ns_last_gc_version = 3\<rparr>"
  by code_simp

lemma deleted_key_comes_back:
  "ns_get deleting_owner [107] = None \<and> ns_get misled_copy [107] = Some [2] \<and>
   ns_digest misled_copy = ns_digest deleting_owner"
  by code_simp

text \<open>
  The version that a delta without key values announces is taken over by a reset only: any other copy
  it is delivered to is left as it was, and stays behind its owner until the next write.
\<close>

lemma announced_version_needs_reset:
  assumes "\<not> resets nd s" and "nd_key_values nd = []" and "ns_apply_delta ls now nd s = Ok (calls, s')"
  shows "s' = s"
  using assms by (auto simp: ns_apply_delta_def resets_def prepare_apply_delta_eq split: if_splits prod.splits)

end
