(* ===== verification/Failure_Detector.thy ===== *)
theory Failure_Detector
  imports Gossip_State Complex_Main
begin

text \<open>
  The phi accrual failure detector (src/chitchat/src/failure_detector.rs): for every node a window of
  the latest heartbeat intervals, and the split of the nodes into live and dead ones.

  A finite \<open>f64\<close> is the real number it stands for, and every operation on it is the exact one
  followed by the rounding \<open>rnd\<close>, which is a parameter. A quotient by zero is infinite or not a
  number; no comparison of such a value with a threshold holds. An \<open>Instant\<close> and a \<open>Duration\<close> are
  their number of nanoseconds. The current time is a parameter of the operations that read the clock.
\<close>

section \<open>The window of intervals\<close>

record bounded_array_stats =
  ba_values :: "real list"
  ba_is_filled :: bool
  ba_index :: nat
  ba_sum :: real

definition with_capacity :: "nat \<Rightarrow> bounded_array_stats" where
  "with_capacity capacity = \<lparr>ba_values = replicate capacity 0, ba_is_filled = False, ba_index = 0, ba_sum = 0\<rparr>"

text \<open>An array without elements makes the first write to it panic.\<close>

definition ba_append :: "(real \<Rightarrow> real) \<Rightarrow> real \<Rightarrow> bounded_array_stats \<Rightarrow> bounded_array_stats outcome" where
  "ba_append rnd interval b =
     (if length (ba_values b) \<le> ba_index b then Panic ''index out of bounds''
      else
        (let s = (if ba_is_filled b then rnd (ba_sum b - ba_values b ! ba_index b) else ba_sum b);
             b1 = b\<lparr>ba_values := (ba_values b)[ba_index b := interval], ba_sum := rnd (s + interval)\<rparr> in
         Ok (if ba_index b = length (ba_values b) - 1 then b1\<lparr>ba_is_filled := True, ba_index := 0\<rparr>
             else b1\<lparr>ba_index := ba_index b + 1\<rparr>)))"

definition ba_clear :: "bounded_array_stats \<Rightarrow> bounded_array_stats" where
  "ba_clear b = b\<lparr>ba_index := 0, ba_is_filled := False, ba_sum := 0\<rparr>"

definition ba_len :: "bounded_array_stats \<Rightarrow> nat" where
  "ba_len b = (if ba_is_filled b then length (ba_values b) else ba_index b)"

section \<open>Phi\<close>

datatype f64_quotient = FiniteQuotient real | NonFiniteQuotient

definition f64_div :: "(real \<Rightarrow> real) \<Rightarrow> real \<Rightarrow> real \<Rightarrow> f64_quotient" where
  "f64_div rnd a b = (if b = 0 then NonFiniteQuotient else FiniteQuotient (rnd (a / b)))"

fun quotient_le :: "f64_quotient \<Rightarrow> real \<Rightarrow> bool" where
  "quotient_le (FiniteQuotient x) t = (x \<le> t)"
| "quotient_le NonFiniteQuotient t = False"

definition as_secs_f64 :: "(real \<Rightarrow> real) \<Rightarrow> duration \<Rightarrow> real" where
  "as_secs_f64 rnd d = rnd (rnd (real (d div 10 ^ 9)) + rnd (real (d mod 10 ^ 9) / 10 ^ 9))"

record additive_smoothing =
  as_prior_mean :: real
  as_prior_weight :: real

text \<open>The divisor, the number of intervals and a weight, is positive.\<close>

definition compute_mean :: "(real \<Rightarrow> real) \<Rightarrow> nat \<Rightarrow> real \<Rightarrow> additive_smoothing \<Rightarrow> real" where
  "compute_mean rnd len interval_sum a =
     rnd (rnd (interval_sum + rnd (as_prior_weight a * as_prior_mean a)) / rnd (rnd (real len) + as_prior_weight a))"

record sampling_window =
  sw_intervals :: bounded_array_stats
  sw_last_heartbeat :: "instant option"
  sw_max_interval :: duration
  sw_additive_smoothing :: additive_smoothing

definition sampling_window_new :: "(real \<Rightarrow> real) \<Rightarrow> nat \<Rightarrow> duration \<Rightarrow> duration \<Rightarrow> sampling_window" where
  "sampling_window_new rnd window_size max_interval prior_interval =
     \<lparr>sw_intervals = with_capacity window_size, sw_last_heartbeat = None, sw_max_interval = max_interval,
      sw_additive_smoothing = \<lparr>as_prior_mean = as_secs_f64 rnd prior_interval, as_prior_weight = 5\<rparr>\<rparr>"

definition sw_report_heartbeat :: "(real \<Rightarrow> real) \<Rightarrow> instant \<Rightarrow> sampling_window \<Rightarrow> sampling_window outcome" where
  "sw_report_heartbeat rnd now w =
     obind
       (case sw_last_heartbeat w of
          Some last_value \<Rightarrow>
            (let interval = now - last_value in
             if interval \<le> sw_max_interval w then
               obind (ba_append rnd (as_secs_f64 rnd interval) (sw_intervals w)) (\<lambda>b. Ok (w\<lparr>sw_intervals := b\<rparr>))
             else Ok w)
        | None \<Rightarrow> Ok w)
       (\<lambda>w. Ok (w\<lparr>sw_last_heartbeat := Some now\<rparr>))"

definition sw_reset :: "sampling_window \<Rightarrow> sampling_window" where
  "sw_reset w = w\<lparr>sw_intervals := ba_clear (sw_intervals w)\<rparr>"

definition interval_mean :: "(real \<Rightarrow> real) \<Rightarrow> sampling_window \<Rightarrow> real" where
  "interval_mean rnd w = compute_mean rnd (ba_len (sw_intervals w)) (ba_sum (sw_intervals w)) (sw_additive_smoothing w)"

definition sw_phi :: "(real \<Rightarrow> real) \<Rightarrow> instant \<Rightarrow> sampling_window \<Rightarrow> f64_quotient option" where
  "sw_phi rnd now w =
     (if ba_len (sw_intervals w) = 0 then None
      else
        (case sw_last_heartbeat w of
           None \<Rightarrow> None
         | Some t \<Rightarrow> Some (f64_div rnd (as_secs_f64 rnd (now - t)) (interval_mean rnd w))))"

section \<open>The failure detector\<close>

record failure_detector_config =
  fc_phi_threshold :: real
  fc_sampling_window_size :: nat
  fc_max_interval :: duration
  fc_initial_interval :: duration
  fc_dead_node_grace_period :: duration

definition failure_detector_config_default :: failure_detector_config where
  "failure_detector_config_default =
     \<lparr>fc_phi_threshold = 8, fc_sampling_window_size = 1000, fc_max_interval = 10 * 10 ^ 9,
      fc_initial_interval = 5 * 10 ^ 9, fc_dead_node_grace_period = 24 * 60 * 60 * 10 ^ 9\<rparr>"

record failure_detector =
  fd_node_samples :: "(chitchat_id, sampling_window) hmap"
  fd_config :: failure_detector_config
  fd_live_nodes :: "chitchat_id list"
  fd_dead_nodes :: "(chitchat_id, instant) hmap"

definition failure_detector_new :: "failure_detector_config \<Rightarrow> failure_detector" where
  "failure_detector_new config =
     \<lparr>fd_node_samples = [], fd_config = config, fd_live_nodes = [], fd_dead_nodes = []\<rparr>"

definition get_or_create_sampling_window ::
    "(real \<Rightarrow> real) \<Rightarrow> chitchat_id \<Rightarrow> failure_detector \<Rightarrow> sampling_window \<times> failure_detector" where
  "get_or_create_sampling_window rnd c f =
     (case hm_get (fd_node_samples f) c of
        Some w \<Rightarrow> (w, f)
      | None \<Rightarrow>
          (let w = sampling_window_new rnd (fc_sampling_window_size (fd_config f)) (fc_max_interval (fd_config f))
                     (fc_initial_interval (fd_config f)) in
           (w, f\<lparr>fd_node_samples := hm_insert c w (fd_node_samples f)\<rparr>)))"

definition fd_report_heartbeat ::
    "(real \<Rightarrow> real) \<Rightarrow> instant \<Rightarrow> chitchat_id \<Rightarrow> failure_detector \<Rightarrow> failure_detector outcome" where
  "fd_report_heartbeat rnd now c f =
     (let (w, f1) = get_or_create_sampling_window rnd c f in
      obind (sw_report_heartbeat rnd now w) (\<lambda>w. Ok (f1\<lparr>fd_node_samples := hm_insert c w (fd_node_samples f1)\<rparr>)))"

definition fd_phi :: "(real \<Rightarrow> real) \<Rightarrow> instant \<Rightarrow> chitchat_id \<Rightarrow> failure_detector \<Rightarrow> f64_quotient option" where
  "fd_phi rnd now c f = Option.bind (hm_get (fd_node_samples f) c) (sw_phi rnd now)"

definition is_alive :: "(real \<Rightarrow> real) \<Rightarrow> instant \<Rightarrow> chitchat_id \<Rightarrow> failure_detector \<Rightarrow> bool" where
  "is_alive rnd now c f =
     (case fd_phi rnd now c f of Some phi \<Rightarrow> quotient_le phi (fc_phi_threshold (fd_config f)) | None \<Rightarrow> False)"

definition update_node_liveness :: "(real \<Rightarrow> real) \<Rightarrow> instant \<Rightarrow> chitchat_id \<Rightarrow> failure_detector \<Rightarrow> failure_detector" where
  "update_node_liveness rnd now c f =
     (if is_alive rnd now c f then
        f\<lparr>fd_live_nodes := List.insert c (fd_live_nodes f), fd_dead_nodes := hm_remove c (fd_dead_nodes f)\<rparr>
      else
        f\<lparr>fd_live_nodes := removeAll c (fd_live_nodes f),
          fd_dead_nodes := (if hm_get (fd_dead_nodes f) c = None then hm_insert c now (fd_dead_nodes f) else fd_dead_nodes f),
          fd_node_samples :=
            (case hm_get (fd_node_samples f) c of
               Some w \<Rightarrow> hm_insert c (sw_reset w) (fd_node_samples f)
             | None \<Rightarrow> fd_node_samples f)\<rparr>)"

definition garbage_collect :: "instant \<Rightarrow> failure_detector \<Rightarrow> chitchat_id list \<times> failure_detector" where
  "garbage_collect now f =
     (let garbage = map fst (filter (\<lambda>(_, t). t + fc_dead_node_grace_period (fd_config f) \<le> now) (fd_dead_nodes f)) in
      (garbage, f\<lparr>fd_dead_nodes := fold hm_remove garbage (fd_dead_nodes f),
                  fd_node_samples := fold hm_remove garbage (fd_node_samples f)\<rparr>))"

text \<open>
  \<open>half_dead_node_grace_period\<close> is the grace period divided by two in \<open>f32\<close>; its value is a parameter.
\<close>

definition scheduled_for_deletion_nodes :: "duration \<Rightarrow> instant \<Rightarrow> failure_detector \<Rightarrow> chitchat_id list" where
  "scheduled_for_deletion_nodes half_dead_node_grace_period now f =
     map fst (filter (\<lambda>(_, t). t + half_dead_node_grace_period < now) (fd_dead_nodes f))"

section \<open>The window keeps the last intervals\<close>

text \<open>The intervals of the window, oldest first.\<close>

definition ba_contents :: "bounded_array_stats \<Rightarrow> real list" where
  "ba_contents b =
     (if ba_is_filled b then drop (ba_index b) (ba_values b) @ take (ba_index b) (ba_values b)
      else take (ba_index b) (ba_values b))"

definition ba_ok :: "bounded_array_stats \<Rightarrow> bool" where
  "ba_ok b = (ba_index b < length (ba_values b))"

fun append_all :: "(real \<Rightarrow> real) \<Rightarrow> real list \<Rightarrow> bounded_array_stats \<Rightarrow> bounded_array_stats outcome" where
  "append_all rnd [] b = Ok b"
| "append_all rnd (x # xs) b = obind (ba_append rnd x b) (append_all rnd xs)"

definition last_of :: "nat \<Rightarrow> 'a list \<Rightarrow> 'a list" where
  "last_of n xs = drop (length xs - n) xs"

lemma last_of_append: "last_of n (last_of n xs @ ys) = last_of n (xs @ ys)"
  by (cases "length xs \<le> n") (simp_all add: last_of_def add.commute)

lemma length_ba_contents: "ba_ok b \<Longrightarrow> length (ba_contents b) = ba_len b"
  by (simp add: ba_ok_def ba_contents_def ba_len_def)

lemma ba_append_ok:
  assumes "ba_ok b"
  obtains b' where "ba_append rnd x b = Ok b'" "ba_ok b'" "length (ba_values b') = length (ba_values b)"
    "ba_contents b' = last_of (length (ba_values b)) (ba_contents b @ [x])"
    "(\<forall>x. rnd x = x) \<Longrightarrow> ba_sum b = sum_list (ba_contents b) \<Longrightarrow> ba_sum b' = sum_list (ba_contents b')"
proof -
  let ?i = "ba_index b" and ?v = "ba_values b"
  obtain pre y post where v: "?v = pre @ y # post" and i: "?i = length pre"
    using assms id_take_nth_drop [of ?i ?v] unfolding ba_ok_def by (metis length_take min.absorb4)
  have "ba_append rnd x b \<noteq> Panic m" "ba_append rnd x b \<noteq> Bail m" for m
    using assms by (simp_all add: ba_append_def ba_ok_def Let_def)
  then obtain b' where b': "ba_append rnd x b = Ok b'" by (cases "ba_append rnd x b") auto
  show thesis
  proof (rule that [OF b'])
    show "ba_ok b'" "length (ba_values b') = length ?v"
      using b' assms by (auto simp: ba_append_def ba_ok_def Let_def split: if_splits)
    show c: "ba_contents b' = last_of (length ?v) (ba_contents b @ [x])"
      using b' unfolding ba_append_def Let_def
      by (cases "post = []"; cases "ba_is_filled b")
        (auto simp: ba_contents_def last_of_def v i list_update_append split: if_splits)
    show "ba_sum b' = sum_list (ba_contents b')" if "\<forall>x. rnd x = x" "ba_sum b = sum_list (ba_contents b)"
      using b' that unfolding ba_append_def Let_def
      by (cases "post = []"; cases "ba_is_filled b")
        (auto simp: ba_contents_def v i list_update_append split: if_splits)
  qed
qed

lemma append_all_ok:
  assumes "ba_ok b"
  shows "\<exists>b'. append_all rnd xs b = Ok b' \<and> ba_ok b' \<and> length (ba_values b') = length (ba_values b) \<and>
    ba_contents b' = last_of (length (ba_values b)) (ba_contents b @ xs) \<and>
    ((\<forall>x. rnd x = x) \<longrightarrow> ba_sum b = sum_list (ba_contents b) \<longrightarrow> ba_sum b' = sum_list (ba_contents b'))"
  using assms
proof (induction xs arbitrary: b)
  case Nil
  then have "last_of (length (ba_values b)) (ba_contents b) = ba_contents b"
    using length_ba_contents [OF Nil] by (auto simp: last_of_def ba_len_def ba_ok_def)
  with Nil show ?case by simp
next
  case (Cons x xs)
  obtain b1 where b1: "ba_append rnd x b = Ok b1" "ba_ok b1" "length (ba_values b1) = length (ba_values b)"
    "ba_contents b1 = last_of (length (ba_values b)) (ba_contents b @ [x])"
    "(\<forall>x. rnd x = x) \<Longrightarrow> ba_sum b = sum_list (ba_contents b) \<Longrightarrow> ba_sum b1 = sum_list (ba_contents b1)"
    using ba_append_ok [OF Cons.prems, of rnd x] by metis
  show ?case
    using Cons.IH [OF b1(2)] b1 by (auto simp: last_of_append)
qed

text \<open>
  C39: after any number of heartbeats since the last reset, the window holds exactly the last intervals
  that fit it, in the order they came in, without a panic; in exact arithmetic the running sum is
  their sum. This needs a window with room for at least one interval.
\<close>

theorem window_keeps_last_intervals:
  assumes "ba_ok b"
  shows "\<exists>b'. append_all rnd xs (ba_clear b) = Ok b' \<and>
    ba_contents b' = drop (length xs - length (ba_values b)) xs \<and>
    ba_len b' = min (length (ba_values b)) (length xs) \<and>
    ((\<forall>x. rnd x = x) \<longrightarrow> ba_sum b' = sum_list (ba_contents b'))"
proof -
  have c: "ba_ok (ba_clear b)" "ba_contents (ba_clear b) = []" "ba_values (ba_clear b) = ba_values b" "ba_sum (ba_clear b) = 0"
    using assms by (auto simp: ba_ok_def ba_clear_def ba_contents_def)
  from append_all_ok [OF c(1), of rnd xs] obtain b' where b': "append_all rnd xs (ba_clear b) = Ok b'" "ba_ok b'"
    "ba_contents b' = last_of (length (ba_values b)) xs" "(\<forall>x. rnd x = x) \<longrightarrow> ba_sum b' = sum_list (ba_contents b')"
    using c by auto
  then show ?thesis using length_ba_contents [OF b'(2)] by (auto simp: last_of_def)
qed

theorem window_keeps_last_intervals_witness:
  "\<exists>b'. append_all (\<lambda>x. x) [1, 2, 3] (ba_clear (with_capacity 2)) = Ok b' \<and> ba_contents b' = [2, 3] \<and> ba_sum b' = 5"
proof -
  have "ba_ok (with_capacity 2)" by code_simp
  moreover have "drop (length [1::real, 2, 3] - length (ba_values (with_capacity 2))) [1, 2, 3] = [2, 3::real]" by code_simp
  moreover have "sum_list [2, 3::real] = 5" by simp
  ultimately show ?thesis
    using window_keeps_last_intervals [of "with_capacity 2" "\<lambda>x. x" "[1, 2, 3]"] by metis
qed

lemma empty_window_panics: "ba_append rnd x (with_capacity 0) = Panic ''index out of bounds''"
  by (simp add: ba_append_def with_capacity_def)

end
