(* ===== verification/Gossip_Node.thy ===== *)
theory Gossip_Node
  imports Gossip_Network Failure_Detector
begin

text \<open>
  One gossiping node (src/chitchat/src/lib.rs): the handler of the gossip messages, the failure
  detector's periodic update of the live nodes, and the operations an application has. A handler
  reads the clock as \<open>now\<close>. The rounding of \<open>f64\<close>, the zstd library, the shuffle and the
  halved grace period are parameters, collected in \<open>gossip_env\<close>.

  What the node reports to the application is part of its state: the calls of key listeners, the
  calls of the catch-up callback and the values sent to the watch channel of the live nodes.
\<close>

record gossip_env =
  env_rnd :: "real \<Rightarrow> real"
  env_zstd :: zstd
  env_shuffle :: "stale_node list \<Rightarrow> stale_node list"
  env_half_grace :: duration

record chitchat_config =
  cfg_chitchat_id :: chitchat_id
  cfg_cluster_id :: bytes
  cfg_failure_detector_config :: failure_detector_config
  cfg_marked_for_deletion_grace_period :: duration
  cfg_catchup_callback :: bool
  cfg_extra_liveness_predicate :: "(node_state \<Rightarrow> bool) option"

record chitchat =
  ch_config :: chitchat_config
  ch_cluster_state :: cluster_state
  ch_failure_detector :: failure_detector
  ch_previous_live_nodes :: "(chitchat_id, u64) hmap"
  ch_max_datagram_payload_size :: nat
  ch_watched :: "(chitchat_id, node_state) hmap list"
  ch_listener_calls :: listener_calls
  ch_catchups :: nat

abbreviation self_id :: "chitchat \<Rightarrow> chitchat_id" where
  "self_id ch \<equiv> cfg_chitchat_id (ch_config ch)"

abbreviation node_states :: "chitchat \<Rightarrow> (chitchat_id, node_state) hmap" where
  "node_states ch \<equiv> cs_node_states (ch_cluster_state ch)"

definition update_member :: "chitchat_id \<Rightarrow> node_state \<Rightarrow> chitchat \<Rightarrow> chitchat" where
  "update_member c s ch = ch\<lparr>ch_cluster_state := put_member c s (ch_cluster_state ch)\<rparr>"

definition update_self_heartbeat :: "chitchat \<Rightarrow> chitchat" where
  "update_self_heartbeat ch = update_member (self_id ch) (inc_heartbeat (member (self_id ch) (ch_cluster_state ch))) ch"

fun set_all :: "listeners \<Rightarrow> (bytes \<times> bytes) list \<Rightarrow> node_state \<Rightarrow> node_state outcome" where
  "set_all ls [] s = Ok s"
| "set_all ls ((k, v) # kvs) s = obind (ns_set ls k v s) (\<lambda>(_, s). set_all ls kvs s)"

definition with_chitchat_id_and_seeds ::
    "chitchat_config \<Rightarrow> socket_addr list \<Rightarrow> (bytes \<times> bytes) list \<Rightarrow> nat \<Rightarrow> chitchat outcome" where
  "with_chitchat_id_and_seeds config seed_addrs initial_key_values max_datagram_payload_size =
     (let ch = \<lparr>ch_config = config, ch_cluster_state = with_seed_addrs seed_addrs,
                ch_failure_detector = failure_detector_new (cfg_failure_detector_config config),
                ch_previous_live_nodes = [], ch_max_datagram_payload_size = max_datagram_payload_size,
                ch_watched = [[]], ch_listener_calls = [], ch_catchups = 0\<rparr>;
          ch1 = update_self_heartbeat ch in
      obind (set_all (cs_listeners (ch_cluster_state ch1)) initial_key_values (member (self_id ch1) (ch_cluster_state ch1)))
        (\<lambda>s. Ok (update_member (self_id ch1) s ch1)))"

definition ch_scheduled_for_deletion_nodes :: "gossip_env \<Rightarrow> instant \<Rightarrow> chitchat \<Rightarrow> chitchat_id list" where
  "ch_scheduled_for_deletion_nodes env now ch = scheduled_for_deletion_nodes (env_half_grace env) now (ch_failure_detector ch)"

definition create_syn_message :: "gossip_env \<Rightarrow> instant \<Rightarrow> chitchat \<Rightarrow> chitchat_message" where
  "create_syn_message env now ch =
     Syn (cfg_cluster_id (ch_config ch)) (compute_digest (ch_scheduled_for_deletion_nodes env now ch) (ch_cluster_state ch))"

definition report_heartbeat :: "gossip_env \<Rightarrow> instant \<Rightarrow> chitchat_id \<Rightarrow> u64 \<Rightarrow> chitchat \<Rightarrow> chitchat outcome" where
  "report_heartbeat env now c heartbeat ch =
     (if c = self_id ch then Ok ch
      else
        (let (updated, s) = try_set_heartbeat heartbeat (member c (ch_cluster_state ch)); ch1 = update_member c s ch in
         if updated then
           obind (fd_report_heartbeat (env_rnd env) now c (ch_failure_detector ch1)) (\<lambda>f. Ok (ch1\<lparr>ch_failure_detector := f\<rparr>))
         else Ok ch1))"

fun report_heartbeats :: "gossip_env \<Rightarrow> instant \<Rightarrow> (chitchat_id \<times> node_digest) list \<Rightarrow> chitchat \<Rightarrow> chitchat outcome" where
  "report_heartbeats env now [] ch = Ok ch"
| "report_heartbeats env now ((c, d) # ds) ch =
     obind (report_heartbeat env now c (dg_heartbeat d) ch) (report_heartbeats env now ds)"

definition report_heartbeats_in_digest :: "gossip_env \<Rightarrow> instant \<Rightarrow> digest \<Rightarrow> chitchat \<Rightarrow> chitchat outcome" where
  "report_heartbeats_in_digest env now dg ch = report_heartbeats env now (in_id_order dg) ch"

definition maybe_trigger_catchup_callback :: "delta \<Rightarrow> chitchat \<Rightarrow> chitchat" where
  "maybe_trigger_catchup_callback d ch =
     (if list_ex (\<lambda>nd. nd_from_version_excluded nd = 0 \<and> nd_last_gc_version nd > 0) (delta_node_deltas d) \<and>
         cfg_catchup_callback (ch_config ch)
      then ch\<lparr>ch_catchups := ch_catchups ch + 1\<rparr> else ch)"

definition process_delta :: "instant \<Rightarrow> delta \<Rightarrow> chitchat \<Rightarrow> chitchat outcome" where
  "process_delta now d ch =
     (let ch1 = maybe_trigger_catchup_callback d ch in
      obind (cs_apply_delta now d (ch_cluster_state ch1)) (\<lambda>(calls, cs).
      Ok (ch1\<lparr>ch_cluster_state := cs, ch_listener_calls := ch_listener_calls ch1 @ calls\<rparr>)))"

definition usize_sub :: "nat \<Rightarrow> nat \<Rightarrow> nat outcome" where
  "usize_sub a b = (if b \<le> a then Ok (a - b) else Panic ''attempt to subtract with overflow'')"

definition compute_delta :: "gossip_env \<Rightarrow> digest \<Rightarrow> nat \<Rightarrow> chitchat_id list \<Rightarrow> chitchat \<Rightarrow> delta outcome" where
  "compute_delta env dg mtu scheduled ch =
     compute_partial_delta_respecting_mtu (env_zstd env) (env_shuffle env) dg mtu scheduled (ch_cluster_state ch)"

definition answer_syn :: "gossip_env \<Rightarrow> digest \<Rightarrow> chitchat \<Rightarrow> chitchat_id list \<Rightarrow> digest \<Rightarrow> nat \<Rightarrow> (chitchat_message option \<times> chitchat) outcome" where
  "answer_syn env dg ch scheduled self_digest delta_mtu =
     obind (compute_delta env dg delta_mtu scheduled ch) (\<lambda>d. Ok (Some (SynAck self_digest d), ch))"

definition process_syn :: "gossip_env \<Rightarrow> instant \<Rightarrow> digest \<Rightarrow> chitchat \<Rightarrow> (chitchat_message option \<times> chitchat) outcome" where
  "process_syn env now dg ch =
     (let scheduled = ch_scheduled_for_deletion_nodes env now ch;
          self_digest = compute_digest scheduled (ch_cluster_state ch) in
      obind (obind (usize_sub (ch_max_datagram_payload_size ch) 1)
               (\<lambda>room. usize_sub room (length (ser_digest (env_zstd env) self_digest))))
        (answer_syn env dg ch scheduled self_digest))"

definition process_syn_ack :: "gossip_env \<Rightarrow> instant \<Rightarrow> digest \<Rightarrow> chitchat \<Rightarrow> (chitchat_message option \<times> chitchat) outcome" where
  "process_syn_ack env now dg ch =
     obind (usize_sub (ch_max_datagram_payload_size ch) 1) (\<lambda>mtu.
     obind (compute_delta env dg mtu (ch_scheduled_for_deletion_nodes env now ch) ch) (\<lambda>d. Ok (Some (Ack d), ch)))"

definition answer_message ::
    "gossip_env \<Rightarrow> instant \<Rightarrow> chitchat_message \<Rightarrow> chitchat \<Rightarrow> (chitchat_message option \<times> chitchat) outcome" where
  "answer_message env now msg ch =
     (case msg of
        Syn cluster_id dg \<Rightarrow>
          if cluster_id \<noteq> cfg_cluster_id (ch_config ch) then Ok (Some BadCluster, ch)
          else obind (report_heartbeats_in_digest env now dg ch) (process_syn env now dg)
      | SynAck dg d \<Rightarrow>
          obind (obind (report_heartbeats_in_digest env now dg ch) (process_delta now d)) (process_syn_ack env now dg)
      | Ack d \<Rightarrow> obind (process_delta now d ch) (\<lambda>ch. Ok (None, ch))
      | BadCluster \<Rightarrow> Ok (None, ch))"

definition process_message ::
    "gossip_env \<Rightarrow> instant \<Rightarrow> chitchat_message \<Rightarrow> chitchat \<Rightarrow> (chitchat_message option \<times> chitchat) outcome" where
  "process_message env now msg ch = answer_message env now msg (update_self_heartbeat ch)"

definition ch_gc_keys_marked_for_deletion :: "instant \<Rightarrow> chitchat \<Rightarrow> chitchat" where
  "ch_gc_keys_marked_for_deletion now ch =
     ch\<lparr>ch_cluster_state :=
       cs_gc_keys_marked_for_deletion now (cfg_marked_for_deletion_grace_period (ch_config ch)) (ch_cluster_state ch)\<rparr>"

definition ch_live_nodes :: "chitchat \<Rightarrow> chitchat_id list" where
  "ch_live_nodes ch = self_id ch # fd_live_nodes (ch_failure_detector ch)"

definition current_live_nodes :: "chitchat \<Rightarrow> (chitchat_id, u64) hmap" where
  "current_live_nodes ch =
     fold (\<lambda>c m. case hm_get (node_states ch) c of Some s \<Rightarrow> hm_insert c (ns_max_version s) m | None \<Rightarrow> m)
       (ch_live_nodes ch) []"

definition watched_nodes :: "(chitchat_id, u64) hmap \<Rightarrow> chitchat \<Rightarrow> (chitchat_id, node_state) hmap" where
  "watched_nodes live ch =
     in_id_order (List.map_filter (\<lambda>c.
       case hm_get (node_states ch) c of
         None \<Rightarrow> None
       | Some s \<Rightarrow>
           (case cfg_extra_liveness_predicate (ch_config ch) of
              Some p \<Rightarrow> if p s then Some (c, s) else None
            | None \<Rightarrow> Some (c, s))) (hm_keys live))"

definition update_failure_detector :: "gossip_env \<Rightarrow> instant \<Rightarrow> chitchat \<Rightarrow> chitchat" where
  "update_failure_detector env now ch =
     ch\<lparr>ch_failure_detector :=
       fold (\<lambda>c f. if c \<noteq> self_id ch then update_node_liveness (env_rnd env) now c f else f)
         (hm_keys (in_id_order (node_states ch))) (ch_failure_detector ch)\<rparr>"

definition report_live_nodes :: "(chitchat_id, u64) hmap \<Rightarrow> chitchat \<Rightarrow> chitchat" where
  "report_live_nodes live ch =
     (if \<not> hm_eq (ch_previous_live_nodes ch) live
      then ch\<lparr>ch_previous_live_nodes := live, ch_watched := watched_nodes live ch # ch_watched ch\<rparr> else ch)"

definition forget_nodes :: "chitchat_id list \<times> failure_detector \<Rightarrow> chitchat \<Rightarrow> chitchat" where
  "forget_nodes collected ch =
     ch\<lparr>ch_failure_detector := snd collected, ch_cluster_state := fold remove_node (fst collected) (ch_cluster_state ch)\<rparr>"

definition collect_dead_nodes :: "instant \<Rightarrow> chitchat \<Rightarrow> chitchat" where
  "collect_dead_nodes now ch = forget_nodes (garbage_collect now (ch_failure_detector ch)) ch"

definition report_current_live_nodes :: "chitchat \<Rightarrow> chitchat" where
  "report_current_live_nodes ch = report_live_nodes (current_live_nodes ch) ch"

definition update_nodes_liveness :: "gossip_env \<Rightarrow> instant \<Rightarrow> chitchat \<Rightarrow> chitchat" where
  "update_nodes_liveness env now ch = collect_dead_nodes now (report_current_live_nodes (update_failure_detector env now ch))"

fun set_versioned_values ::
    "listeners \<Rightarrow> (bytes \<times> versioned_value) list \<Rightarrow> node_state \<Rightarrow> (listener_calls \<times> node_state) outcome" where
  "set_versioned_values ls [] s = Ok ([], s)"
| "set_versioned_values ls ((k, v) # kvs) s =
     obind (set_versioned_value ls k v s) (\<lambda>(calls, s).
     obind (set_versioned_values ls kvs s) (\<lambda>(calls', s). Ok (calls @ calls', s)))"

definition reset_node_state ::
    "gossip_env \<Rightarrow> chitchat_id \<Rightarrow> (bytes \<times> versioned_value) list \<Rightarrow> u64 \<Rightarrow> u64 \<Rightarrow> chitchat \<Rightarrow> chitchat outcome" where
  "reset_node_state env c key_values max_version last_gc_version ch =
     (let s = member c (ch_cluster_state ch) in
      if ns_max_version s \<ge> max_version then Ok (update_member c s ch)
      else
        (let (_, f) = get_or_create_sampling_window (env_rnd env) c (ch_failure_detector ch);
             previous_keys = filter (\<lambda>k. k \<notin> set (map fst key_values)) (map fst (key_values_including_deleted s)) in
         obind (set_versioned_values (cs_listeners (ch_cluster_state ch)) key_values s) (\<lambda>(calls, s).
         Ok (update_member c (set_last_gc_version last_gc_version (fold remove_key_value_internal previous_keys s))
               (ch\<lparr>ch_failure_detector := f, ch_listener_calls := ch_listener_calls ch @ calls\<rparr>)))))"

definition ch_subscribe_event :: "bytes \<Rightarrow> chitchat \<Rightarrow> listener_handle \<times> chitchat" where
  "ch_subscribe_event key_prefix ch =
     (let (h, ls) = subscribe_event key_prefix (cs_listeners (ch_cluster_state ch)) in
      (h, ch\<lparr>ch_cluster_state := (ch_cluster_state ch)\<lparr>cs_listeners := ls\<rparr>\<rparr>))"

section \<open>Runs of a node\<close>

datatype chitchat_event =
    Receive instant chitchat_message
  | UpdateLiveness instant
  | CollectKeys instant
  | WriteSelf instant local_write
  | ResetNode chitchat_id "(bytes \<times> versioned_value) list" u64 u64
  | Subscribe bytes

definition write_self :: "instant \<Rightarrow> local_write \<Rightarrow> chitchat \<Rightarrow> chitchat outcome" where
  "write_self now w ch =
     obind (do_write (cs_listeners (ch_cluster_state ch)) now w (member (self_id ch) (ch_cluster_state ch)))
       (\<lambda>s. Ok (update_member (self_id ch) s ch))"

fun handle :: "gossip_env \<Rightarrow> chitchat_event \<Rightarrow> chitchat \<Rightarrow> chitchat outcome" where
  "handle env (Receive now msg) ch = obind (process_message env now msg ch) (\<lambda>(_, ch). Ok ch)"
| "handle env (UpdateLiveness now) ch = Ok (update_nodes_liveness env now ch)"
| "handle env (CollectKeys now) ch = Ok (ch_gc_keys_marked_for_deletion now ch)"
| "handle env (WriteSelf now w) ch = write_self now w ch"
| "handle env (ResetNode c kvs mv gc) ch = reset_node_state env c kvs mv gc ch"
| "handle env (Subscribe p) ch = Ok (snd (ch_subscribe_event p ch))"

definition chitchat_start :: "chitchat \<Rightarrow> bool" where
  "chitchat_start ch = (\<exists>config seeds kvs size. with_chitchat_id_and_seeds config seeds kvs size = Ok ch)"

definition chitchat_step :: "gossip_env \<Rightarrow> chitchat \<Rightarrow> chitchat_event \<Rightarrow> chitchat \<Rightarrow> bool" where
  "chitchat_step env ch e ch' = (handle env e ch = Ok ch')"

section \<open>What the operations keep\<close>

definition known :: "chitchat \<Rightarrow> chitchat_id \<Rightarrow> bool" where
  "known ch c = hm_contains (node_states ch) c"

abbreviation samples :: "chitchat \<Rightarrow> chitchat_id \<Rightarrow> sampling_window option" where
  "samples ch \<equiv> hm_get (fd_node_samples (ch_failure_detector ch))"

definition empty_window :: "sampling_window option \<Rightarrow> bool" where
  "empty_window w = (case w of None \<Rightarrow> True | Some w \<Rightarrow> ba_len (sw_intervals w) = 0)"

text \<open>
  A step that leaves the live and the dead nodes alone, forgets no node, samples known nodes only,
  and leaves the windows of all nodes outside \<open>D\<close> as they are, or empty.
\<close>

definition keeps :: "chitchat_id set \<Rightarrow> chitchat \<Rightarrow> chitchat \<Rightarrow> bool" where
  "keeps D ch ch' =
     (ch_config ch' = ch_config ch \<and> ch_previous_live_nodes ch' = ch_previous_live_nodes ch \<and>
      fd_config (ch_failure_detector ch') = fd_config (ch_failure_detector ch) \<and>
      fd_live_nodes (ch_failure_detector ch') = fd_live_nodes (ch_failure_detector ch) \<and>
      fd_dead_nodes (ch_failure_detector ch') = fd_dead_nodes (ch_failure_detector ch) \<and>
      (hm_wf (node_states ch) \<longrightarrow> hm_wf (node_states ch')) \<and>
      (\<forall>c. known ch c \<longrightarrow> known ch' c) \<and>
      (\<forall>c. samples ch' c \<noteq> None \<longrightarrow> samples ch c \<noteq> None \<or> known ch' c) \<and>
      (\<forall>c. c \<notin> D \<longrightarrow> samples ch' c = samples ch c \<or> empty_window (samples ch' c)))"

lemma keeps_refl [simp]: "keeps D ch ch"
  by (simp add: keeps_def)

lemma node_keeps_trans: "keeps D ch ch1 \<Longrightarrow> keeps D ch1 ch2 \<Longrightarrow> keeps D ch ch2"
  unfolding keeps_def by metis

lemma keeps_mono: "keeps D ch ch' \<Longrightarrow> D \<subseteq> E \<Longrightarrow> keeps E ch ch'"
  unfolding keeps_def by blast

lemma known_put [simp]: "hm_contains (cs_node_states (put_member c s cs)) d \<longleftrightarrow> d = c \<or> hm_contains (cs_node_states cs) d"
  by (simp add: put_member_def hm_contains_def hm.get_ins)

lemma keeps_update_member: "keeps D ch (update_member c s ch)"
  by (simp add: keeps_def update_member_def known_def put_member_wf)

lemma update_member_known [simp]: "known (update_member c s ch) d \<longleftrightarrow> d = c \<or> known ch d"
  by (simp add: known_def update_member_def)

lemma update_member_frame [simp]:
  "ch_config (update_member c s ch) = ch_config ch"
  "ch_previous_live_nodes (update_member c s ch) = ch_previous_live_nodes ch"
  "ch_failure_detector (update_member c s ch) = ch_failure_detector ch"
  by (simp_all add: update_member_def)

lemma keeps_cluster:
  assumes "\<And>c. known ch c \<Longrightarrow> hm_contains (cs_node_states cs) c" and "hm_wf (node_states ch) \<Longrightarrow> hm_wf (cs_node_states cs)"
  shows "keeps D ch (ch\<lparr>ch_cluster_state := cs, ch_listener_calls := calls\<rparr>)"
  using assms by (simp add: keeps_def known_def)

lemma apply_node_deltas_known:
  assumes "apply_node_deltas now nds cs = Ok (calls, cs')"
  shows "hm_contains (cs_node_states cs) c \<Longrightarrow> hm_contains (cs_node_states cs') c"
    and "hm_wf (cs_node_states cs) \<Longrightarrow> hm_wf (cs_node_states cs')"
  using assms
proof (induction nds arbitrary: cs calls)
  case (Cons nd nds)
  {
    case 1
    from 1(2) obtain s calls1 where "apply_node_deltas now nds (put_member (nd_chitchat_id nd) s cs) = Ok (calls1, cs')" by auto
    from Cons.IH(1) [OF _ this] 1(1) show ?case by simp
  next
    case 2
    from 2(2) obtain s calls1 where "apply_node_deltas now nds (put_member (nd_chitchat_id nd) s cs) = Ok (calls1, cs')" by auto
    from Cons.IH(2) [OF _ this] 2(1) show ?case by (simp add: put_member_wf)
  }
qed simp_all

lemma get_or_create_samples:
  assumes "get_or_create_sampling_window rnd c f = (w, f')"
  shows "fd_config f' = fd_config f \<and> fd_live_nodes f' = fd_live_nodes f \<and> fd_dead_nodes f' = fd_dead_nodes f \<and>
    (\<forall>d. d \<noteq> c \<longrightarrow> hm_get (fd_node_samples f') d = hm_get (fd_node_samples f) d) \<and>
    (hm_get (fd_node_samples f') c = hm_get (fd_node_samples f) c \<or> empty_window (hm_get (fd_node_samples f') c))"
  using assms
  by (auto simp: get_or_create_sampling_window_def Let_def hm.get_ins empty_window_def sampling_window_new_def
      with_capacity_def ba_len_def split: option.splits)

lemma fd_report_heartbeat_samples:
  assumes "fd_report_heartbeat rnd now c f = Ok f'"
  shows "fd_config f' = fd_config f \<and> fd_live_nodes f' = fd_live_nodes f \<and> fd_dead_nodes f' = fd_dead_nodes f \<and>
    (\<forall>d. d \<noteq> c \<longrightarrow> hm_get (fd_node_samples f') d = hm_get (fd_node_samples f) d)"
proof -
  obtain w f1 where g: "get_or_create_sampling_window rnd c f = (w, f1)" by (cases "get_or_create_sampling_window rnd c f")
  with assms obtain w' where "f' = f1\<lparr>fd_node_samples := hm_insert c w' (fd_node_samples f1)\<rparr>"
    by (auto simp: fd_report_heartbeat_def)
  then show ?thesis using get_or_create_samples [OF g] by (simp add: hm.get_ins)
qed

lemma keeps_report_heartbeat:
  assumes "report_heartbeat env now c h ch = Ok ch'"
  shows "keeps {c} ch ch'"
proof (cases "c = self_id ch")
  case True
  then show ?thesis using assms by (simp add: report_heartbeat_def)
next
  case False
  obtain u s where t: "try_set_heartbeat h (member c (ch_cluster_state ch)) = (u, s)" by (cases "try_set_heartbeat h (member c (ch_cluster_state ch))")
  consider "ch' = update_member c s ch"
    | f where "fd_report_heartbeat (env_rnd env) now c (ch_failure_detector ch) = Ok f"
        "ch' = (update_member c s ch)\<lparr>ch_failure_detector := f\<rparr>"
    using assms False t by (auto simp: report_heartbeat_def Let_def split: if_splits)
  then show ?thesis
  proof cases
    case 1
    then show ?thesis by (simp add: keeps_update_member)
  next
    case 2
    from fd_report_heartbeat_samples [OF 2(1)] have "keeps {c} (update_member c s ch) ch'"
      unfolding 2(2) keeps_def by (auto simp: known_def update_member_def)
    then show ?thesis using node_keeps_trans [OF keeps_update_member] by blast
  qed
qed

lemma keeps_report_heartbeats:
  "report_heartbeats env now ds ch = Ok ch' \<Longrightarrow> keeps (fst ` set ds) ch ch'"
proof (induction ds arbitrary: ch)
  case (Cons p ds)
  obtain c d where p: "p = (c, d)" by (cases p)
  from Cons.prems p obtain ch1 where "report_heartbeat env now c (dg_heartbeat d) ch = Ok ch1" "report_heartbeats env now ds ch1 = Ok ch'"
    by auto
  then have "keeps {c} ch ch1" "keeps (fst ` set ds) ch1 ch'" using keeps_report_heartbeat Cons.IH by blast+
  then show ?case using node_keeps_trans keeps_mono p by (metis Un_upper1 Un_upper2 image_insert insert_is_Un list.simps(15) fst_conv)
qed simp

lemma keeps_digest: "report_heartbeats_in_digest env now dg ch = Ok ch' \<Longrightarrow> keeps (fst ` set dg) ch ch'"
  unfolding report_heartbeats_in_digest_def by (drule keeps_report_heartbeats) simp

lemma keeps_process_delta: "process_delta now d ch = Ok ch' \<Longrightarrow> keeps D ch ch'"
proof -
  assume a: "process_delta now d ch = Ok ch'"
  let ?ch1 = "maybe_trigger_catchup_callback d ch"
  have 1: "keeps D ch ?ch1" by (simp add: maybe_trigger_catchup_callback_def keeps_def known_def)
  from a obtain calls cs where cs: "apply_node_deltas now (delta_node_deltas d) (ch_cluster_state ?ch1) = Ok (calls, cs)"
    and ch': "ch' = ?ch1\<lparr>ch_cluster_state := cs, ch_listener_calls := ch_listener_calls ?ch1 @ calls\<rparr>"
    by (auto simp: process_delta_def cs_apply_delta_def Let_def)
  have "keeps D ?ch1 ch'"
    unfolding ch' by (rule keeps_cluster) (use apply_node_deltas_known [OF cs] in \<open>auto simp: known_def\<close>)
  with 1 show ?thesis by (rule node_keeps_trans)
qed

fun digest_of :: "chitchat_message \<Rightarrow> digest" where
  "digest_of (Syn _ dg) = dg"
| "digest_of (SynAck dg _) = dg"
| "digest_of _ = []"

lemmas message_unfold = process_message_def answer_message_def process_syn_def answer_syn_def process_syn_ack_def

lemma keeps_process_message:
  assumes "process_message env now msg ch = Ok (reply, ch')"
  shows "keeps (fst ` set (digest_of msg)) ch ch'"
proof -
  let ?D = "fst ` set (digest_of msg)" and ?ch = "update_self_heartbeat ch"
  have 1: "keeps ?D ch ?ch" by (simp add: update_self_heartbeat_def keeps_update_member)
  have "keeps ?D ?ch ch'"
  proof (cases msg)
    case (Syn cid dg)
    then show ?thesis using assms keeps_digest [of env now dg ?ch]
      by (auto simp: message_unfold Let_def split: if_splits)
  next
    case (SynAck dg d)
    then obtain ch1 where "report_heartbeats_in_digest env now dg ?ch = Ok ch1" "process_delta now d ch1 = Ok ch'"
      using assms by (auto simp: message_unfold Let_def)
    then show ?thesis using keeps_digest keeps_process_delta node_keeps_trans SynAck by (metis digest_of.simps(2))
  next
    case (Ack d)
    then show ?thesis using assms keeps_process_delta [of now d ?ch] by (auto simp: message_unfold Let_def)
  next
    case BadCluster
    then show ?thesis using assms by (simp add: message_unfold Let_def)
  qed
  with 1 show ?thesis by (rule node_keeps_trans)
qed

lemma keeps_reset_node_state:
  assumes "reset_node_state env c kvs mv gc ch = Ok ch'"
  shows "keeps D ch ch'"
proof -
  obtain w f where g: "get_or_create_sampling_window (env_rnd env) c (ch_failure_detector ch) = (w, f)"
    by (cases "get_or_create_sampling_window (env_rnd env) c (ch_failure_detector ch)")
  have upd: "keeps D ch (update_member c s (ch\<lparr>ch_failure_detector := f, ch_listener_calls := calls\<rparr>))" for s calls
    using get_or_create_samples [OF g] unfolding keeps_def update_member_def known_def by (auto simp: put_member_wf)
  show ?thesis
    using assms g upd keeps_update_member by (auto simp: reset_node_state_def Let_def split: if_splits)
qed

lemma keeps_other:
  "keeps D ch (ch_gc_keys_marked_for_deletion now ch)"
  "keeps D ch (snd (ch_subscribe_event p ch))"
  "write_self now w ch = Ok ch' \<Longrightarrow> keeps D ch ch'"
proof -
  show "keeps D ch (ch_gc_keys_marked_for_deletion now ch)"
    by (auto simp: keeps_def known_def ch_gc_keys_marked_for_deletion_def cs_gc_keys_marked_for_deletion_def
        hm_contains_def hm_get_map_values)
  show "keeps D ch (snd (ch_subscribe_event p ch))"
    by (simp add: keeps_def known_def ch_subscribe_event_def split_def Let_def)
  show "keeps D ch ch'" if "write_self now w ch = Ok ch'"
    using that keeps_update_member by (auto simp: write_self_def)
qed

section \<open>The periodic update\<close>

lemma is_alive_cong:
  "hm_get (fd_node_samples f) c = hm_get (fd_node_samples g) c \<Longrightarrow> fd_config f = fd_config g \<Longrightarrow>
   is_alive rnd now c f = is_alive rnd now c g"
  unfolding is_alive_def fd_phi_def by presburger

abbreviation update_others :: "chitchat_id \<Rightarrow> (real \<Rightarrow> real) \<Rightarrow> instant \<Rightarrow> chitchat_id list \<Rightarrow> failure_detector \<Rightarrow> failure_detector" where
  "update_others self rnd now \<equiv> fold (\<lambda>c f. if c \<noteq> self then update_node_liveness rnd now c f else f)"

lemma update_node_liveness_result:
  "fd_config (update_node_liveness rnd now c f) = fd_config f"
  "d \<in> set (fd_live_nodes (update_node_liveness rnd now c f)) \<longleftrightarrow> (if d = c then is_alive rnd now c f else d \<in> set (fd_live_nodes f))"
  "hm_get (fd_dead_nodes (update_node_liveness rnd now c f)) d =
     (if d \<noteq> c then hm_get (fd_dead_nodes f) d else if is_alive rnd now c f then None
      else Some (case hm_get (fd_dead_nodes f) c of Some t \<Rightarrow> t | None \<Rightarrow> now))"
  "hm_get (fd_node_samples (update_node_liveness rnd now c f)) d =
     (if d = c \<and> \<not> is_alive rnd now c f then map_option sw_reset (hm_get (fd_node_samples f) c)
      else hm_get (fd_node_samples f) d)"
  "hm_wf (fd_dead_nodes f) \<Longrightarrow> hm_wf (fd_dead_nodes (update_node_liveness rnd now c f))"
  by (auto simp: update_node_liveness_def hm.get_ins hm.get_del hm.wf_ins hm.wf_del split: option.splits)

lemma update_others_result:
  assumes "distinct cs"
  shows "fd_config (update_others self rnd now cs f) = fd_config f"
    and "d \<in> set (fd_live_nodes (update_others self rnd now cs f)) \<longleftrightarrow>
      (if d \<in> set cs \<and> d \<noteq> self then is_alive rnd now d f else d \<in> set (fd_live_nodes f))"
    and "hm_get (fd_dead_nodes (update_others self rnd now cs f)) d =
      (if d \<in> set cs \<and> d \<noteq> self then
         if is_alive rnd now d f then None else Some (case hm_get (fd_dead_nodes f) d of Some t \<Rightarrow> t | None \<Rightarrow> now)
       else hm_get (fd_dead_nodes f) d)"
    and "hm_get (fd_node_samples (update_others self rnd now cs f)) d =
      (if d \<in> set cs \<and> d \<noteq> self \<and> \<not> is_alive rnd now d f then map_option sw_reset (hm_get (fd_node_samples f) d)
       else hm_get (fd_node_samples f) d)"
    and "hm_wf (fd_dead_nodes f) \<Longrightarrow> hm_wf (fd_dead_nodes (update_others self rnd now cs f))"
  using assms
proof (induction cs arbitrary: f)
  case (Cons c cs)
  have alive: "d \<noteq> c \<Longrightarrow> is_alive rnd now d (update_node_liveness rnd now c f) = is_alive rnd now d f" for f
    by (rule is_alive_cong) (simp_all add: update_node_liveness_result)
  {
    case (1 f)
    then show ?case using Cons.IH(1) [of "if c \<noteq> self then update_node_liveness rnd now c f else f"] by (cases "c = self") (simp_all add: update_node_liveness_result)
  next
    case (2 f)
    then show ?case using Cons.IH(2) [of "if c \<noteq> self then update_node_liveness rnd now c f else f"] alive by (cases "c = self") (auto simp: update_node_liveness_result)
  next
    case (3 f)
    then show ?case using Cons.IH(3) [of "if c \<noteq> self then update_node_liveness rnd now c f else f"] alive by (cases "c = self") (auto simp: update_node_liveness_result)
  next
    case (4 f)
    then show ?case using Cons.IH(4) [of "if c \<noteq> self then update_node_liveness rnd now c f else f"] alive by (cases "c = self") (auto simp: update_node_liveness_result)
  next
    case (5 f)
    then show ?case using Cons.IH(5) [of "if c \<noteq> self then update_node_liveness rnd now c f else f"] by (cases "c = self") (simp_all add: update_node_liveness_result)
  }
qed simp_all

lemma hm_get_fold_remove: "hm_get (fold hm_remove ks m) k = (if k \<in> set ks then None else hm_get m k)"
  by (induction ks arbitrary: m) (auto simp: hm.get_del)

lemma hm_wf_fold_remove: "hm_wf m \<Longrightarrow> hm_wf (fold hm_remove ks m)"
  by (induction ks arbitrary: m) (auto simp: hm.wf_del)

lemma fold_remove_node: "fold remove_node ks cs = cs\<lparr>cs_node_states := fold hm_remove ks (cs_node_states cs)\<rparr>"
  by (induction ks arbitrary: cs) (simp_all add: remove_node_def)

definition overdue :: "instant \<Rightarrow> failure_detector \<Rightarrow> chitchat_id \<Rightarrow> bool" where
  "overdue now f c = (\<exists>t. hm_get (fd_dead_nodes f) c = Some t \<and> t + fc_dead_node_grace_period (fd_config f) \<le> now)"

lemma garbage_collect_set: "hm_wf (fd_dead_nodes f) \<Longrightarrow> c \<in> set (fst (garbage_collect now f)) \<longleftrightarrow> overdue now f c"
  by (auto simp: garbage_collect_def overdue_def Let_def hm_get_iff image_iff)

definition liveness_updated :: "gossip_env \<Rightarrow> instant \<Rightarrow> chitchat \<Rightarrow> failure_detector" where
  "liveness_updated env now ch =
     update_others (self_id ch) (env_rnd env) now (hm_keys (in_id_order (node_states ch))) (ch_failure_detector ch)"

lemmas update_unfold = update_nodes_liveness_def collect_dead_nodes_def forget_nodes_def report_current_live_nodes_def
  report_live_nodes_def update_failure_detector_def

lemma update_nodes_liveness_result:
  "ch_config (update_nodes_liveness env now ch) = ch_config ch"
  "ch_failure_detector (update_nodes_liveness env now ch) = snd (garbage_collect now (liveness_updated env now ch))"
  "node_states (update_nodes_liveness env now ch) =
     fold hm_remove (fst (garbage_collect now (liveness_updated env now ch))) (node_states ch)"
  by (simp_all add: update_unfold liveness_updated_def fold_remove_node)

definition members_ok :: "chitchat \<Rightarrow> bool" where
  "members_ok ch =
     (hm_wf (node_states ch) \<and> hm_wf (fd_dead_nodes (ch_failure_detector ch)) \<and> hm_wf (ch_previous_live_nodes ch) \<and> known ch (self_id ch) \<and>
      (\<forall>c. c \<in> set (fd_live_nodes (ch_failure_detector ch)) \<longrightarrow>
         c \<noteq> self_id ch \<and> known ch c \<and> hm_get (fd_dead_nodes (ch_failure_detector ch)) c = None) \<and>
      (\<forall>c. hm_get (fd_dead_nodes (ch_failure_detector ch)) c \<noteq> None \<longrightarrow> c \<noteq> self_id ch \<and> known ch c) \<and>
      (\<forall>c. samples ch c \<noteq> None \<longrightarrow> known ch c))"

lemma members_ok_keeps: "members_ok ch \<Longrightarrow> keeps D ch ch' \<Longrightarrow> members_ok ch'"
  unfolding members_ok_def keeps_def by metis

lemma keys_in_id_order: "set (hm_keys (in_id_order m)) = {c. hm_contains m c}" "hm_wf m \<Longrightarrow> distinct (hm_keys (in_id_order m))"
  by (auto simp: hm_keys_def hm_contains_def hm_get_def map_of_eq_None_iff domIff hm_wf_def distinct_map inj_on_def
      dest: map_of_SomeD)

lemma liveness_updated_result:
  assumes "members_ok ch"
  shows "fd_config (liveness_updated env now ch) = fd_config (ch_failure_detector ch)"
    and "c \<in> set (fd_live_nodes (liveness_updated env now ch)) \<longleftrightarrow>
      known ch c \<and> c \<noteq> self_id ch \<and> is_alive (env_rnd env) now c (ch_failure_detector ch)"
    and "hm_get (fd_dead_nodes (liveness_updated env now ch)) c =
      (if known ch c \<and> c \<noteq> self_id ch \<and> \<not> is_alive (env_rnd env) now c (ch_failure_detector ch)
       then Some (case hm_get (fd_dead_nodes (ch_failure_detector ch)) c of Some t \<Rightarrow> t | None \<Rightarrow> now) else None)"
    and "hm_get (fd_node_samples (liveness_updated env now ch)) c =
      (if known ch c \<and> c \<noteq> self_id ch \<and> \<not> is_alive (env_rnd env) now c (ch_failure_detector ch)
       then map_option sw_reset (samples ch c) else samples ch c)"
    and "hm_wf (fd_dead_nodes (liveness_updated env now ch))"
proof -
  let ?cs = "hm_keys (in_id_order (node_states ch))"
  have d: "distinct ?cs" and k: "\<And>c. c \<in> set ?cs \<longleftrightarrow> known ch c"
    using assms by (simp_all add: members_ok_def keys_in_id_order known_def del: hm_keys_set)
  show "fd_config (liveness_updated env now ch) = fd_config (ch_failure_detector ch)"
    by (simp add: liveness_updated_def update_others_result [OF d])
  show "c \<in> set (fd_live_nodes (liveness_updated env now ch)) \<longleftrightarrow>
      known ch c \<and> c \<noteq> self_id ch \<and> is_alive (env_rnd env) now c (ch_failure_detector ch)"
    using assms by (auto simp: liveness_updated_def update_others_result [OF d] k members_ok_def simp del: hm_keys_set)
  show "hm_get (fd_dead_nodes (liveness_updated env now ch)) c =
      (if known ch c \<and> c \<noteq> self_id ch \<and> \<not> is_alive (env_rnd env) now c (ch_failure_detector ch)
       then Some (case hm_get (fd_dead_nodes (ch_failure_detector ch)) c of Some t \<Rightarrow> t | None \<Rightarrow> now) else None)"
    using assms by (auto simp: liveness_updated_def update_others_result [OF d] k members_ok_def simp del: hm_keys_set)
  show "hm_get (fd_node_samples (liveness_updated env now ch)) c =
      (if known ch c \<and> c \<noteq> self_id ch \<and> \<not> is_alive (env_rnd env) now c (ch_failure_detector ch)
       then map_option sw_reset (samples ch c) else samples ch c)"
    by (simp add: liveness_updated_def update_others_result [OF d] k del: hm_keys_set)
  show "hm_wf (fd_dead_nodes (liveness_updated env now ch))"
    using assms by (simp add: liveness_updated_def update_others_result [OF d] members_ok_def)
qed

lemma hm_eq_get:
  assumes "hm_wf m" and "hm_wf n" and "hm_eq m n"
  shows "hm_get m k = hm_get n k"
proof -
  have "set m \<subseteq> set n" using assms by (auto simp: hm_eq_def list_all_iff hm_get_iff)
  moreover have "card (set m) = card (set n)"
    using assms by (simp add: hm_eq_def hm_wf_def distinct_card distinct_map)
  ultimately have "set m = set n" by (simp add: card_subset_eq)
  then show ?thesis using hm_get_set_eq [OF assms(1,2)] by simp
qed

lemma current_live_nodes_get:
  "hm_get (current_live_nodes ch) c =
     (if c \<in> set (ch_live_nodes ch) then map_option ns_max_version (hm_get (node_states ch) c) else None)"
  "hm_wf (current_live_nodes ch)"
proof -
  let ?g = "\<lambda>c m. case hm_get (node_states ch) c of Some s \<Rightarrow> hm_insert c (ns_max_version s) m | None \<Rightarrow> m"
  have "hm_get (fold ?g cs m) c =
    (if c \<in> set cs \<and> hm_get (node_states ch) c \<noteq> None then map_option ns_max_version (hm_get (node_states ch) c) else hm_get m c)"
    and "hm_wf m \<Longrightarrow> hm_wf (fold ?g cs m)" for cs m
    by (induction cs arbitrary: m) (auto simp: hm.get_ins hm.wf_ins split: option.splits)
  then show "hm_get (current_live_nodes ch) c =
     (if c \<in> set (ch_live_nodes ch) then map_option ns_max_version (hm_get (node_states ch) c) else None)"
    "hm_wf (current_live_nodes ch)"
    by (auto simp: current_live_nodes_def)
qed

lemma updated_members:
  fixes env :: gossip_env and now :: instant
  assumes "members_ok ch"
  defines "f \<equiv> liveness_updated env now ch" and "ch' \<equiv> update_nodes_liveness env now ch"
  shows "known ch' c \<longleftrightarrow> known ch c \<and> \<not> overdue now f c"
    and "fd_live_nodes (ch_failure_detector ch') = fd_live_nodes f"
    and "hm_get (fd_dead_nodes (ch_failure_detector ch')) c = (if overdue now f c then None else hm_get (fd_dead_nodes f) c)"
    and "samples ch' c = (if overdue now f c then None else hm_get (fd_node_samples f) c)"
    and "hm_wf (fd_dead_nodes (ch_failure_detector ch'))" and "hm_wf (node_states ch')"
    and "\<not> overdue now f c \<Longrightarrow> hm_get (node_states ch') c = hm_get (node_states ch) c"
    and "fd_config (ch_failure_detector ch') = fd_config (ch_failure_detector ch)"
proof -
  note f = liveness_updated_result [OF assms(1), where env = env and now = now, folded f_def]
  note g = garbage_collect_set [OF f(5), where now = now]
  have gc: "snd (garbage_collect now f) = f\<lparr>fd_dead_nodes := fold hm_remove (fst (garbage_collect now f)) (fd_dead_nodes f),
      fd_node_samples := fold hm_remove (fst (garbage_collect now f)) (fd_node_samples f)\<rparr>"
    by (simp add: garbage_collect_def Let_def)
  note r = update_nodes_liveness_result [where env = env and now = now and ch = ch, folded f_def ch'_def]
  show "known ch' c \<longleftrightarrow> known ch c \<and> \<not> overdue now f c"
    by (simp add: known_def r hm_contains_def hm_get_fold_remove g)
  show "fd_live_nodes (ch_failure_detector ch') = fd_live_nodes f" by (simp add: r gc)
  show "hm_get (fd_dead_nodes (ch_failure_detector ch')) c = (if overdue now f c then None else hm_get (fd_dead_nodes f) c)"
    "samples ch' c = (if overdue now f c then None else hm_get (fd_node_samples f) c)"
    by (simp_all add: r gc hm_get_fold_remove g)
  show "hm_wf (fd_dead_nodes (ch_failure_detector ch'))" "hm_wf (node_states ch')"
    using f(5) assms(1) by (simp_all add: r gc hm_wf_fold_remove members_ok_def)
  show "hm_get (node_states ch') c = hm_get (node_states ch) c" if "\<not> overdue now f c"
    using that by (simp add: r hm_get_fold_remove g)
  show "fd_config (ch_failure_detector ch') = fd_config (ch_failure_detector ch)"
    using f(1) by (simp add: r gc)
qed

lemma updated_previous_live_nodes:
  fixes env :: gossip_env and now :: instant
  assumes "members_ok ch"
  defines "ch' \<equiv> update_nodes_liveness env now ch"
  shows "hm_wf (ch_previous_live_nodes ch')"
    and "hm_get (ch_previous_live_nodes ch') c =
      (if c \<in> set (ch_live_nodes ch') then map_option ns_max_version (hm_get (node_states ch') c) else None)"
proof -
  let ?ch = "ch\<lparr>ch_failure_detector := liveness_updated env now ch\<rparr>"
  have prev: "ch_previous_live_nodes ch' =
      (if hm_eq (ch_previous_live_nodes ch) (current_live_nodes ?ch) then ch_previous_live_nodes ch else current_live_nodes ?ch)"
    by (simp add: ch'_def update_unfold liveness_updated_def)
  then show "hm_wf (ch_previous_live_nodes ch')" using assms(1) by (simp add: current_live_nodes_get members_ok_def)
  have "hm_get (ch_previous_live_nodes ch') c = hm_get (current_live_nodes ?ch) c"
    using prev hm_eq_get [OF _ current_live_nodes_get(2)] assms(1) by (auto simp: members_ok_def)
  also have "\<dots> = (if c \<in> set (ch_live_nodes ch') then map_option ns_max_version (hm_get (node_states ch') c) else None)"
  proof -
    have live: "ch_live_nodes ch' = ch_live_nodes ?ch"
      by (simp add: ch_live_nodes_def ch'_def update_nodes_liveness_result garbage_collect_def Let_def)
    have "\<not> overdue now (liveness_updated env now ch) c" if "c \<in> set (ch_live_nodes ?ch)"
      using that liveness_updated_result [OF assms(1), where env = env and now = now] by (auto simp: overdue_def ch_live_nodes_def)
    then show ?thesis
      using live updated_members(7) [OF assms(1), where env = env and now = now and c = c] by (auto simp: current_live_nodes_get ch'_def)
  qed
  finally show "hm_get (ch_previous_live_nodes ch') c =
      (if c \<in> set (ch_live_nodes ch') then map_option ns_max_version (hm_get (node_states ch') c) else None)" .
qed

lemma members_ok_update:
  assumes "members_ok ch"
  shows "members_ok (update_nodes_liveness env now ch)"
proof -
  note u = updated_members [OF assms, where env = env and now = now] and f = liveness_updated_result [OF assms, where env = env and now = now]
  have m: "known ch (self_id ch)" "\<And>c. samples ch c \<noteq> None \<Longrightarrow> known ch c" using assms by (auto simp: members_ok_def)
  have nself: "\<not> overdue now (liveness_updated env now ch) (self_id ch)" using f(3) by (auto simp: overdue_def)
  have nlive: "\<not> overdue now (liveness_updated env now ch) c" if "c \<in> set (fd_live_nodes (liveness_updated env now ch))" for c
    using that f(2,3) by (auto simp: overdue_def)
  show ?thesis
    unfolding members_ok_def
    using u updated_previous_live_nodes(1) [OF assms] f m nself nlive update_nodes_liveness_result(1)
    by (auto split: if_splits)
qed

lemma handle_cases:
  assumes "handle env e ch = Ok ch'"
  obtains now where "e = UpdateLiveness now" "ch' = update_nodes_liveness env now ch"
  | "keeps (case e of Receive _ msg \<Rightarrow> fst ` set (digest_of msg) | _ \<Rightarrow> {}) ch ch'"
  using assms keeps_process_message keeps_other keeps_reset_node_state by (cases e) auto

interpretation members: inductive_invariant chitchat_start "chitchat_step env" members_ok for env
proof unfold_locales
  fix ch assume "chitchat_start ch"
  then show "members_ok ch"
    by (auto simp: chitchat_start_def with_chitchat_id_and_seeds_def Let_def members_ok_def update_member_def
        update_self_heartbeat_def with_seed_addrs_def failure_detector_new_def known_def put_member_wf)
next
  fix ch e ch' assume "members_ok ch" and "chitchat_step env ch e ch'"
  then show "members_ok ch'"
    unfolding chitchat_step_def by (metis handle_cases members_ok_keeps members_ok_update)
qed

section \<open>Nodes that fall silent\<close>

text \<open>
  The rounding of \<open>f64\<close> keeps the sign and, from 1 on, is off by less than half. A node falls silent
  when no further digest names it.
\<close>

definition rounding_ok :: "(real \<Rightarrow> real) \<Rightarrow> bool" where
  "rounding_ok rnd = ((\<forall>x. 0 \<le> x \<longrightarrow> 0 \<le> rnd x) \<and> (\<forall>x. 1 \<le> x \<longrightarrow> x / 2 \<le> rnd x))"

fun silent :: "chitchat_id \<Rightarrow> chitchat_event \<Rightarrow> bool" where
  "silent c (Receive _ msg) = (c \<notin> fst ` set (digest_of msg))"
| "silent c _ = True"

definition silent_run :: "gossip_env \<Rightarrow> chitchat_id \<Rightarrow> chitchat \<Rightarrow> chitchat \<Rightarrow> bool" where
  "silent_run env c = (\<lambda>ch ch'. \<exists>e. silent c e \<and> chitchat_step env ch e ch')\<^sup>*\<^sup>*"

lemma as_secs_f64_grows:
  assumes "rounding_ok rnd" and "4 \<le> n" and "n * 10 ^ 9 \<le> d"
  shows "real n / 4 \<le> as_secs_f64 rnd d"
proof -
  have n: "n \<le> d div 10 ^ 9" using assms(3) by (simp add: less_eq_div_iff_mult_less_eq)
  let ?s = "real (d div 10 ^ 9)" and ?r = "rnd (real (d mod 10 ^ 9) / 10 ^ 9)"
  have r: "0 \<le> ?r" and half: "\<And>x. 1 \<le> x \<Longrightarrow> x / 2 \<le> rnd x" using assms(1) by (simp_all add: rounding_ok_def)
  have s: "real n \<le> ?s" "4 \<le> ?s" using n assms(2) by linarith+
  have "?s / 2 \<le> rnd ?s" using half s by simp
  with r s have "1 \<le> rnd ?s + ?r" "real n / 2 \<le> rnd ?s + ?r" by linarith+
  with half [OF this(1)] show ?thesis by (simp add: as_secs_f64_def)
qed

lemma phi_exceeds_threshold:
  assumes "rounding_ok rnd" and "0 < interval_mean rnd w"
  shows "\<exists>T. \<forall>now \<ge> T. \<forall>q. sw_phi rnd now w = Some q \<longrightarrow> \<not> quotient_le q threshold"
proof (cases "sw_last_heartbeat w")
  case None
  then show ?thesis by (simp add: sw_phi_def)
next
  case (Some t)
  let ?m = "interval_mean rnd w"
  obtain n :: nat where n: "max 4 (max (4 * ?m) (8 * ?m * (threshold + 1))) \<le> real n" using real_arch_simple by blast
  have n4: "4 \<le> n" using n by simp
  have "\<not> quotient_le (f64_div rnd (as_secs_f64 rnd (now - t)) ?m) threshold" if "t + n * 10 ^ 9 \<le> now" for now
  proof -
    have "real n / 4 \<le> as_secs_f64 rnd (now - t)" using as_secs_f64_grows [OF assms(1) n4] that by simp
    moreover define x where "x = as_secs_f64 rnd (now - t) / ?m"
    ultimately have "real n / (4 * ?m) \<le> x" using assms(2) by (simp add: field_simps)
    moreover have "1 \<le> real n / (4 * ?m)" "2 * (threshold + 1) \<le> real n / (4 * ?m)" using n assms(2) by (simp_all add: field_simps)
    ultimately have x: "1 \<le> x" "2 * (threshold + 1) \<le> x" by linarith+
    then have "x / 2 \<le> rnd x" using assms(1) by (simp add: rounding_ok_def)
    with x have "threshold < rnd x" by simp
    then show ?thesis using assms(2) by (simp add: f64_div_def x_def)
  qed
  then show ?thesis using Some by (intro exI [of _ "t + n * 10 ^ 9"]) (auto simp: sw_phi_def)
qed

lemma empty_not_alive: "empty_window (samples ch c) \<Longrightarrow> \<not> is_alive rnd now c (ch_failure_detector ch)"
  by (auto simp: empty_window_def is_alive_def fd_phi_def sw_phi_def split: option.splits)

lemma empty_window_reset: "empty_window (map_option sw_reset w)"
  by (simp add: empty_window_def sw_reset_def ba_clear_def ba_len_def split: option.split)

lemma updated_not_alive:
  assumes "members_ok ch" and "c \<noteq> self_id ch" and "\<not> is_alive (env_rnd env) now c (ch_failure_detector ch)"
  shows "empty_window (samples (update_nodes_liveness env now ch) c)"
    and "c \<notin> set (fd_live_nodes (ch_failure_detector (update_nodes_liveness env now ch)))"
proof -
  note u = updated_members [OF assms(1), where env = env and now = now] and f = liveness_updated_result [OF assms(1), where env = env and now = now]
  have "samples ch c = None" if "\<not> known ch c" using assms(1) that by (auto simp: members_ok_def)
  then show "empty_window (samples (update_nodes_liveness env now ch) c)"
    using u(4) [of c] f(4) [of c] assms(2,3) empty_window_reset by (auto simp: empty_window_def)
  show "c \<notin> set (fd_live_nodes (ch_failure_detector (update_nodes_liveness env now ch)))"
    using u(2) f(2) [of c] assms(3) by simp
qed

text \<open>Until the update that finds the node dead, its window is the old one or empty; from then on it is empty.\<close>

definition fading :: "sampling_window option \<Rightarrow> chitchat_id \<Rightarrow> failure_detector_config \<Rightarrow> chitchat \<Rightarrow> bool" where
  "fading w c config ch =
     (members_ok ch \<and> c \<noteq> self_id ch \<and> fd_config (ch_failure_detector ch) = config \<and>
      (samples ch c = w \<or> empty_window (samples ch c)))"

definition suspected :: "chitchat_id \<Rightarrow> failure_detector_config \<Rightarrow> chitchat \<Rightarrow> bool" where
  "suspected c config ch =
     (members_ok ch \<and> c \<noteq> self_id ch \<and> fd_config (ch_failure_detector ch) = config \<and>
      empty_window (samples ch c) \<and> c \<notin> set (fd_live_nodes (ch_failure_detector ch)))"

lemma silent_step_cases:
  assumes "silent c e" and "chitchat_step env ch e ch'"
  obtains now where "ch' = update_nodes_liveness env now ch"
  | D where "keeps D ch ch'" "c \<notin> D"
  using assms handle_cases [of env e ch ch'] unfolding chitchat_step_def by (cases e) auto

lemma fading_step:
  assumes "fading w c config ch" and "silent c e" and "chitchat_step env ch e ch'"
  shows "fading w c config ch'"
  using assms(2,3)
proof (cases rule: silent_step_cases)
  case (1 now)
  have m: "members_ok ch" "c \<noteq> self_id ch" using assms(1) by (simp_all add: fading_def)
  have "samples ch' c = samples ch c \<or> empty_window (samples ch' c)"
  proof (cases "is_alive (env_rnd env) now c (ch_failure_detector ch)")
    case True
    then show ?thesis
      using updated_members(4) [OF m(1), where env = env and now = now and c = c] 1
        liveness_updated_result(4) [OF m(1), where env = env and now = now and c = c] by (auto simp: empty_window_def)
  next
    case False
    then show ?thesis using updated_not_alive(1) [OF m False] 1 by simp
  qed
  then show ?thesis
    using assms(1) 1 members_ok_update [OF m(1)] updated_members(8) [OF m(1)]
    by (auto simp: fading_def update_nodes_liveness_result(1))
next
  case (2 D)
  then show ?thesis using assms(1) members_ok_keeps [OF _ 2(1)] unfolding fading_def keeps_def by metis
qed

lemma suspected_step:
  assumes "suspected c config ch" and "silent c e" and "chitchat_step env ch e ch'"
  shows "suspected c config ch'"
  using assms(2,3)
proof (cases rule: silent_step_cases)
  case (1 now)
  have m: "members_ok ch" "c \<noteq> self_id ch" "\<not> is_alive (env_rnd env) now c (ch_failure_detector ch)"
    using assms(1) empty_not_alive by (simp_all add: suspected_def)
  then show ?thesis
    using assms(1) 1 members_ok_update [OF m(1)] updated_not_alive [OF m] updated_members(8) [OF m(1)]
    by (auto simp: suspected_def update_nodes_liveness_result(1))
next
  case (2 D)
  then show ?thesis using assms(1) members_ok_keeps [OF _ 2(1)] unfolding suspected_def keeps_def by metis
qed

lemma silent_run_keeps:
  assumes "silent_run env c ch ch'"
  shows "fading w c config ch \<Longrightarrow> fading w c config ch'" and "suspected c config ch \<Longrightarrow> suspected c config ch'"
  using assms unfolding silent_run_def
  by (induction rule: rtranclp_induct) (auto intro: fading_step suspected_step)

section \<open>Membership\<close>



section \<open>Examples\<close>

fun run_events :: "gossip_env \<Rightarrow> chitchat_event list \<Rightarrow> chitchat \<Rightarrow> chitchat outcome" where
  "run_events env [] ch = Ok ch"
| "run_events env (e # es) ch = obind (handle env e ch) (run_events env es)"

lemma reach_run_events:
  "reach chitchat_start (chitchat_step env) ch \<Longrightarrow> run_events env es ch = Ok ch' \<Longrightarrow> reach chitchat_start (chitchat_step env) ch'"
proof (induction es arbitrary: ch)
  case (Cons e es)
  then obtain ch1 where "chitchat_step env ch e ch1" "run_events env es ch1 = Ok ch'" by (auto simp: chitchat_step_def)
  then show ?case using Cons.IH reach_step [OF Cons.prems(1)] by blast
qed simp

definition example_env :: gossip_env where
  "example_env = \<lparr>env_rnd = (\<lambda>x. x), env_zstd = stored_zstd, env_shuffle = (\<lambda>l. l), env_half_grace = 1\<rparr>"

definition example_config :: chitchat_config where
  "example_config =
     \<lparr>cfg_chitchat_id = example_node, cfg_cluster_id = [99],
      cfg_failure_detector_config = failure_detector_config_default\<lparr>fc_sampling_window_size := 3\<rparr>,
      cfg_marked_for_deletion_grace_period = 10, cfg_catchup_callback = False, cfg_extra_liveness_predicate = None\<rparr>"

definition hear :: "instant \<Rightarrow> u64 \<Rightarrow> chitchat_event" where
  "hear now h = Receive now (Syn [99] [(other_node, \<lparr>dg_heartbeat = h, dg_last_gc_version = 0, dg_max_version = 0\<rparr>)])"

text \<open>A node that hears another one three times, a nanosecond apart, and then updates its live nodes.\<close>

definition example_run :: "chitchat outcome" where
  "example_run =
     obind (with_chitchat_id_and_seeds example_config [] [] 65507)
       (run_events example_env [hear 0 1, hear 1 2, hear 2 3, UpdateLiveness 3])"

lemma outcome_caseD: "(case x of Ok a \<Rightarrow> P a | Bail _ \<Rightarrow> False | Panic _ \<Rightarrow> False) \<Longrightarrow> \<exists>a. x = Ok a \<and> P a"
  by (cases x) simp_all

lemma example_run_alive:
  "case example_run of
     Ok ch \<Rightarrow> other_node \<in> set (fd_live_nodes (ch_failure_detector ch)) \<and> other_node \<noteq> self_id ch \<and>
       (case samples ch other_node of Some w \<Rightarrow> 0 < interval_mean (env_rnd example_env) w | None \<Rightarrow> True)
   | _ \<Rightarrow> False"
  by code_simp

lemma example_run_reached:
  assumes "example_run = Ok ch"
  shows "reach chitchat_start (chitchat_step example_env) ch"
proof -
  from assms obtain ch0 es where "with_chitchat_id_and_seeds example_config [] [] 65507 = Ok ch0" "run_events example_env es ch0 = Ok ch"
    unfolding example_run_def obind_eq_Ok by blast
  then show ?thesis by (intro reach_run_events [OF reach_start]) (auto simp: chitchat_start_def)
qed



section \<open>Handlers that fail\<close>

text \<open>A SYN is answered with the whole digest; when this leaves less than 100 bytes for the delta, the node panics.\<close>

lemma large_digest_panics:
  assumes "report_heartbeats_in_digest env now dg (update_self_heartbeat ch) = Ok ch1"
    and "ch_max_datagram_payload_size ch1 <
      101 + length (ser_digest (env_zstd env) (compute_digest (ch_scheduled_for_deletion_nodes env now ch1) (ch_cluster_state ch1)))"
    and "cfg_cluster_id (ch_config ch) = cid"
  shows "\<exists>e. process_message env now (Syn cid dg) ch = Panic e"
proof -
  have "cfg_cluster_id (ch_config (update_self_heartbeat ch)) = cid" using assms(3) by (simp add: update_self_heartbeat_def)
  then show ?thesis using assms(1,2)
    by (auto simp: process_message_def answer_message_def process_syn_def answer_syn_def usize_sub_def compute_delta_def compute_partial_delta_respecting_mtu_def with_mtu_def Let_def)
qed

text \<open>A reset to a state without keys leaves the version of the copy behind the one it was reset to.\<close>

lemma reset_keeps_old_version:
  assumes "reset_node_state env c [] max_version gc ch = Ok ch'" and "ns_max_version (member c (ch_cluster_state ch)) < max_version"
  shows "ns_max_version (member c (ch_cluster_state ch')) = ns_max_version (member c (ch_cluster_state ch))"
proof -
  have fold: "ns_max_version (fold remove_key_value_internal ks s) = ns_max_version s" for ks s
    by (induction ks arbitrary: s) (simp_all add: remove_key_value_internal_def)
  from assms show ?thesis
    by (auto simp: reset_node_state_def update_member_def set_last_gc_version_def fold Let_def split_def split: if_splits)
qed

end
