(* ===== verification/Thread_References.thy ===== *)
theory Thread_References
  imports Threads_Table
begin

text \<open>
  The references a state holds to the blocks of all threads
  (src/node/src/multithreading/cross_thread_messaging/thread_references_state.rs): which blocks
  become referenced when a block references others, and the state after that. The repository the
  blocks are read from is a parameter; it does not change while references are moved. Of the data of
  a block only the fields that references depend on are kept
  (src/node/src/repository/cross_thread_ref_data.rs); its messages and accounts are not read here.

  A \<open>HashSet\<close> turned into a vector has an arbitrary order; here it is the order of insertion.
\<close>

section \<open>Data\<close>

record cross_thread_ref_data =
  cr_block_identifier :: block_identifier
  cr_block_seq_no :: block_seq_no
  cr_block_thread_identifier :: thread_identifier
  cr_threads_table :: threads_table
  cr_parent_block_identifier :: block_identifier
  cr_block_refs :: "block_identifier list"

record referenced_block =
  rb_block_thread_identifier :: thread_identifier
  rb_block_identifier :: block_identifier
  rb_block_seq_no :: block_seq_no

definition referenced_block_from :: "thread_identifier \<times> block_identifier \<times> block_seq_no \<Rightarrow> referenced_block" where
  "referenced_block_from p =
     (case p of (t, b, n) \<Rightarrow> \<lparr>rb_block_thread_identifier = t, rb_block_identifier = b, rb_block_seq_no = n\<rparr>)"

definition as_reference_state_data :: "cross_thread_ref_data \<Rightarrow> thread_identifier \<times> block_identifier \<times> block_seq_no" where
  "as_reference_state_data d = (cr_block_thread_identifier d, cr_block_identifier d, cr_block_seq_no d)"

abbreviation reference_to :: "cross_thread_ref_data \<Rightarrow> referenced_block" where
  "reference_to d \<equiv> referenced_block_from (as_reference_state_data d)"

definition spawned_threads :: "cross_thread_ref_data \<Rightarrow> thread_identifier list" where
  "spawned_threads d =
     filter (\<lambda>t. is_spawning_block t (cr_block_identifier d)) (map snd (cr_threads_table d))"

type_synonym thread_refs = "(thread_identifier, referenced_block) hmap"
type_synonym ref_reader = "block_identifier \<Rightarrow> cross_thread_ref_data outcome"

section \<open>Operations\<close>

definition refs_update :: "thread_identifier \<Rightarrow> thread_identifier \<times> block_identifier \<times> block_seq_no \<Rightarrow> thread_refs \<Rightarrow> thread_refs" where
  "refs_update thread referenced_block refs = hm_insert thread (referenced_block_from referenced_block) refs"

text \<open>The loop of \<open>walk_back_into_history\<close>, with its two tests against the cutoff.\<close>

definition reaches_cutoff :: "thread_refs \<Rightarrow> cross_thread_ref_data \<Rightarrow> bool" where
  "reaches_cutoff cutoff d =
     (case hm_get cutoff (cr_block_thread_identifier d) of
        Some thread_last \<Rightarrow> rb_block_seq_no thread_last \<ge> cr_block_seq_no d | None \<Rightarrow> False)"

definition wrong_state_refs :: "thread_refs \<Rightarrow> cross_thread_ref_data \<Rightarrow> bool" where
  "wrong_state_refs cutoff d =
     (case hm_get cutoff (cr_block_thread_identifier d) of
        Some thread_last \<Rightarrow> rb_block_seq_no thread_last = cr_block_seq_no d \<and> rb_block_identifier thread_last \<noteq> cr_block_identifier d
      | None \<Rightarrow> False)"

partial_function (option) walk_back ::
    "ref_reader \<Rightarrow> thread_refs \<Rightarrow> cross_thread_ref_data list \<Rightarrow> cross_thread_ref_data \<Rightarrow>
     cross_thread_ref_data list outcome option" where
  "walk_back read cutoff trail cursor =
     (if reaches_cutoff cutoff cursor then
        Some (if wrong_state_refs cutoff cursor then Bail ''Wrong state refs'' else Ok trail)
      else
        (case read (cr_parent_block_identifier cursor) of
           Ok parent \<Rightarrow> walk_back read cutoff (trail @ [cursor]) parent
         | Bail e \<Rightarrow> Some (Bail e)
         | Panic e \<Rightarrow> Some (Panic e)))"

definition walk_back_into_history ::
    "block_identifier \<Rightarrow> ref_reader \<Rightarrow> thread_refs \<Rightarrow> cross_thread_ref_data list outcome option" where
  "walk_back_into_history cursor read cutoff =
     (case read cursor of
        Ok d \<Rightarrow> walk_back read cutoff [] d | Bail e \<Rightarrow> Some (Bail e) | Panic e \<Rightarrow> Some (Panic e))"

record ref_search =
  rs_tails :: thread_refs
  rs_stack :: "block_identifier list"
  rs_all_referenced :: "referenced_block list"
  rs_explicitly_referenced :: "block_identifier list"

definition absorb_block :: "block_identifier list \<Rightarrow> cross_thread_ref_data \<Rightarrow> ref_search \<Rightarrow> ref_search" where
  "absorb_block previously_referenced d s =
     (let should_update = (case hm_get (rs_tails s) (cr_block_thread_identifier d) of
            Some existing \<Rightarrow> cr_block_seq_no d > rb_block_seq_no existing | None \<Rightarrow> True);
          s1 = (if should_update then
                  s\<lparr>rs_tails := hm_insert (cr_block_thread_identifier d) (reference_to d) (rs_tails s),
                    rs_explicitly_referenced :=
                      (if cr_block_identifier d \<notin> set previously_referenced
                       then List.insert (cr_block_identifier d) (rs_explicitly_referenced s)
                       else rs_explicitly_referenced s)\<rparr>
                else s) in
      s1\<lparr>rs_all_referenced := rs_all_referenced s1 @ [reference_to d], rs_stack := rs_stack s1 @ cr_block_refs d\<rparr>)"

partial_function (option) reference_loop ::
    "ref_reader \<Rightarrow> block_identifier list \<Rightarrow> ref_search \<Rightarrow> ref_search outcome option" where
  "reference_loop read previously_referenced s =
     (case rs_stack s of
        [] \<Rightarrow> Some (Ok s)
      | cursor # stack \<Rightarrow>
          (case walk_back_into_history cursor read (rs_tails s) of
             None \<Rightarrow> None
           | Some r \<Rightarrow>
               (case r of
                  Ok trail \<Rightarrow>
                    reference_loop read previously_referenced
                      (fold (absorb_block previously_referenced) (rev trail) (s\<lparr>rs_stack := stack\<rparr>))
                | Bail e \<Rightarrow> Some (Bail e)
                | Panic e \<Rightarrow> Some (Panic e))))"

record resulting_state =
  implicitly_referenced_blocks :: "block_identifier list"
  explicitly_referenced_blocks :: "block_identifier list"

datatype can_ref_query_result = CanRefNo | CanRefYes resulting_state

definition resulting_state_of :: "ref_search \<Rightarrow> resulting_state" where
  "resulting_state_of s =
     \<lparr>implicitly_referenced_blocks =
        map rb_block_identifier
          (filter (\<lambda>e. rb_block_identifier e \<notin> set (rs_explicitly_referenced s)) (rs_all_referenced s)),
      explicitly_referenced_blocks = rs_explicitly_referenced s\<rparr>"

definition start_search :: "block_identifier list \<Rightarrow> thread_refs \<Rightarrow> ref_search" where
  "start_search explicit_references refs =
     \<lparr>rs_tails = refs, rs_stack = explicit_references, rs_all_referenced = [], rs_explicitly_referenced = []\<rparr>"

definition can_reference ::
    "block_identifier list \<Rightarrow> ref_reader \<Rightarrow> thread_refs \<Rightarrow> can_ref_query_result outcome option" where
  "can_reference explicit_references read refs =
     (if explicit_references = []
      then Some (Ok (CanRefYes \<lparr>implicitly_referenced_blocks = [], explicitly_referenced_blocks = []\<rparr>))
      else
        map_option (\<lambda>r. obind r (\<lambda>s. Ok (CanRefYes (resulting_state_of s))))
          (reference_loop read (map (\<lambda>(_, e). rb_block_identifier e) refs) (start_search explicit_references refs)))"

fun read_all :: "ref_reader \<Rightarrow> block_identifier list \<Rightarrow> cross_thread_ref_data list outcome" where
  "read_all read [] = Ok []"
| "read_all read (b # bs) = obind (read b) (\<lambda>d. obind (read_all read bs) (\<lambda>ds. Ok (d # ds)))"

text \<open>The blocks that spawn threads are placed into the new threads too.\<close>

definition add_phantoms :: "cross_thread_ref_data \<Rightarrow> thread_refs \<Rightarrow> thread_refs" where
  "add_phantoms d refs = fold (\<lambda>t refs. hm_insert t (reference_to d) refs) (spawned_threads d) refs"

definition keep_tail ::
    "thread_identifier \<times> block_identifier \<times> block_seq_no \<Rightarrow>
     (thread_identifier, thread_identifier \<times> block_identifier \<times> block_seq_no) hmap \<Rightarrow>
     (thread_identifier, thread_identifier \<times> block_identifier \<times> block_seq_no) hmap" where
  "keep_tail e tails =
     (case e of (thread, i, seq_no) \<Rightarrow>
        hm_modify_or_insert thread (\<lambda>old. if seq_no > snd (snd old) then (thread, i, seq_no) else old) (thread, i, seq_no) tails)"

definition keep_tails ::
    "(thread_identifier \<times> block_identifier \<times> block_seq_no) list \<Rightarrow>
     (thread_identifier \<times> block_identifier \<times> block_seq_no) list" where
  "keep_tails referenced_blocks = map snd (fold keep_tail referenced_blocks [])"

definition extend_refs :: "(thread_identifier \<times> block_identifier \<times> block_seq_no) list \<Rightarrow> thread_refs \<Rightarrow> thread_refs" where
  "extend_refs es refs = fold (\<lambda>e refs. hm_insert (fst e) (referenced_block_from e) refs) es refs"

definition apply_refs :: "ref_reader \<Rightarrow> thread_refs \<Rightarrow> block_identifier list \<Rightarrow> (cross_thread_ref_data list \<times> thread_refs) outcome" where
  "apply_refs read refs all_refs =
     obind (read_all read all_refs) (\<lambda>ds.
     Ok (ds, extend_refs (keep_tails (map as_reference_state_data ds)) (fold add_phantoms ds refs)))"

definition move_refs ::
    "block_identifier list \<Rightarrow> ref_reader \<Rightarrow> thread_refs \<Rightarrow> (cross_thread_ref_data list \<times> thread_refs) outcome option" where
  "move_refs block_refs read refs =
     map_option (\<lambda>r. obind r (\<lambda>q.
       case q of
         CanRefNo \<Rightarrow> Bail ''Can not reference to the given set of refs''
       | CanRefYes r \<Rightarrow> apply_refs read refs (explicitly_referenced_blocks r @ implicitly_referenced_blocks r)))
       (can_reference block_refs read refs)"

section \<open>Histories\<close>

text \<open>
  What the repository holds of the chain of blocks: a block is found under its id, a block other than
  a root has a greater sequence number than its parent, and a block whose parent is in another thread
  starts a thread this parent has spawned. A root is its own parent.
\<close>

definition history_ok :: "ref_reader \<Rightarrow> bool" where
  "history_ok read =
     (\<forall>i d. read i = Ok d \<longrightarrow> cr_block_identifier d = i \<and>
        (\<forall>p. read (cr_parent_block_identifier d) = Ok p \<longrightarrow>
           (cr_parent_block_identifier d \<noteq> i \<longrightarrow> cr_block_seq_no p < cr_block_seq_no d) \<and>
           (cr_block_thread_identifier p \<noteq> cr_block_thread_identifier d \<longrightarrow>
              cr_block_thread_identifier d \<in> set (spawned_threads p))))"

text \<open>
  A state covers a block when it references this or a later block of its thread. A sound state covers
  the roots and the block that spawned any thread it references.
\<close>

abbreviation covers :: "thread_refs \<Rightarrow> cross_thread_ref_data \<Rightarrow> bool" where
  "covers \<equiv> reaches_cutoff"

definition refs_ok :: "ref_reader \<Rightarrow> thread_refs \<Rightarrow> bool" where
  "refs_ok read refs =
     ((\<forall>i d. read i = Ok d \<longrightarrow> cr_parent_block_identifier d = i \<longrightarrow> covers refs d) \<and>
      (\<forall>t i b. hm_get refs t \<noteq> None \<longrightarrow> read i = Ok b \<longrightarrow> t \<in> set (spawned_threads b) \<longrightarrow> covers refs b))"

lemma covers_iff:
  "covers refs d \<longleftrightarrow> (\<exists>e. hm_get refs (cr_block_thread_identifier d) = Some e \<and> cr_block_seq_no d \<le> rb_block_seq_no e)"
  by (simp add: reaches_cutoff_def split: option.splits)

lemma spawned_by: "t \<in> set (spawned_threads b) \<Longrightarrow> cr_block_identifier b = spawning_block_id t"
  by (auto simp: spawned_threads_def is_spawning_block_def spawning_block_id_def)

lemma reference_to_sel [simp]:
  "rb_block_thread_identifier (reference_to d) = cr_block_thread_identifier d"
  "rb_block_identifier (reference_to d) = cr_block_identifier d"
  "rb_block_seq_no (reference_to d) = cr_block_seq_no d"
  by (simp_all add: referenced_block_from_def as_reference_state_data_def)

text \<open>Coverage is closed under parents.\<close>

lemma covers_parent:
  assumes "history_ok read" and "refs_ok read refs" and "read i = Ok d" and "covers refs d"
    and "read (cr_parent_block_identifier d) = Ok p"
  shows "covers refs p"
proof -
  have h: "cr_block_identifier d = i" "cr_parent_block_identifier d \<noteq> i \<Longrightarrow> cr_block_seq_no p < cr_block_seq_no d"
    "cr_block_thread_identifier p \<noteq> cr_block_thread_identifier d \<Longrightarrow> cr_block_thread_identifier d \<in> set (spawned_threads p)"
    using assms(1,3,5) unfolding history_ok_def by blast+
  show ?thesis
  proof (cases "cr_block_thread_identifier p = cr_block_thread_identifier d \<and> cr_parent_block_identifier d \<noteq> i")
    case True
    then show ?thesis using h(2) assms(4) by (fastforce simp: covers_iff)
  next
    case False
    then consider "cr_parent_block_identifier d = i" | "cr_block_thread_identifier d \<in> set (spawned_threads p)" using h(3) by blast
    then show ?thesis
    proof cases
      case 1
      then show ?thesis using assms(3-5) by simp
    next
      case 2
      then show ?thesis using assms(2,4,5) unfolding refs_ok_def covers_iff by (metis option.distinct(1))
    qed
  qed
qed

section \<open>The walk back\<close>

inductive back_chain :: "ref_reader \<Rightarrow> thread_refs \<Rightarrow> cross_thread_ref_data \<Rightarrow> cross_thread_ref_data list \<Rightarrow> bool"
  for read cutoff where
  chain_stop: "covers cutoff d \<Longrightarrow> back_chain read cutoff d []"
| chain_back: "\<not> covers cutoff d \<Longrightarrow> read (cr_parent_block_identifier d) = Ok p \<Longrightarrow> back_chain read cutoff p ds \<Longrightarrow>
    back_chain read cutoff d (d # ds)"

lemma walk_back_chain:
  assumes "walk_back read cutoff trail d = Some r"
  shows "\<forall>trail'. r = Ok trail' \<longrightarrow> (\<exists>ds. trail' = trail @ ds \<and> back_chain read cutoff d ds)"
    (is "?P read cutoff trail d r")
proof (rule walk_back.raw_induct [where P = ?P, OF _ assms], intro allI impI, goal_cases)
  case (1 loop read cutoff trail d r trail')
  show ?case
  proof (cases "covers cutoff d")
    case True
    then show ?thesis using 1(2,3) chain_stop by (auto split: if_splits)
  next
    case False
    then obtain p where p: "read (cr_parent_block_identifier d) = Ok p" "loop read cutoff (trail @ [d]) p = Some r"
      using 1(2,3) by (auto split: outcome.splits)
    from 1(1) [OF p(2)] 1(3) obtain ds where "trail' = (trail @ [d]) @ ds" "back_chain read cutoff p ds" by blast
    then show ?thesis using chain_back [of cutoff d read p ds] False p(1) by auto
  qed
qed

lemma back_chain_facts:
  assumes "back_chain read cutoff d ds" and "history_ok read" and "read i = Ok d"
  shows "(d \<in> set ds \<or> covers cutoff d) \<and> (\<forall>e \<in> set ds. read (cr_block_identifier e) = Ok e \<and> \<not> covers cutoff e \<and>
      (\<exists>p. read (cr_parent_block_identifier e) = Ok p \<and> (p \<in> set ds \<or> covers cutoff p)))"
  using assms
proof (induction arbitrary: i)
  case (chain_back d p ds)
  have "read (cr_block_identifier d) = Ok d" using chain_back.prems by (auto simp: history_ok_def)
  then show ?case using chain_back.IH [OF chain_back.prems(1) chain_back.hyps(2)] chain_back.hyps by auto
qed simp

lemma back_chain_descends:
  assumes "back_chain read cutoff d ds" and "history_ok read" and "refs_ok read cutoff" and "read i = Ok d"
  shows "sorted_wrt (\<lambda>x y. cr_block_seq_no y < cr_block_seq_no x) ds \<and> (\<forall>e \<in> set ds. cr_block_seq_no e \<le> cr_block_seq_no d)"
  using assms
proof (induction arbitrary: i)
  case (chain_back d p ds)
  have i: "cr_block_identifier d = i" using chain_back.prems by (auto simp: history_ok_def)
  then have "cr_parent_block_identifier d \<noteq> i" using chain_back.prems(2,3) chain_back.hyps(1) by (auto simp: refs_ok_def)
  then have "cr_block_seq_no p < cr_block_seq_no d"
    using chain_back.prems(1,3) chain_back.hyps(2) unfolding history_ok_def by blast
  then show ?case using chain_back.IH [OF chain_back.prems(1,2) chain_back.hyps(2)] by auto
qed simp

section \<open>The search for referenced blocks\<close>

definition newest_in :: "cross_thread_ref_data list \<Rightarrow> thread_identifier \<Rightarrow> cross_thread_ref_data \<Rightarrow> bool" where
  "newest_in ds t d =
     (d \<in> set ds \<and> cr_block_thread_identifier d = t \<and>
      (\<forall>e \<in> set ds. cr_block_thread_identifier e = t \<longrightarrow> cr_block_seq_no e \<le> cr_block_seq_no d))"

text \<open>The references after those of \<open>ds\<close> have been put on top.\<close>

definition advanced :: "cross_thread_ref_data list \<Rightarrow> thread_refs \<Rightarrow> thread_refs \<Rightarrow> bool" where
  "advanced ds refs refs' =
     (\<forall>t. if \<exists>d \<in> set ds. cr_block_thread_identifier d = t then \<exists>d. newest_in ds t d \<and> hm_get refs' t = Some (reference_to d)
          else hm_get refs' t = hm_get refs t)"

lemma absorb_block_update:
  assumes "\<not> covers (rs_tails s) d"
  shows "absorb_block prev d s =
    s\<lparr>rs_tails := hm_insert (cr_block_thread_identifier d) (reference_to d) (rs_tails s),
      rs_explicitly_referenced :=
        (if cr_block_identifier d \<notin> set prev then List.insert (cr_block_identifier d) (rs_explicitly_referenced s)
         else rs_explicitly_referenced s),
      rs_all_referenced := rs_all_referenced s @ [reference_to d], rs_stack := rs_stack s @ cr_block_refs d\<rparr>"
  using assms by (auto simp: absorb_block_def reaches_cutoff_def Let_def split: option.splits)

lemma advanced_Cons:
  assumes "advanced ds (hm_insert (cr_block_thread_identifier d) (reference_to d) refs) refs'"
    and "\<forall>e \<in> set ds. cr_block_seq_no d < cr_block_seq_no e"
  shows "advanced (d # ds) refs refs'"
  unfolding advanced_def
proof
  fix t
  have a: "if \<exists>d \<in> set ds. cr_block_thread_identifier d = t then \<exists>d. newest_in ds t d \<and> hm_get refs' t = Some (reference_to d)
      else hm_get refs' t = hm_get (hm_insert (cr_block_thread_identifier d) (reference_to d) refs) t"
    using assms(1) by (simp add: advanced_def)
  show "if \<exists>d \<in> set (d # ds). cr_block_thread_identifier d = t then \<exists>e. newest_in (d # ds) t e \<and> hm_get refs' t = Some (reference_to e)
      else hm_get refs' t = hm_get refs t"
  proof (cases "\<exists>d \<in> set ds. cr_block_thread_identifier d = t")
    case True
    with a obtain e where e: "newest_in ds t e" "hm_get refs' t = Some (reference_to e)" by auto
    then have "cr_block_seq_no d < cr_block_seq_no e" using assms(2) by (simp add: newest_in_def)
    then have "newest_in (d # ds) t e" using e(1) by (auto simp: newest_in_def)
    then show ?thesis using e True by auto
  next
    case False
    then show ?thesis using a by (auto simp: newest_in_def hm.get_ins)
  qed
qed

lemma absorb_blocks:
  assumes "sorted_wrt (\<lambda>x y. cr_block_seq_no x < cr_block_seq_no y) ds" and "\<forall>d \<in> set ds. \<not> covers (rs_tails s) d"
  shows "advanced ds (rs_tails s) (rs_tails (fold (absorb_block prev) ds s)) \<and>
    rs_stack (fold (absorb_block prev) ds s) = rs_stack s @ concat (map cr_block_refs ds) \<and>
    rs_all_referenced (fold (absorb_block prev) ds s) = rs_all_referenced s @ map (\<lambda>d. reference_to d) ds \<and>
    set (rs_explicitly_referenced (fold (absorb_block prev) ds s)) =
      set (rs_explicitly_referenced s) \<union> (cr_block_identifier ` set ds - set prev) \<and>
    (distinct (rs_explicitly_referenced s) \<longrightarrow> distinct (rs_explicitly_referenced (fold (absorb_block prev) ds s)))"
  using assms
proof (induction ds arbitrary: s)
  case Nil
  then show ?case by (simp add: advanced_def)
next
  case (Cons d ds)
  let ?s = "absorb_block prev d s"
  have u: "\<not> covers (rs_tails s) d" using Cons.prems(2) by simp
  note upd = absorb_block_update [OF u, of prev]
  have tails: "rs_tails ?s = hm_insert (cr_block_thread_identifier d) (reference_to d) (rs_tails s)" by (simp add: upd)
  have "\<forall>e \<in> set ds. \<not> covers (rs_tails ?s) e"
    using Cons.prems by (auto simp: tails covers_iff hm.get_ins)
  from Cons.IH [OF _ this] Cons.prems(1) have IH: "advanced ds (rs_tails ?s) (rs_tails (fold (absorb_block prev) ds ?s))"
    "rs_stack (fold (absorb_block prev) ds ?s) = rs_stack ?s @ concat (map cr_block_refs ds)"
    "rs_all_referenced (fold (absorb_block prev) ds ?s) = rs_all_referenced ?s @ map (\<lambda>d. reference_to d) ds"
    "set (rs_explicitly_referenced (fold (absorb_block prev) ds ?s)) =
      set (rs_explicitly_referenced ?s) \<union> (cr_block_identifier ` set ds - set prev)"
    "distinct (rs_explicitly_referenced ?s) \<longrightarrow> distinct (rs_explicitly_referenced (fold (absorb_block prev) ds ?s))"
    by auto
  have adv: "advanced (d # ds) (rs_tails s) (rs_tails (fold (absorb_block prev) ds ?s))"
    using advanced_Cons [OF IH(1) [unfolded tails]] Cons.prems(1) by simp
  show ?case using adv IH(2-5) by (auto simp: upd)
qed

lemma advanced_covers:
  assumes "advanced ds refs refs'" and "\<forall>d \<in> set ds. \<not> covers refs d"
  shows "d \<in> set ds \<Longrightarrow> covers refs' d" and "covers refs d \<Longrightarrow> covers refs' d"
proof -
  show "covers refs' d" if d: "d \<in> set ds"
  proof -
    from assms(1) d obtain e where "newest_in ds (cr_block_thread_identifier d) e"
      "hm_get refs' (cr_block_thread_identifier d) = Some (reference_to e)"
      unfolding advanced_def by metis
    then show ?thesis using d by (auto simp: covers_iff newest_in_def)
  qed
  show "covers refs' d" if d: "covers refs d"
  proof (cases "\<exists>e \<in> set ds. cr_block_thread_identifier e = cr_block_thread_identifier d")
    case True
    with assms(1) obtain e where e: "newest_in ds (cr_block_thread_identifier d) e"
      "hm_get refs' (cr_block_thread_identifier d) = Some (reference_to e)"
      unfolding advanced_def by metis
    then have "\<not> covers refs e" "cr_block_thread_identifier e = cr_block_thread_identifier d"
      using assms(2) by (auto simp: newest_in_def)
    then have "cr_block_seq_no d \<le> cr_block_seq_no e" using d by (auto simp: covers_iff)
    then show ?thesis using e(2) by (simp add: covers_iff)
  next
    case False
    then have "hm_get refs' (cr_block_thread_identifier d) = hm_get refs (cr_block_thread_identifier d)"
      using assms(1) unfolding advanced_def by metis
    then show ?thesis using d by (simp add: covers_iff)
  qed
qed

text \<open>Newly referenced blocks whose parents are referenced too.\<close>

definition new_blocks :: "ref_reader \<Rightarrow> thread_refs \<Rightarrow> cross_thread_ref_data list \<Rightarrow> bool" where
  "new_blocks read refs ds =
     (\<forall>e \<in> set ds. read (cr_block_identifier e) = Ok e \<and> \<not> covers refs e \<and>
        (\<exists>p. read (cr_parent_block_identifier e) = Ok p \<and> (p \<in> set ds \<or> covers refs p)))"

lemma thread_starts:
  assumes "history_ok read" and "refs_ok read refs" and "new_blocks read refs ds"
    and "e \<in> set ds" and "cr_block_thread_identifier e = t" and "hm_get refs t = None"
  shows "\<exists>p. t \<in> set (spawned_threads p) \<and> read (cr_block_identifier p) = Ok p \<and> (p \<in> set ds \<or> covers refs p)"
proof -
  let ?P = "\<lambda>e. e \<in> set ds \<and> cr_block_thread_identifier e = t"
  obtain q where q: "q \<in> set ds" "cr_block_thread_identifier q = t"
    "\<And>e. ?P e \<Longrightarrow> unat (cr_block_seq_no q) \<le> unat (cr_block_seq_no e)"
    using ex_has_least_nat [of ?P e "\<lambda>e. unat (cr_block_seq_no e)"] assms(4,5) by blast
  obtain p where p: "read (cr_block_identifier q) = Ok q" "\<not> covers refs q" "read (cr_parent_block_identifier q) = Ok p"
    "p \<in> set ds \<or> covers refs p"
    using assms(3) q(1) unfolding new_blocks_def by blast
  have pid: "read (cr_block_identifier p) = Ok p" using assms(1) p(3) unfolding history_ok_def by metis
  have "cr_parent_block_identifier q \<noteq> cr_block_identifier q" using assms(2) p(1,2) unfolding refs_ok_def by blast
  then have less: "cr_block_seq_no p < cr_block_seq_no q" using assms(1) p(1,3) unfolding history_ok_def by blast
  have "cr_block_thread_identifier p \<noteq> t"
  proof
    assume t: "cr_block_thread_identifier p = t"
    then have "\<not> covers refs p" using assms(6) by (simp add: covers_iff)
    then show False using q(3) [of p] p(4) t less by (simp add: word_less_nat_alt)
  qed
  then have "t \<in> set (spawned_threads p)" using assms(1) p(1,3) q(2) unfolding history_ok_def by blast
  then show ?thesis using pid p(4) by blast
qed

lemma spawner_unique:
  assumes "history_ok read" and "read (cr_block_identifier p) = Ok p" and "t \<in> set (spawned_threads p)"
    and "read i = Ok b" and "t \<in> set (spawned_threads b)"
  shows "b = p"
proof -
  have "i = cr_block_identifier p"
    using assms(1,4) spawned_by [OF assms(3)] spawned_by [OF assms(5)] by (auto simp: history_ok_def)
  then show ?thesis using assms(2,4) by simp
qed

lemma advanced_refs_ok:
  assumes "history_ok read" and "refs_ok read refs" and "new_blocks read refs ds" and "advanced ds refs refs'"
  shows "refs_ok read refs'"
proof -
  have u: "\<forall>d \<in> set ds. \<not> covers refs d" using assms(3) by (simp add: new_blocks_def)
  note c = advanced_covers [OF assms(4) u]
  have "covers refs' b" if t: "hm_get refs' t \<noteq> None" "read i = Ok b" "t \<in> set (spawned_threads b)" for t i b
  proof (cases "hm_get refs t = None")
    case False
    then have "covers refs b" using assms(2) t(2,3) unfolding refs_ok_def by blast
    then show ?thesis by (rule c(2))
  next
    case True
    then obtain e where "e \<in> set ds" "cr_block_thread_identifier e = t" using assms(4) t(1) unfolding advanced_def by metis
    from thread_starts [OF assms(1-3) this True] obtain p where
      p: "t \<in> set (spawned_threads p)" "read (cr_block_identifier p) = Ok p" "p \<in> set ds \<or> covers refs p" by blast
    with spawner_unique [OF assms(1) p(2,1) t(2,3)] c show ?thesis by blast
  qed
  then show ?thesis using assms(2) c(2) unfolding refs_ok_def by blast
qed

definition found_blocks :: "ref_reader \<Rightarrow> thread_refs \<Rightarrow> thread_refs \<Rightarrow> cross_thread_ref_data list \<Rightarrow> bool" where
  "found_blocks read refs tails ds =
     (\<forall>e \<in> set ds. read (cr_block_identifier e) = Ok e \<and> \<not> covers refs e \<and>
        (\<exists>p. read (cr_parent_block_identifier e) = Ok p \<and> covers tails p))"

definition search_inv ::
    "ref_reader \<Rightarrow> thread_refs \<Rightarrow> block_identifier list \<Rightarrow> block_identifier list \<Rightarrow> cross_thread_ref_data list \<Rightarrow> ref_search \<Rightarrow> bool" where
  "search_inv read refs prev start ds s =
     (refs_ok read (rs_tails s) \<and> found_blocks read refs (rs_tails s) ds \<and> advanced ds refs (rs_tails s) \<and>
      (\<forall>i. i \<in> set start \<or> (\<exists>d \<in> set ds. i \<in> set (cr_block_refs d)) \<longrightarrow>
         i \<in> set (rs_stack s) \<or> (\<exists>e. read i = Ok e \<and> covers (rs_tails s) e)) \<and>
      distinct (map cr_block_identifier ds) \<and> rs_all_referenced s = map (\<lambda>d. reference_to d) ds \<and>
      set (rs_explicitly_referenced s) = cr_block_identifier ` set ds - set prev \<and> distinct (rs_explicitly_referenced s))"

lemma search_inv_start: "refs_ok read refs \<Longrightarrow> search_inv read refs prev start [] (start_search start refs)"
  by (simp add: search_inv_def start_search_def found_blocks_def advanced_def)

lemma advanced_append:
  assumes "advanced ds refs mid" and "advanced es mid refs'" and "\<forall>d \<in> set ds. covers mid d" and "\<forall>e \<in> set es. \<not> covers mid e"
  shows "advanced (ds @ es) refs refs'"
  unfolding advanced_def
proof
  fix t
  show "if \<exists>d \<in> set (ds @ es). cr_block_thread_identifier d = t
      then \<exists>d. newest_in (ds @ es) t d \<and> hm_get refs' t = Some (reference_to d) else hm_get refs' t = hm_get refs t"
  proof (cases "\<exists>e \<in> set es. cr_block_thread_identifier e = t")
    case True
    with assms(2) obtain e where e: "newest_in es t e" "hm_get refs' t = Some (reference_to e)" unfolding advanced_def by metis
    then have "\<not> covers mid e" using assms(4) by (simp add: newest_in_def)
    then have "cr_block_seq_no d \<le> cr_block_seq_no e" if "d \<in> set ds" "cr_block_thread_identifier d = t" for d
      using that assms(3) e(1) by (force simp: covers_iff newest_in_def)
    then have "newest_in (ds @ es) t e" using e(1) by (auto simp: newest_in_def)
    then show ?thesis using e(2) True by auto
  next
    case False
    then have "hm_get refs' t = hm_get mid t" using assms(2) unfolding advanced_def by metis
    moreover have "newest_in (ds @ es) t d \<longleftrightarrow> newest_in ds t d" for d using False by (auto simp: newest_in_def)
    ultimately show ?thesis using assms(1) False unfolding advanced_def by (metis UnE set_append UnI1)
  qed
qed

lemma ascending_distinct: "sorted_wrt (\<lambda>x y. f x < (f y :: 'b::order)) xs \<Longrightarrow> distinct xs"
  by (induction xs) auto

lemma trail_facts:
  assumes "history_ok read" and "refs_ok read tails" and "walk_back_into_history cursor read tails = Some (Ok trail)"
  shows "\<exists>d. read cursor = Ok d \<and> (d \<in> set trail \<or> covers tails d) \<and> new_blocks read tails trail \<and>
    sorted_wrt (\<lambda>x y. cr_block_seq_no x < cr_block_seq_no y) (rev trail)"
proof -
  from assms(3) obtain d where d: "read cursor = Ok d" "back_chain read tails d trail"
    by (auto simp: walk_back_into_history_def split: outcome.splits dest: walk_back_chain)
  show ?thesis
    using d(1) back_chain_facts [OF d(2) assms(1) d(1)] back_chain_descends [OF d(2) assms(1,2) d(1)]
    by (simp add: new_blocks_def sorted_wrt_rev)
qed

lemma search_inv_step:
  assumes "history_ok read" and "search_inv read refs prev start ds s" and "rs_stack s = cursor # stack"
    and "walk_back_into_history cursor read (rs_tails s) = Some (Ok trail)"
  shows "search_inv read refs prev start (ds @ rev trail) (fold (absorb_block prev) (rev trail) (s\<lparr>rs_stack := stack\<rparr>))"
proof -
  let ?s = "fold (absorb_block prev) (rev trail) (s\<lparr>rs_stack := stack\<rparr>)" and ?tails = "rs_tails s"
  have inv: "refs_ok read ?tails" "found_blocks read refs ?tails ds" "advanced ds refs ?tails" "distinct (map cr_block_identifier ds)"
    using assms(2) by (simp_all add: search_inv_def)
  obtain d where d: "read cursor = Ok d" "d \<in> set trail \<or> covers ?tails d" and chain: "new_blocks read ?tails trail"
    and sorted: "sorted_wrt (\<lambda>x y. cr_block_seq_no x < cr_block_seq_no y) (rev trail)"
    using trail_facts [OF assms(1) inv(1) assms(4)] by blast
  have u: "\<forall>e \<in> set trail. \<not> covers ?tails e" using chain by (simp add: new_blocks_def)
  from absorb_blocks [OF sorted, of "s\<lparr>rs_stack := stack\<rparr>" prev] u
  have a: "advanced (rev trail) ?tails (rs_tails ?s)" "rs_stack ?s = stack @ concat (map cr_block_refs (rev trail))"
    "rs_all_referenced ?s = rs_all_referenced s @ map (\<lambda>d. reference_to d) (rev trail)"
    "set (rs_explicitly_referenced ?s) = set (rs_explicitly_referenced s) \<union> (cr_block_identifier ` set trail - set prev)"
    "distinct (rs_explicitly_referenced s) \<longrightarrow> distinct (rs_explicitly_referenced ?s)"
    by simp_all
  have cov: "e \<in> set trail \<Longrightarrow> covers (rs_tails ?s) e" "covers ?tails e \<Longrightarrow> covers (rs_tails ?s) e" for e
    using advanced_covers [OF a(1)] u by auto
  have old: "\<forall>d \<in> set ds. \<not> covers refs d" using inv(2) by (simp add: found_blocks_def)
  have dsc: "\<forall>d \<in> set ds. covers ?tails d" using advanced_covers(1) [OF inv(3) old] by blast
  have adv: "advanced (ds @ rev trail) refs (rs_tails ?s)" by (rule advanced_append [OF inv(3) a(1) dsc]) (use u in simp)
  have found: "found_blocks read refs (rs_tails ?s) (ds @ rev trail)"
    using inv(2) chain cov advanced_covers(2) [OF inv(3) old] unfolding found_blocks_def new_blocks_def by (auto 0 3)
  have ok: "refs_ok read (rs_tails ?s)"
    using advanced_refs_ok [OF assms(1) inv(1) _ a(1)] chain by (simp add: new_blocks_def)
  have "distinct (map cr_block_identifier (rev trail))"
  proof -
    have "distinct (rev trail)" using ascending_distinct [OF sorted] .
    moreover have "inj_on cr_block_identifier (set trail)"
      using chain unfolding new_blocks_def inj_on_def by (metis outcome.inject(1))
    ultimately show ?thesis by (simp add: distinct_map)
  qed
  moreover have "cr_block_identifier x \<noteq> cr_block_identifier y" if "x \<in> set ds" "y \<in> set trail" for x y
    using that dsc u inv(2) chain unfolding found_blocks_def new_blocks_def by (metis outcome.inject(1))
  ultimately have dist: "distinct (map cr_block_identifier (ds @ rev trail))"
    using inv(4) by (auto simp: rev_map)
  have handled: "i \<in> set (rs_stack ?s) \<or> (\<exists>e. read i = Ok e \<and> covers (rs_tails ?s) e)"
    if "i \<in> set start \<or> (\<exists>d \<in> set (ds @ rev trail). i \<in> set (cr_block_refs d))" for i
  proof (cases "\<exists>d \<in> set trail. i \<in> set (cr_block_refs d)")
    case True
    then show ?thesis by (auto simp: a(2))
  next
    case False
    then have "i \<in> set (rs_stack s) \<or> (\<exists>e. read i = Ok e \<and> covers ?tails e)"
      using that assms(2) unfolding search_inv_def by auto
    then show ?thesis using assms(3) d cov by (auto simp: a(2))
  qed
  show ?thesis
    using ok found adv handled dist a(3-5) assms(2) unfolding search_inv_def by auto
qed

lemma reference_loop_inv:
  assumes "reference_loop read prev s = Some r"
  shows "\<forall>s' ds. r = Ok s' \<longrightarrow> history_ok read \<longrightarrow> search_inv read refs prev start ds s \<longrightarrow>
    (\<exists>es. search_inv read refs prev start es s' \<and> rs_stack s' = [])"
    (is "?P read prev s r")
proof (rule reference_loop.raw_induct [where P = ?P, OF _ assms], intro allI impI, goal_cases)
  case (1 loop read prev s r s' ds)
  show ?case
  proof (cases "rs_stack s")
    case Nil
    then show ?thesis using 1(2,3,5) by auto
  next
    case (Cons cursor stack)
    then obtain trail where t: "walk_back_into_history cursor read (rs_tails s) = Some (Ok trail)"
      "loop read prev (fold (absorb_block prev) (rev trail) (s\<lparr>rs_stack := stack\<rparr>)) = Some r"
      using 1(2,3) by (auto split: option.splits outcome.splits)
    from 1(1) [OF t(2)] search_inv_step [OF 1(4,5) Cons t(1)] 1(3,4) show ?thesis by blast
  qed
qed

section \<open>Moving the references\<close>

lemma can_reference_found:
  assumes "history_ok read" and "refs_ok read refs" and "can_reference start read refs = Some (Ok q)"
  shows "\<exists>ds s prev. q = CanRefYes (resulting_state_of s) \<and> search_inv read refs prev start ds s \<and> rs_stack s = []"
proof (cases "start = []")
  case True
  then have "q = CanRefYes (resulting_state_of (start_search [] refs))"
    using assms(3) by (simp add: can_reference_def resulting_state_of_def start_search_def)
  then show ?thesis using search_inv_start [OF assms(2)] True
    by (intro exI [of _ "[]"] exI [of _ "start_search [] refs"]) (auto simp: start_search_def)
next
  case False
  with assms(3) obtain s where s: "reference_loop read (map (\<lambda>(_, e). rb_block_identifier e) refs) (start_search start refs) = Some (Ok s)"
    "q = CanRefYes (resulting_state_of s)"
    by (auto simp: can_reference_def)
  from reference_loop_inv [OF s(1)] assms(1) search_inv_start [OF assms(2)] s(2) show ?thesis by blast
qed

lemma search_result:
  assumes "search_inv read refs prev start ds s"
  defines "all_refs \<equiv> explicitly_referenced_blocks (resulting_state_of s) @ implicitly_referenced_blocks (resulting_state_of s)"
  shows "distinct all_refs" and "set all_refs = cr_block_identifier ` set ds"
proof -
  have s: "rs_all_referenced s = map (\<lambda>d. reference_to d) ds" "distinct (map cr_block_identifier ds)"
    "set (rs_explicitly_referenced s) = cr_block_identifier ` set ds - set prev" "distinct (rs_explicitly_referenced s)"
    using assms(1) by (simp_all add: search_inv_def)
  have i: "implicitly_referenced_blocks (resulting_state_of s) =
      filter (\<lambda>b. b \<notin> set (rs_explicitly_referenced s)) (map cr_block_identifier ds)"
    by (simp add: resulting_state_of_def s(1) filter_map comp_def)
  show "distinct all_refs"
    using s(2,4) unfolding all_refs_def i by (auto simp: resulting_state_of_def)
  show "set all_refs = cr_block_identifier ` set ds"
    using s(3) unfolding all_refs_def i by (auto simp: resulting_state_of_def)
qed

lemma read_all_Ok: "read_all read bs = Ok ds \<longleftrightarrow> map read bs = map Ok ds"
  by (induction bs arbitrary: ds) (auto simp: Cons_eq_map_conv)

lemma phantoms_get:
  "(hm_get (fold (\<lambda>t refs. hm_insert t v refs) ts refs) t = (if t \<in> set ts then Some v else hm_get refs t))"
  by (induction ts arbitrary: refs) (auto simp: hm.get_ins)

lemma add_phantoms_get:
  "if \<exists>d \<in> set ds. t \<in> set (spawned_threads d)
   then \<exists>d \<in> set ds. t \<in> set (spawned_threads d) \<and> hm_get (fold add_phantoms ds refs) t = Some (reference_to d)
   else hm_get (fold add_phantoms ds refs) t = hm_get refs t"
proof (induction ds arbitrary: refs)
  case (Cons d ds)
  have "hm_get (add_phantoms d refs) t = (if t \<in> set (spawned_threads d) then Some (reference_to d) else hm_get refs t)"
    unfolding add_phantoms_def by (rule phantoms_get)
  then show ?case using Cons.IH [of "add_phantoms d refs"] by (auto split: if_splits)
qed simp

lemma keep_tail_get:
  "hm_get (keep_tail e m) t =
     (if t = fst e then Some (case hm_get m t of None \<Rightarrow> e | Some old \<Rightarrow> if snd (snd e) > snd (snd old) then e else old)
      else hm_get m t)"
  "hm_wf m \<Longrightarrow> hm_wf (keep_tail e m)"
  by (cases e; simp add: keep_tail_def hm_get_modify_or_insert hm_wf_modify_or_insert split: option.splits)+

lemma keep_tails_get:
  "hm_wf (fold keep_tail (map as_reference_state_data ds) []) \<and>
   (\<forall>t. if \<exists>d \<in> set ds. cr_block_thread_identifier d = t
        then \<exists>d. newest_in ds t d \<and> hm_get (fold keep_tail (map as_reference_state_data ds) []) t = Some (as_reference_state_data d)
        else hm_get (fold keep_tail (map as_reference_state_data ds) []) t = None)"
proof (induction ds rule: rev_induct)
  case (snoc d ds)
  let ?m = "fold keep_tail (map as_reference_state_data ds) []"
  have step: "fold keep_tail (map as_reference_state_data (ds @ [d])) [] = keep_tail (as_reference_state_data d) ?m" by simp
  have dd: "fst (as_reference_state_data d) = cr_block_thread_identifier d" "snd (snd (as_reference_state_data d)) = cr_block_seq_no d" for d
    by (simp_all add: as_reference_state_data_def)
  have "if \<exists>e \<in> set (ds @ [d]). cr_block_thread_identifier e = t
        then \<exists>e. newest_in (ds @ [d]) t e \<and> hm_get (keep_tail (as_reference_state_data d) ?m) t = Some (as_reference_state_data e)
        else hm_get (keep_tail (as_reference_state_data d) ?m) t = None" for t
  proof (cases "cr_block_thread_identifier d = t")
    case d: True
    show ?thesis
    proof (cases "\<exists>e \<in> set ds. cr_block_thread_identifier e = t")
      case True
      with snoc.IH obtain e where e: "newest_in ds t e" "hm_get ?m t = Some (as_reference_state_data e)" by metis
      show ?thesis
      proof (cases "cr_block_seq_no d > cr_block_seq_no e")
        case True
        then have "newest_in (ds @ [d]) t d" using e(1) d by (auto simp: newest_in_def)
        then show ?thesis using e(2) d True by (auto simp: keep_tail_get dd)
      next
        case False
        then have "newest_in (ds @ [d]) t e" using e(1) d by (auto simp: newest_in_def)
        then show ?thesis using e(2) d False by (auto simp: keep_tail_get dd)
      qed
    next
      case False
      then have "hm_get ?m t = None" "newest_in (ds @ [d]) t d" using snoc.IH d by (metis, auto simp: newest_in_def)
      then show ?thesis using d by (auto simp: keep_tail_get dd)
    qed
  next
    case False
    then have "hm_get (keep_tail (as_reference_state_data d) ?m) t = hm_get ?m t" by (simp add: keep_tail_get dd)
    moreover have "newest_in (ds @ [d]) t e \<longleftrightarrow> newest_in ds t e" for e using False by (auto simp: newest_in_def)
    ultimately show ?thesis using snoc.IH False by (metis (no_types, lifting) UnE list.set(1) list.set(2) set_append singletonD UnI1)
  qed
  then show ?case unfolding step using snoc.IH keep_tail_get(2) by blast
qed (simp add: newest_in_def)

lemma extend_refs_get:
  assumes "hm_wf m" and "\<And>t e. hm_get m t = Some e \<Longrightarrow> fst e = t"
  shows "hm_get (extend_refs (map snd m) refs) t =
    (case hm_get m t of Some e \<Rightarrow> Some (referenced_block_from e) | None \<Rightarrow> hm_get refs t)"
  using assms
proof (induction m arbitrary: refs)
  case (Cons p m)
  obtain k e where p: "p = (k, e)" by (cases p)
  have k: "fst e = k" using Cons.prems(2) [of k e] p by (simp add: hm_get_def)
  have m: "hm_wf m" "k \<notin> fst ` set m" using Cons.prems(1) p by (simp_all add: hm_wf_def)
  have "hm_get m t = Some e' \<Longrightarrow> fst e' = t" for t e'
    using Cons.prems(2) [of t e'] p m(2) by (auto simp: hm_get_def dest: map_of_SomeD split: if_splits) (metis fst_conv image_eqI map_of_SomeD)
  note IH = Cons.IH [OF m(1) this, of "hm_insert k (referenced_block_from e) refs"]
  have "hm_get m k = None" using m(2) by (simp add: hm_get_def map_of_eq_None_iff)
  moreover have "hm_get (p # m) t = (if t = k then Some e else hm_get m t)" by (simp add: p hm_get_def)
  moreover have "extend_refs (map snd (p # m)) refs = extend_refs (map snd m) (hm_insert k (referenced_block_from e) refs)"
    using k by (simp add: extend_refs_def p)
  ultimately show ?case using IH by (simp add: hm.get_ins split: option.splits)
qed (simp add: extend_refs_def hm_get_def)

lemma extend_keep_tails:
  "advanced ds refs (extend_refs (keep_tails (map as_reference_state_data ds)) refs)"
proof -
  let ?m = "fold keep_tail (map as_reference_state_data ds) []"
  have m: "hm_wf ?m" "\<And>t. if \<exists>d \<in> set ds. cr_block_thread_identifier d = t
        then \<exists>d. newest_in ds t d \<and> hm_get ?m t = Some (as_reference_state_data d) else hm_get ?m t = None"
    using keep_tails_get [of ds] by blast+
  have "fst e = t" if "hm_get ?m t = Some e" for t e
    using m(2) [of t] that by (auto simp: newest_in_def as_reference_state_data_def split: if_splits)
  then have get: "hm_get (extend_refs (map snd ?m) refs) t =
      (case hm_get ?m t of Some e \<Rightarrow> Some (referenced_block_from e) | None \<Rightarrow> hm_get refs t)" for t
    by (rule extend_refs_get [OF m(1)])
  show ?thesis
    unfolding advanced_def keep_tails_def
  proof
    fix t
    show "if \<exists>d \<in> set ds. cr_block_thread_identifier d = t
        then \<exists>d. newest_in ds t d \<and> hm_get (extend_refs (map snd ?m) refs) t = Some (reference_to d)
        else hm_get (extend_refs (map snd ?m) refs) t = hm_get refs t"
      using m(2) [of t] get [of t] by (auto split: if_splits)
  qed
qed

lemma search_reread:
  assumes "search_inv read refs prev start es s"
    and "map read (explicitly_referenced_blocks (resulting_state_of s) @ implicitly_referenced_blocks (resulting_state_of s)) = map Ok ds"
  shows "distinct (map cr_block_identifier ds)" and "set ds = set es"
proof -
  define all_refs where "all_refs = explicitly_referenced_blocks (resulting_state_of s) @ implicitly_referenced_blocks (resulting_state_of s)"
  have all: "distinct all_refs" "set all_refs = cr_block_identifier ` set es" "map read all_refs = map Ok ds"
    using search_result [OF assms(1)] assms(2) by (simp_all add: all_refs_def del: map_append)
  have found: "\<forall>e \<in> set es. read (cr_block_identifier e) = Ok e" using assms(1) by (simp add: search_inv_def found_blocks_def)
  have "Ok ` set ds = read ` set all_refs" using arg_cong [OF all(3), of set] by simp
  also have "\<dots> = Ok ` set es" unfolding all(2) using found by (force simp: image_image)
  finally show eq: "set ds = set es" by (auto simp: image_iff)
  have "map (\<lambda>r. case r of Ok d \<Rightarrow> cr_block_identifier d | _ \<Rightarrow> []) (map read all_refs) = map id all_refs"
    unfolding map_map using all(2) found by (intro map_cong) auto
  then have "map cr_block_identifier ds = all_refs" unfolding all(3) by (simp add: comp_def)
  then show "distinct (map cr_block_identifier ds)" using all(1) by simp
qed

lemma phantoms_advance:
  assumes "history_ok read" and "refs_ok read refs" and "found_blocks read refs tails es" and "advanced es refs tails"
    and "refs_ok read tails" and "set ds = set es"
  defines "refs' \<equiv> extend_refs (keep_tails (map as_reference_state_data ds)) (fold add_phantoms ds refs)"
  shows "covers tails d \<Longrightarrow> covers refs' d" and "refs_ok read refs'"
proof -
  have new: "\<forall>d \<in> set es. \<not> covers refs d" using assms(3) by (simp add: found_blocks_def)
  have spawned_new: "hm_get refs t = None" if "d \<in> set es" "t \<in> set (spawned_threads d)" for d t
    using that new assms(2,3) unfolding refs_ok_def found_blocks_def by blast
  have adv: "advanced ds (fold add_phantoms ds refs) refs'" unfolding refs'_def by (rule extend_keep_tails)
  show up: "covers refs' d" if d: "covers tails d" for d
  proof (cases "\<exists>e \<in> set es. cr_block_thread_identifier e = cr_block_thread_identifier d")
    case True
    obtain e where e: "newest_in es (cr_block_thread_identifier d) e" "hm_get tails (cr_block_thread_identifier d) = Some (reference_to e)"
      using True assms(4) unfolding advanced_def by metis
    obtain e' where e': "newest_in ds (cr_block_thread_identifier d) e'" "hm_get refs' (cr_block_thread_identifier d) = Some (reference_to e')"
      using True adv assms(6) unfolding advanced_def by metis
    have "cr_block_seq_no e \<le> cr_block_seq_no e'" using e(1) e'(1) assms(6) by (auto simp: newest_in_def)
    then show ?thesis using d e(2) e'(2) by (auto simp: covers_iff)
  next
    case False
    then have "hm_get tails (cr_block_thread_identifier d) = hm_get refs (cr_block_thread_identifier d)"
      "hm_get refs' (cr_block_thread_identifier d) = hm_get (fold add_phantoms ds refs) (cr_block_thread_identifier d)"
      using assms(4,6) adv unfolding advanced_def by metis+
    then show ?thesis
      using d spawned_new add_phantoms_get [of ds "cr_block_thread_identifier d" refs] assms(6)
      by (auto simp: covers_iff split: if_splits)
  qed
  have "covers refs' b" if t: "hm_get refs' t \<noteq> None" "read i = Ok b" "t \<in> set (spawned_threads b)" for t i b
  proof (cases "hm_get tails t = None")
    case False
    then show ?thesis using assms(5) t(2,3) up unfolding refs_ok_def by blast
  next
    case True
    then have "\<not> (\<exists>e \<in> set es. cr_block_thread_identifier e = t)" "hm_get refs t = None"
      using assms(4) unfolding advanced_def by (metis option.distinct(1))+
    then obtain p where p: "p \<in> set es" "t \<in> set (spawned_threads p)"
      using t(1) adv assms(6) add_phantoms_get [of ds t refs] unfolding advanced_def by metis
    then have "b = p" using spawner_unique [OF assms(1) _ p(2) t(2,3)] assms(3) by (simp add: found_blocks_def)
    then show ?thesis using p(1) advanced_covers(1) [OF assms(4) new] up by blast
  qed
  then show "refs_ok read refs'" using assms(5) up unfolding refs_ok_def by blast
qed


section \<open>The search ends\<close>

lemma walk_back_returns:
  assumes "history_ok read" and "refs_ok read cutoff" and "read i = Ok d"
  shows "\<exists>r. walk_back read cutoff trail d = Some r"
  using assms(3)
proof (induction "unat (cr_block_seq_no d)" arbitrary: d i trail rule: less_induct)
  case less
  show ?case
  proof (cases "\<exists>p. \<not> covers cutoff d \<and> read (cr_parent_block_identifier d) = Ok p")
    case True
    then obtain p where p: "\<not> covers cutoff d" "read (cr_parent_block_identifier d) = Ok p" by blast
    have "cr_parent_block_identifier d \<noteq> i" using assms(2) p(1) less.prems unfolding refs_ok_def by blast
    then have "cr_block_seq_no p < cr_block_seq_no d" using assms(1) less.prems p(2) unfolding history_ok_def by blast
    then show ?thesis using less.hyps [OF _ p(2)] p by (subst walk_back.simps) (simp add: word_less_nat_alt)
  next
    case False
    then show ?thesis by (subst walk_back.simps) (auto split: outcome.splits)
  qed
qed

lemma walk_back_into_history_returns:
  "history_ok read \<Longrightarrow> refs_ok read cutoff \<Longrightarrow> \<exists>r. walk_back_into_history cursor read cutoff = Some r"
  using walk_back_returns by (cases "read cursor") (auto simp: walk_back_into_history_def)

definition uncovered :: "ref_reader \<Rightarrow> thread_refs \<Rightarrow> block_identifier set" where
  "uncovered read refs = {i. \<exists>d. read i = Ok d \<and> \<not> covers refs d}"

lemma uncovered_absorb:
  assumes "history_ok read" and "refs_ok read (rs_tails s)" and "walk_back_into_history cursor read (rs_tails s) = Some (Ok trail)"
    and "trail \<noteq> []"
  shows "uncovered read (rs_tails (fold (absorb_block prev) (rev trail) (s\<lparr>rs_stack := stack\<rparr>))) \<subset> uncovered read (rs_tails s)"
proof -
  let ?t = "rs_tails (fold (absorb_block prev) (rev trail) (s\<lparr>rs_stack := stack\<rparr>))"
  obtain d where "new_blocks read (rs_tails s) trail"
    and sorted: "sorted_wrt (\<lambda>x y. cr_block_seq_no x < cr_block_seq_no y) (rev trail)"
    using trail_facts [OF assms(1-3)] by blast
  then have u: "\<forall>e \<in> set (rev trail). read (cr_block_identifier e) = Ok e \<and> \<not> covers (rs_tails s) e" by (simp add: new_blocks_def)
  then have "advanced (rev trail) (rs_tails s) ?t"
    using absorb_blocks [OF sorted, of "s\<lparr>rs_stack := stack\<rparr>" prev] by simp
  note c = advanced_covers [OF this]
  have "uncovered read ?t \<subseteq> uncovered read (rs_tails s)" using c(2) u unfolding uncovered_def by blast
  moreover have "cr_block_identifier (hd trail) \<in> uncovered read (rs_tails s) - uncovered read ?t"
    using u assms(4) c(1) unfolding uncovered_def by fastforce
  ultimately show ?thesis by blast
qed

lemma reference_loop_returns:
  assumes "history_ok read" and "finite {i. \<exists>d. read i = Ok d}" and "search_inv read refs prev start ds s"
  shows "\<exists>r. reference_loop read prev s = Some r"
proof -
  have fin: "finite (uncovered read t)" for t using assms(2) by (rule rev_finite_subset) (auto simp: uncovered_def)
  let ?m = "measures [\<lambda>s. card (uncovered read (rs_tails s)), \<lambda>s. length (rs_stack s)]"
  have "wf ?m" by simp
  then show ?thesis using assms(3)
  proof (induction s arbitrary: ds)
    case (less s)
    have ok: "refs_ok read (rs_tails s)" using less.prems by (simp add: search_inv_def)
    show ?case
    proof (cases "rs_stack s")
      case Nil
      then show ?thesis by (subst reference_loop.simps) simp
    next
      case (Cons cursor stack)
      obtain r where r: "walk_back_into_history cursor read (rs_tails s) = Some r"
        using walk_back_into_history_returns [OF assms(1) ok] by blast
      show ?thesis
      proof (cases r)
        case (Ok trail)
        let ?s = "fold (absorb_block prev) (rev trail) (s\<lparr>rs_stack := stack\<rparr>)"
        have "(?s, s) \<in> ?m"
        proof (cases "trail = []")
          case True
          then show ?thesis using Cons by simp
        next
          case False
          then show ?thesis
            using psubset_card_mono [OF fin uncovered_absorb [OF assms(1) ok r [unfolded Ok] False]] by simp
        qed
        from less.IH [OF this search_inv_step [OF assms(1) less.prems Cons r [unfolded Ok]]] show ?thesis
          by (subst reference_loop.simps) (simp add: Cons r Ok)
      qed (subst reference_loop.simps, simp add: Cons r)+
    qed
  qed
qed

text \<open>
  C20: moving references returns, with the new references or with an error, on every sound state and
  every finite repository; no chain of blocks or of references makes it run for ever.
\<close>

theorem move_refs_returns:
  assumes "history_ok read" and "refs_ok read refs" and "finite {i. \<exists>d. read i = Ok d}"
  shows "\<exists>r. move_refs start read refs = Some r"
  using reference_loop_returns [OF assms(1,3) search_inv_start [OF assms(2)]]
  by (fastforce simp: move_refs_def can_reference_def)

section \<open>An example\<close>

text \<open>
  The root spawned a thread, in which two blocks follow; a block of the main thread references the
  second one. Short ids keep the example small.
\<close>

definition main_thread :: thread_identifier where
  "main_thread = thread_identifier_new [8] 0"

definition side_thread :: thread_identifier where
  "side_thread = thread_identifier_new [9] 1"

definition example_block :: "block_identifier \<Rightarrow> block_seq_no \<Rightarrow> thread_identifier \<Rightarrow> block_identifier \<Rightarrow> cross_thread_ref_data" where
  "example_block b n t p =
     \<lparr>cr_block_identifier = b, cr_block_seq_no = n, cr_block_thread_identifier = t,
      cr_threads_table = map (Pair (bitmask_default routing_default)) [side_thread, main_thread],
      cr_parent_block_identifier = p, cr_block_refs = []\<rparr>"

definition example_blocks :: "(block_identifier, cross_thread_ref_data) hmap" where
  "example_blocks =
     [([9], example_block [9] 0 main_thread [9]), ([1], example_block [1] 1 side_thread [9]),
      ([2], example_block [2] 2 side_thread [1])]"

definition example_read :: ref_reader where
  "example_read b = (case hm_get example_blocks b of Some d \<Rightarrow> Ok d | None \<Rightarrow> Bail ''cross thread ref data was not set'')"

definition example_refs :: thread_refs where
  "example_refs = refs_update main_thread (main_thread, [9], 0) []"

lemma example_read_Ok: "example_read i = Ok d \<longleftrightarrow> hm_get example_blocks i = Some d"
  by (simp add: example_read_def split: option.splits)

lemma example_history_ok: "history_ok example_read"
proof -
  have "list_all (\<lambda>(i, d). cr_block_identifier d = i \<and>
      (case hm_get example_blocks (cr_parent_block_identifier d) of
         None \<Rightarrow> True
       | Some p \<Rightarrow> (cr_parent_block_identifier d = i \<or> cr_block_seq_no p < cr_block_seq_no d) \<and>
           (cr_block_thread_identifier p = cr_block_thread_identifier d \<or>
              cr_block_thread_identifier d \<in> set (spawned_threads p)))) example_blocks"
    by code_simp
  then show ?thesis
    unfolding history_ok_def example_read_Ok by (fastforce simp: list_all_iff dest: hm_get_SomeD)
qed

lemma example_refs_ok: "refs_ok example_read example_refs"
proof -
  have "list_all (\<lambda>(i, d). (cr_parent_block_identifier d \<noteq> i \<or> covers example_refs d) \<and>
      list_all (\<lambda>t. hm_get example_refs t = None \<or> covers example_refs d) (spawned_threads d)) example_blocks"
    by code_simp
  then have "\<forall>(i, d) \<in> set example_blocks. (cr_parent_block_identifier d = i \<longrightarrow> covers example_refs d) \<and>
      (\<forall>t \<in> set (spawned_threads d). hm_get example_refs t \<noteq> None \<longrightarrow> covers example_refs d)"
    by (auto simp: list_all_iff)
  then show ?thesis unfolding refs_ok_def example_read_Ok by (blast dest: hm_get_SomeD)
qed

definition example_trail :: "cross_thread_ref_data list" where
  "example_trail = [example_block [2] 2 side_thread [1], example_block [1] 1 side_thread [9]]"

lemma example_walk: "walk_back_into_history [2] example_read example_refs = Some (Ok example_trail)"
proof -
  have "example_read [2] = Ok (example_block [2] 2 side_thread [1])" "\<not> covers example_refs (example_block [2] 2 side_thread [1])"
    "example_read [1] = Ok (example_block [1] 1 side_thread [9])" "\<not> covers example_refs (example_block [1] 1 side_thread [9])"
    "example_read [9] = Ok (example_block [9] 0 main_thread [9])" "covers example_refs (example_block [9] 0 main_thread [9])"
    "\<not> wrong_state_refs example_refs (example_block [9] 0 main_thread [9])"
    by code_simp+
  moreover have "cr_parent_block_identifier (example_block b n t p) = p" for b n t p by (simp add: example_block_def)
  ultimately show ?thesis
    by (simp add: walk_back_into_history_def example_trail_def walk_back.simps [of _ _ "[]"]
        walk_back.simps [of _ _ "[_]"] walk_back.simps [of _ _ "[_, _]"])
qed

definition example_found :: ref_search where
  "example_found = fold (absorb_block [[9]]) (rev example_trail) (start_search [[2]] example_refs\<lparr>rs_stack := []\<rparr>)"

definition example_moved :: "cross_thread_ref_data list \<times> thread_refs" where
  "example_moved =
     (case apply_refs example_read example_refs
        (explicitly_referenced_blocks (resulting_state_of example_found) @
         implicitly_referenced_blocks (resulting_state_of example_found)) of Ok r \<Rightarrow> r | _ \<Rightarrow> ([], []))"


theorem move_refs_returns_witness: "\<exists>r. move_refs [[2], [3]] example_read example_refs = Some r"
proof -
  have "{i. \<exists>d. example_read i = Ok d} \<subseteq> fst ` set example_blocks"
    by (auto simp: example_read_Ok image_iff dest: hm_get_SomeD) (metis fst_conv hm_get_SomeD)
  then have "finite {i. \<exists>d. example_read i = Ok d}" by (rule finite_subset) simp
  from move_refs_returns [OF example_history_ok example_refs_ok this] show ?thesis .
qed

text \<open>A block of another fork is refused only at the height of the reference; below it, it passes unnoticed.\<close>

lemma lower_fork_is_accepted:
  assumes "hm_get refs (cr_block_thread_identifier d) = Some e" and "cr_block_seq_no d < rb_block_seq_no e" and "read i = Ok d"
  shows "walk_back_into_history i read refs = Some (Ok [])"
  using assms by (auto simp: walk_back_into_history_def walk_back.simps [of _ _ "[]"] reaches_cutoff_def wrong_state_refs_def)

end
