(* ===== verification/Load_Balancing.thy ===== *)
theory Load_Balancing
  imports Threads_Table
begin

text \<open>
  The load balancer (src/node/src/multithreading/load_balancing_service/): a sliding window of the
  load of every thread, the choice of the bit to split an overloaded thread at, and the proposal of
  a new threads table. It is told about started and stopped threads by the tracking of threads
  (src/node/src/multithreading/threads_tracking_service/mod.rs).

  The build features allow-dappid-thread-split and allow-threads-merge are arguments; the default build
  has neither, and a build with allow-threads-merge is refused by \<open>compile_error\<close> in
  thread_references_state.rs for now. The subscribers of the tracking service are arguments too. The messages a block has imported, as the TVM library reads them from the block, are an argument of the
  operations. A \<open>u32\<close>, \<open>i64\<close> or \<open>usize\<close> counter is a number with its range checked at every
  operation, since overflow panics.
\<close>

section \<open>Load of the accounts of a thread\<close>

record in_thread_accounts_load =
  il_total_transactions_count :: int
  il_zero_bits_count :: "nat list list"

definition accounts_load_default :: in_thread_accounts_load where
  "accounts_load_default = \<lparr>il_total_transactions_count = 0, il_zero_bits_count = replicate 2 (replicate 256 0)\<rparr>"

definition i64_checked :: "string \<Rightarrow> int \<Rightarrow> int outcome" where
  "i64_checked e n = (if - (2 ^ 63) \<le> n \<and> n < 2 ^ 63 then Ok n else Panic e)"

definition add_counts :: "nat list list \<Rightarrow> nat list list \<Rightarrow> nat list list outcome" where
  "add_counts xs ys =
     (if list_all2 (list_all2 (\<lambda>x y. x + y < 2 ^ 32)) xs ys then Ok (map2 (map2 (+)) xs ys)
      else Panic ''attempt to add with overflow'')"

definition sub_counts :: "nat list list \<Rightarrow> nat list list \<Rightarrow> nat list list outcome" where
  "sub_counts xs ys =
     (if list_all2 (list_all2 (\<lambda>x y. y \<le> x)) xs ys then Ok (map2 (map2 (-)) xs ys)
      else Panic ''attempt to subtract with overflow'')"

definition add_in_place :: "in_thread_accounts_load \<Rightarrow> in_thread_accounts_load \<Rightarrow> in_thread_accounts_load outcome" where
  "add_in_place l other =
     obind (add_counts (il_zero_bits_count l) (il_zero_bits_count other)) (\<lambda>zs.
     obind (i64_checked ''attempt to add with overflow'' (il_total_transactions_count l + il_total_transactions_count other)) (\<lambda>n.
     Ok \<lparr>il_total_transactions_count = n, il_zero_bits_count = zs\<rparr>))"

definition sub_in_place :: "in_thread_accounts_load \<Rightarrow> in_thread_accounts_load \<Rightarrow> in_thread_accounts_load outcome" where
  "sub_in_place l other =
     obind (sub_counts (il_zero_bits_count l) (il_zero_bits_count other)) (\<lambda>zs.
     obind (i64_checked ''attempt to subtract with overflow'' (il_total_transactions_count l - il_total_transactions_count other)) (\<lambda>n.
     Ok \<lparr>il_total_transactions_count = n, il_zero_bits_count = zs\<rparr>))"

text \<open>An imported message: its internal destination, when it is readable and has one, and the source's dapp id.\<close>

record in_msg =
  im_int_dst_account_id :: "bytes option"
  im_src_dapp_id :: "bytes option"

definition message_route :: "(bytes, bytes option) hmap \<Rightarrow> in_msg \<Rightarrow> account_routing option" where
  "message_route dapps m =
     (case im_int_dst_account_id m of
        None \<Rightarrow> None
      | Some destination \<Rightarrow>
          (case (case hm_get dapps destination of Some (Some d) \<Rightarrow> Some d | _ \<Rightarrow> im_src_dapp_id m) of
             None \<Rightarrow> None
           | Some dapp_id \<Rightarrow> Some (account_routing_from (Some dapp_id) destination)))"

definition count_message :: "account_routing \<Rightarrow> in_thread_accounts_load \<Rightarrow> in_thread_accounts_load outcome" where
  "count_message r l =
     add_in_place l \<lparr>il_total_transactions_count = 1,
       il_zero_bits_count = map (map (\<lambda>b. if b then 0 else 1)) (routing_bits r)\<rparr>"

fun accounts_append_from ::
    "(bytes, bytes option) hmap \<Rightarrow> in_msg list \<Rightarrow> in_thread_accounts_load \<Rightarrow> in_thread_accounts_load outcome" where
  "accounts_append_from dapps [] l = Ok l"
| "accounts_append_from dapps (m # ms) l =
     (case message_route dapps m of
        None \<Rightarrow> accounts_append_from dapps ms l
      | Some r \<Rightarrow> obind (count_message r l) (accounts_append_from dapps ms))"

definition accounts_new_from :: "(bytes, bytes option) hmap \<Rightarrow> in_msg list \<Rightarrow> in_thread_accounts_load outcome" where
  "accounts_new_from dapps ms = accounts_append_from dapps ms accounts_load_default"

record build_features =
  allow_dappid_thread_split :: bool
  allow_threads_merge :: bool

definition max_route_part_split :: "build_features \<Rightarrow> nat" where
  "max_route_part_split ft = (if allow_dappid_thread_split ft then 2 else 1)"

definition consider_bit ::
    "bool list list \<Rightarrow> in_thread_accounts_load \<Rightarrow> nat \<times> nat \<Rightarrow> (nat \<times> int) option \<Rightarrow> (nat \<times> int) option" where
  "consider_bit meaningful l p best =
     (case p of (outer, inner) \<Rightarrow>
        (let zero_bits_count_at_this = int (il_zero_bits_count l ! outer ! inner);
             one_bits_count_at_this = il_total_transactions_count l - zero_bits_count_at_this;
             distance = \<bar>one_bits_count_at_this - zero_bits_count_at_this\<bar> in
         if zero_bits_count_at_this = 0 \<or> one_bits_count_at_this = 0 then best
         else if meaningful ! outer ! inner then best
         else if (case best of None \<Rightarrow> True | Some (_, best_distance) \<Rightarrow> best_distance > distance)
         then Some (outer * 256 + inner, distance) else best))"

definition best_split_index :: "build_features \<Rightarrow> bool list list \<Rightarrow> in_thread_accounts_load \<Rightarrow> nat option" where
  "best_split_index ft meaningful l =
     map_option fst
       (fold (consider_bit meaningful l) (List.product [0..<max_route_part_split ft] [0..<256]) None)"

definition best_split :: "build_features \<Rightarrow> account_routing bitmask \<Rightarrow> in_thread_accounts_load \<Rightarrow> account_routing bitmask option outcome" where
  "best_split ft current_bitmask l =
     (case best_split_index ft (routing_bits (meaningful_mask_bits current_bitmask)) l of
        None \<Rightarrow> Ok None
      | Some split_at_index \<Rightarrow>
          obind (expect (routing_set_bit_value (meaningful_mask_bits current_bitmask) split_at_index True) ''set_bit_value'') (\<lambda>meaningful.
          obind (expect (routing_set_bit_value (mask_bits current_bitmask) split_at_index True) ''set_bit_value'') (\<lambda>bits.
          Ok (Some \<lparr>mask_bits = bits, meaningful_mask_bits = meaningful\<rparr>))))"

section \<open>Load of a thread\<close>

type_synonym load = nat

record aggregated_load =
  al_window :: "(load \<times> in_thread_accounts_load) list"
  al_cursor :: nat
  al_aggregated_value :: "load \<times> in_thread_accounts_load"
  al_is_filled :: bool
  al_window_size :: nat

definition aggregated_load_new :: "nat \<Rightarrow> aggregated_load" where
  "aggregated_load_new window_size =
     \<lparr>al_window = replicate window_size (0, accounts_load_default), al_cursor = 0,
      al_aggregated_value = (0, accounts_load_default), al_is_filled = False, al_window_size = window_size\<rparr>"

definition al_reset :: "aggregated_load \<Rightarrow> aggregated_load" where
  "al_reset l = l\<lparr>al_is_filled := False, al_cursor := 0\<rparr>"

definition load_value :: "aggregated_load \<Rightarrow> load" where
  "load_value l = fst (al_aggregated_value l)"

definition propose_new_bitmask :: "build_features \<Rightarrow> account_routing bitmask \<Rightarrow> aggregated_load \<Rightarrow> account_routing bitmask option outcome" where
  "propose_new_bitmask ft current_bitmask l = best_split ft current_bitmask (snd (al_aggregated_value l))"

definition usize_add :: "nat \<Rightarrow> nat \<Rightarrow> nat outcome" where
  "usize_add a b = (if a + b < 2 ^ 64 then Ok (a + b) else Panic ''attempt to add with overflow'')"

definition usize_mul :: "nat \<Rightarrow> nat \<Rightarrow> nat outcome" where
  "usize_mul a b = (if a * b < 2 ^ 64 then Ok (a * b) else Panic ''attempt to multiply with overflow'')"

definition load_sub :: "nat \<Rightarrow> nat \<Rightarrow> nat outcome" where
  "load_sub a b = (if b \<le> a then Ok (a - b) else Panic ''attempt to subtract with overflow'')"

definition replace_load ::
    "nat \<Rightarrow> load \<Rightarrow> in_thread_accounts_load outcome \<Rightarrow> load \<times> in_thread_accounts_load \<Rightarrow> aggregated_load \<Rightarrow> aggregated_load outcome" where
  "replace_load c queue_length accounts prev l =
     obind (usize_add (load_value l) queue_length) (\<lambda>v.
     obind (load_sub v (fst prev)) (\<lambda>v.
     obind accounts (\<lambda>a.
     obind (add_in_place (snd (al_aggregated_value l)) a) (\<lambda>s.
     obind (sub_in_place s (snd prev)) (\<lambda>s.
     Ok (l\<lparr>al_window := (al_window l)[c := (queue_length, a)], al_aggregated_value := (v, s)\<rparr>))))))"

definition advance :: "aggregated_load \<Rightarrow> aggregated_load" where
  "advance l = (if al_cursor l + 1 \<ge> al_window_size l then l\<lparr>al_is_filled := True, al_cursor := 0\<rparr>
     else l\<lparr>al_cursor := al_cursor l + 1\<rparr>)"

definition al_append_from :: "load \<Rightarrow> in_thread_accounts_load outcome \<Rightarrow> aggregated_load \<Rightarrow> aggregated_load outcome" where
  "al_append_from queue_length accounts l0 =
     (let l = advance l0 in
      if al_cursor l < length (al_window l)
      then replace_load (al_cursor l) queue_length accounts (al_window l ! al_cursor l) l
      else Panic ''index out of bounds'')"

section \<open>The service\<close>

definition max_load_disproportion :: load where
  "max_load_disproportion = 2"

datatype thread_action = ContinueAsIs | Split threads_table | Collapse threads_table
datatype check_error = StatsAreNotReady | ThreadIsNotInTheTable

record load_balancing_service =
  lb_thread_load_map :: "(thread_identifier, aggregated_load) hmap"
  lb_window_size :: nat
  lb_load_threshold :: load

definition lb_start :: "nat \<Rightarrow> nat \<Rightarrow> load_balancing_service" where
  "lb_start window_size load_threshold =
     \<lparr>lb_thread_load_map = [], lb_window_size = window_size, lb_load_threshold = load_threshold\<rparr>"

definition read_load :: "load_balancing_service \<Rightarrow> thread_identifier \<Rightarrow> check_error + load" where
  "read_load s t =
     (case hm_get (lb_thread_load_map s) t of
        None \<Rightarrow> Inl StatsAreNotReady
      | Some l \<Rightarrow> if al_is_filled l then Inr (load_value l) else Inl StatsAreNotReady)"

record table_scan =
  sc_min_load :: load
  sc_min_load_thread_id :: thread_identifier
  sc_max_load :: load
  sc_max_load_thread_id :: thread_identifier
  sc_last_thread_id :: "thread_identifier option"
  sc_pre_last_thread_id :: "thread_identifier option"
  sc_this_row :: "(nat \<times> account_routing bitmask) option"

definition scan_row ::
    "load_balancing_service \<Rightarrow> thread_identifier \<Rightarrow> nat \<times> account_routing bitmask \<times> thread_identifier \<Rightarrow> table_scan \<Rightarrow> table_scan" where
  "scan_row s this row sc =
     (case row of (i, bitmask, thread) \<Rightarrow>
        (case read_load s thread of
           Inl _ \<Rightarrow> sc
         | Inr thread_load \<Rightarrow>
             (let sc1 = (if thread_load > sc_max_load sc
                         then sc\<lparr>sc_max_load := thread_load, sc_max_load_thread_id := thread\<rparr> else sc);
                  sc2 = (if thread = this then sc1\<lparr>sc_this_row := Some (i, bitmask)\<rparr> else sc1);
                  sc3 = (if sc_min_load sc2 \<ge> thread_load
                         then sc2\<lparr>sc_min_load := thread_load, sc_min_load_thread_id := thread\<rparr> else sc2) in
              sc3\<lparr>sc_pre_last_thread_id := sc_last_thread_id sc3, sc_last_thread_id := Some thread\<rparr>)))"

definition scan_table :: "load_balancing_service \<Rightarrow> thread_identifier \<Rightarrow> load \<Rightarrow> threads_table \<Rightarrow> table_scan" where
  "scan_table s this current_load table =
     fold (scan_row s this) (List.enumerate 0 table)
       \<lparr>sc_min_load = current_load, sc_min_load_thread_id = this, sc_max_load = current_load,
        sc_max_load_thread_id = this, sc_last_thread_id = None, sc_pre_last_thread_id = None, sc_this_row = None\<rparr>"

definition try_threads_merge ::
    "build_features \<Rightarrow> thread_identifier \<Rightarrow> nat \<Rightarrow> thread_identifier \<Rightarrow> thread_identifier option \<Rightarrow> thread_identifier \<Rightarrow>
     threads_table \<Rightarrow> (check_error + thread_action) outcome" where
  "try_threads_merge ft this this_row thread_with_min_load pre_default_thread default_thread_id threads_table =
     (if \<not> allow_threads_merge ft then Ok (Inr ContinueAsIs)
      else if default_thread_id = this then Ok (Inr ContinueAsIs)
      else
        (case pre_default_thread of
           None \<Rightarrow> Ok (Inr ContinueAsIs)
         | Some pre_default \<Rightarrow>
             if thread_with_min_load = this \<or> thread_with_min_load = default_thread_id \<and> this = pre_default
             then (case table_remove this_row threads_table of
                     Ok (_, t) \<Rightarrow> Ok (Inr (Collapse t)) | Bail e \<Rightarrow> Panic e | Panic e \<Rightarrow> Panic e)
             else Ok (Inr ContinueAsIs)))"

definition split_at_mask ::
    "block_identifier \<Rightarrow> nat \<Rightarrow> threads_table \<Rightarrow> account_routing bitmask option \<Rightarrow> (check_error + thread_action) outcome" where
  "split_at_mask produced_block_id this_row threads_table proposed =
     (case proposed of
        None \<Rightarrow> Ok (Inr ContinueAsIs)
      | Some proposed_mask \<Rightarrow>
          if list_ex (\<lambda>(msk, _). msk = proposed_mask) threads_table then Ok (Inr ContinueAsIs)
          else
            (case insert_above this_row proposed_mask (thread_identifier_new produced_block_id 0) threads_table of
               Ok t \<Rightarrow> Ok (Inr (Split t))
             | Bail e \<Rightarrow> Panic e
             | Panic e \<Rightarrow> Panic e))"

definition loads_balanced :: "threads_table \<Rightarrow> nat \<Rightarrow> load \<Rightarrow> load \<Rightarrow> bool outcome" where
  "loads_balanced threads_table max_table_size max_load min_load =
     (if length threads_table \<ge> max_table_size
      then obind (usize_mul max_load_disproportion min_load) (\<lambda>n. Ok (max_load \<le> n))
      else Ok False)"

definition try_threads_split ::
    "build_features \<Rightarrow> block_identifier \<Rightarrow> thread_identifier \<Rightarrow> nat \<Rightarrow> aggregated_load \<Rightarrow> account_routing bitmask \<Rightarrow>
     load \<Rightarrow> load \<Rightarrow> thread_identifier \<Rightarrow> threads_table \<Rightarrow> nat \<Rightarrow> (check_error + thread_action) outcome" where
  "try_threads_split ft produced_block_id this this_row this_load this_bitmask max_load min_load
     thread_with_max_load threads_table max_table_size =
     (if thread_with_max_load \<noteq> this then Ok (Inr ContinueAsIs)
      else
        obind (loads_balanced threads_table max_table_size max_load min_load) (\<lambda>balanced.
        if balanced then Ok (Inr ContinueAsIs)
        else obind (propose_new_bitmask ft this_bitmask this_load)
               (split_at_mask produced_block_id this_row threads_table)))"

definition split_and_reset ::
    "build_features \<Rightarrow> block_identifier \<Rightarrow> thread_identifier \<Rightarrow> threads_table \<Rightarrow> nat \<Rightarrow> table_scan \<Rightarrow>
     nat \<times> account_routing bitmask \<Rightarrow> load_balancing_service \<Rightarrow>
     ((check_error + thread_action) \<times> load_balancing_service) outcome" where
  "split_and_reset ft block_id this threads_table max_table_size sc row s =
     (case hm_get (lb_thread_load_map s) this of
        None \<Rightarrow> Ok (Inl ThreadIsNotInTheTable, s)
      | Some this_load \<Rightarrow>
          obind (try_threads_split ft block_id this (fst row) this_load (snd row) (sc_max_load sc)
                   (sc_min_load sc) (sc_max_load_thread_id sc) threads_table max_table_size) (\<lambda>res.
          Ok (res, s\<lparr>lb_thread_load_map := hm_insert this (al_reset this_load) (lb_thread_load_map s)\<rparr>)))"

definition check_scanned ::
    "build_features \<Rightarrow> block_identifier \<Rightarrow> thread_identifier \<Rightarrow> threads_table \<Rightarrow> nat \<Rightarrow> table_scan \<Rightarrow>
     load_balancing_service \<Rightarrow> ((check_error + thread_action) \<times> load_balancing_service) outcome" where
  "check_scanned ft block_id this threads_table max_table_size sc s =
     (case sc_this_row sc of
        None \<Rightarrow> Ok (Inl ThreadIsNotInTheTable, s)
      | Some row \<Rightarrow>
          obind (expect (sc_last_thread_id sc) ''Threads table can not be empty'') (\<lambda>last_thread_id.
          if length threads_table > max_table_size then
            obind (try_threads_merge ft this (fst row) (sc_min_load_thread_id sc) (sc_pre_last_thread_id sc)
                     last_thread_id threads_table) (\<lambda>res. Ok (res, s))
          else if sc_max_load sc \<ge> lb_load_threshold s
          then split_and_reset ft block_id this threads_table max_table_size sc row s
          else Ok (Inr ContinueAsIs, s)))"

definition lb_check ::
    "build_features \<Rightarrow> block_identifier \<Rightarrow> thread_identifier \<Rightarrow> threads_table \<Rightarrow> nat \<Rightarrow> load_balancing_service \<Rightarrow>
     ((check_error + thread_action) \<times> load_balancing_service) outcome" where
  "lb_check ft block_id this threads_table max_table_size s =
     (if max_table_size = 0 then Panic ''Empty threads table is not allowed''
      else
        (case read_load s this of
           Inl e \<Rightarrow> Ok (Inl e, s)
         | Inr current_load \<Rightarrow>
             check_scanned ft block_id this threads_table max_table_size
               (scan_table s this current_load threads_table) s))"

definition modify_load :: "thread_identifier \<Rightarrow> (aggregated_load \<Rightarrow> aggregated_load) \<Rightarrow> load_balancing_service \<Rightarrow> load_balancing_service" where
  "modify_load t f s =
     (case hm_get (lb_thread_load_map s) t of
        Some l \<Rightarrow> s\<lparr>lb_thread_load_map := hm_insert t (f l) (lb_thread_load_map s)\<rparr> | None \<Rightarrow> s)"

text \<open>
  The finalized block comes with its id, its thread, the threads table it carries, if any, the length
  of the message queue after it and the load of the accounts it has touched.
\<close>

definition lb_handle_block_finalized ::
    "block_identifier \<Rightarrow> thread_identifier \<Rightarrow> threads_table option \<Rightarrow> load \<Rightarrow> in_thread_accounts_load outcome \<Rightarrow>
     load_balancing_service \<Rightarrow> load_balancing_service outcome" where
  "lb_handle_block_finalized block_id thread threads_table queue_length accounts s =
     (if (case threads_table of
            Some t \<Rightarrow> list_ex (\<lambda>(_, th). is_spawning_block th block_id) t \<and> hm_contains (lb_thread_load_map s) thread
          | None \<Rightarrow> False)
      then Ok (modify_load thread al_reset s)
      else
        (case hm_get (lb_thread_load_map s) thread of
           Some l \<Rightarrow>
             obind (al_append_from queue_length accounts l) (\<lambda>l.
             Ok (s\<lparr>lb_thread_load_map := hm_insert thread l (lb_thread_load_map s)\<rparr>))
         | None \<Rightarrow> Panic ''DEBUG: thread must be ready''))"

definition parent_of_new_thread :: "thread_identifier \<Rightarrow> threads_table \<Rightarrow> thread_identifier option" where
  "parent_of_new_thread t table =
     (case List.find (\<lambda>(_, _, th). th = t) (List.enumerate 0 table) of
        None \<Rightarrow> None
      | Some (i, _) \<Rightarrow> if i + 1 < length table then Some (snd (table ! (i + 1))) else None)"

definition lb_handle_start_thread ::
    "block_identifier \<Rightarrow> thread_identifier \<Rightarrow> threads_table option \<Rightarrow> load_balancing_service \<Rightarrow> load_balancing_service" where
  "lb_handle_start_thread parent_split_block t threads_table s =
     (let s1 = (case Option.bind threads_table (parent_of_new_thread t) of
                  Some parent \<Rightarrow> modify_load parent al_reset s | None \<Rightarrow> s) in
      s1\<lparr>lb_thread_load_map := hm_insert t (aggregated_load_new (lb_window_size s1)) (lb_thread_load_map s1)\<rparr>)"

definition lb_handle_stop_thread ::
    "block_identifier \<Rightarrow> thread_identifier \<Rightarrow> load_balancing_service \<Rightarrow> load_balancing_service" where
  "lb_handle_stop_thread last_thread_block t s = s\<lparr>lb_thread_load_map := hm_remove t (lb_thread_load_map s)\<rparr>"

section \<open>Tracking threads\<close>

text \<open>A subscriber of the state \<open>'s\<close>; a pair of subscribers is one.\<close>

record 's subscriber =
  handle_start_thread :: "block_identifier \<Rightarrow> thread_identifier \<Rightarrow> threads_table option \<Rightarrow> 's \<Rightarrow> 's"
  handle_stop_thread :: "block_identifier \<Rightarrow> thread_identifier \<Rightarrow> 's \<Rightarrow> 's"

definition tuple_subs :: "'a subscriber \<Rightarrow> 'b subscriber \<Rightarrow> ('a \<times> 'b) subscriber" where
  "tuple_subs x y =
     \<lparr>handle_start_thread = (\<lambda>b t tt (p, q). (handle_start_thread x b t tt p, handle_start_thread y b t tt q)),
      handle_stop_thread = (\<lambda>b t (p, q). (handle_stop_thread x b t p, handle_stop_thread y b t q))\<rparr>"

definition load_balancing_subscriber :: "load_balancing_service subscriber" where
  "load_balancing_subscriber =
     \<lparr>handle_start_thread = lb_handle_start_thread, handle_stop_thread = lb_handle_stop_thread\<rparr>"

definition tracking_init_thread :: "'s subscriber \<Rightarrow> block_identifier \<Rightarrow> thread_identifier list \<Rightarrow> 's \<Rightarrow> 's" where
  "tracking_init_thread sub block_id threads_set s =
     fold (\<lambda>t. handle_start_thread sub block_id t None) threads_set s"

definition tracking_handle_block_finalized ::
    "'s subscriber \<Rightarrow> block_identifier \<Rightarrow> thread_identifier \<Rightarrow> threads_table \<Rightarrow> 's \<Rightarrow> 's" where
  "tracking_handle_block_finalized sub block_id thread table s =
     (let this_table = map snd table;
          new_threads = filter (\<lambda>t. is_spawning_block t block_id) this_table;
          s1 = fold (\<lambda>t. handle_start_thread sub block_id t (Some table)) new_threads s in
      if \<not> List.member this_table thread then handle_stop_thread sub block_id thread s1 else s1)"

section \<open>The choice of the bit\<close>

text \<open>A bit that is free in the mask and that separates the counted messages; how unevenly it separates them.\<close>

definition usable_bit :: "bool list list \<Rightarrow> in_thread_accounts_load \<Rightarrow> nat \<times> nat \<Rightarrow> bool" where
  "usable_bit meaningful l p \<longleftrightarrow>
     \<not> meaningful ! fst p ! snd p \<and> il_zero_bits_count l ! fst p ! snd p \<noteq> 0 \<and>
     int (il_zero_bits_count l ! fst p ! snd p) \<noteq> il_total_transactions_count l"

definition bit_distance :: "in_thread_accounts_load \<Rightarrow> nat \<times> nat \<Rightarrow> int" where
  "bit_distance l p = \<bar>il_total_transactions_count l - 2 * int (il_zero_bits_count l ! fst p ! snd p)\<bar>"

definition best_of :: "bool list list \<Rightarrow> in_thread_accounts_load \<Rightarrow> (nat \<times> nat) set \<Rightarrow> (nat \<times> int) option \<Rightarrow> bool" where
  "best_of meaningful l S best =
     (case best of
        None \<Rightarrow> \<forall>p\<in>S. \<not> usable_bit meaningful l p
      | Some (k, d) \<Rightarrow> (\<exists>p\<in>S. usable_bit meaningful l p \<and> k = fst p * 256 + snd p \<and> d = bit_distance l p) \<and>
          (\<forall>p\<in>S. usable_bit meaningful l p \<longrightarrow> d \<le> bit_distance l p))"

lemma consider_bit_eq:
  "consider_bit meaningful l p best =
     (if usable_bit meaningful l p \<and> (\<forall>k d. best = Some (k, d) \<longrightarrow> bit_distance l p < d)
      then Some (fst p * 256 + snd p, bit_distance l p) else best)"
  by (cases p; cases best) (auto simp: consider_bit_def usable_bit_def bit_distance_def Let_def)

lemma best_of_consider_bit:
  assumes "best_of meaningful l S best"
  shows "best_of meaningful l (insert p S) (consider_bit meaningful l p best)"
proof (cases best)
  case None
  then show ?thesis using assms by (auto simp: consider_bit_eq best_of_def)
next
  case (Some kd)
  obtain k d where kd: "kd = (k, d)" by (cases kd)
  show ?thesis
    using assms unfolding Some kd
    by (fastforce simp: consider_bit_eq best_of_def)
qed

lemma best_of_fold:
  "best_of meaningful l S best \<Longrightarrow> best_of meaningful l (S \<union> set ps) (fold (consider_bit meaningful l) ps best)"
proof (induction ps arbitrary: S best)
  case (Cons p ps)
  from Cons.IH [OF best_of_consider_bit [OF Cons.prems, of p]] show ?case by simp
qed simp

definition split_positions :: "build_features \<Rightarrow> (nat \<times> nat) set" where
  "split_positions ft = {..<max_route_part_split ft} \<times> {..<256}"

lemma best_split_index_best:
  "\<exists>d. best_of meaningful l (split_positions ft) (map_option (\<lambda>k. (k, d)) (best_split_index ft meaningful l))"
proof -
  let ?r = "fold (consider_bit meaningful l) (List.product [0..<max_route_part_split ft] [0..<256]) None"
  have "best_of meaningful l (split_positions ft) ?r"
    using best_of_fold [of meaningful l "{}" None "List.product [0..<max_route_part_split ft] [0..<256]"]
    by (simp add: best_of_def split_positions_def atLeast0LessThan)
  moreover have "map_option (\<lambda>k. (k, snd (the ?r))) (best_split_index ft meaningful l) = ?r"
    by (cases ?r) (auto simp: best_split_index_def)
  ultimately show ?thesis by metis
qed

lemma split_positions_bounds: "p \<in> split_positions ft \<Longrightarrow> fst p < 2 \<and> snd p < 256"
  by (auto simp: split_positions_def max_route_part_split_def split: if_splits)

section \<open>A proposed mask refines the mask of the thread\<close>

lemma routing_set_bit_value_True:
  assumes "routing_ok r" and "k < 512"
  obtains r' where "routing_set_bit_value r k True = Some r'" and "routing_ok r'"
    and "\<And>j. j < 512 \<Longrightarrow> the (routing_get_bit_value r' j) = (j = k \<or> the (routing_get_bit_value r j))"
proof (cases "k < 256")
  case True
  obtain b where b: "set_bit_value (dapp r) k True = Some b" "length b = 32"
    "\<forall>j. get_bit_value b j = (if j = k then Some True else get_bit_value (dapp r) j)"
    using set_bit_value_get_bit_value [of "dapp r" k] assms True by (auto simp: routing_ok_def)
  show ?thesis
    by (rule that [of "AccountRouting b (address r)"])
      (use True assms b in \<open>auto simp: routing_set_bit_value_def routing_ok_def routing_get_bit_value_def\<close>)
next
  case False
  with assms have k: "k - 256 < 256" by linarith
  obtain b where b: "set_bit_value (address r) (k - 256) True = Some b" "length b = 32"
    "\<forall>j. get_bit_value b j = (if j = k - 256 then Some True else get_bit_value (address r) j)"
    using set_bit_value_get_bit_value [of "address r" "k - 256"] assms k by (auto simp: routing_ok_def)
  show ?thesis
    by (rule that [of "AccountRouting (dapp r) b"])
      (use False assms b in \<open>auto simp: routing_set_bit_value_def routing_ok_def routing_get_bit_value_def\<close>)
qed

definition mask_ok :: "account_routing bitmask \<Rightarrow> bool" where
  "mask_ok m \<longleftrightarrow> routing_ok (mask_bits m) \<and> routing_ok (meaningful_mask_bits m)"

text \<open>The mask \<open>m'\<close> takes the accounts of \<open>m\<close> whose bit \<open>p\<close> is set.\<close>

definition refines_at :: "nat \<times> nat \<Rightarrow> account_routing bitmask \<Rightarrow> account_routing bitmask \<Rightarrow> bool" where
  "refines_at p m m' \<longleftrightarrow>
     (\<forall>a. mask_is_match routing_bitand m' a \<longleftrightarrow> mask_is_match routing_bitand m a \<and> routing_bits a ! fst p ! snd p)"

lemma best_split_cases:
  assumes "mask_ok m"
  obtains (Keep) "best_split ft m l = Ok None"
      "\<And>p. p \<in> split_positions ft \<Longrightarrow> \<not> usable_bit (routing_bits (meaningful_mask_bits m)) l p"
    | (Refine) p m' where "best_split ft m l = Ok (Some m')" and "mask_ok m'" and "p \<in> split_positions ft"
      and "usable_bit (routing_bits (meaningful_mask_bits m)) l p" and "refines_at p m m'"
      and "\<And>q. q \<in> split_positions ft \<Longrightarrow> usable_bit (routing_bits (meaningful_mask_bits m)) l q \<Longrightarrow>
             bit_distance l p \<le> bit_distance l q"
proof (cases "best_split_index ft (routing_bits (meaningful_mask_bits m)) l")
  case None
  then show ?thesis
    using best_split_index_best [of "routing_bits (meaningful_mask_bits m)" l ft]
    by (intro Keep) (auto simp: best_split_def best_of_def)
next
  case (Some k)
  let ?u = "routing_bits (meaningful_mask_bits m)"
  obtain p where p: "p \<in> split_positions ft" "usable_bit ?u l p" "k = fst p * 256 + snd p"
    "\<forall>q\<in>split_positions ft. usable_bit ?u l q \<longrightarrow> bit_distance l p \<le> bit_distance l q"
    using best_split_index_best [of ?u l ft] Some by (auto simp: best_of_def)
  note bnd = split_positions_bounds [OF p(1)]
  then have k: "k < 512" using p(3) by linarith
  have bit: "routing_get_bit_value r k = Some (routing_bits r ! fst p ! snd p)" for r
    using routing_bits_get_bit_value [of "fst p" "snd p" r] bnd p(3) by (simp add: mult.commute)
  obtain mm where mm: "routing_set_bit_value (meaningful_mask_bits m) k True = Some mm" "routing_ok mm"
    "\<And>j. j < 512 \<Longrightarrow> the (routing_get_bit_value mm j) = (j = k \<or> the (routing_get_bit_value (meaningful_mask_bits m) j))"
    using routing_set_bit_value_True [of "meaningful_mask_bits m" k] assms k by (auto simp: mask_ok_def)
  obtain mb where mb: "routing_set_bit_value (mask_bits m) k True = Some mb" "routing_ok mb"
    "\<And>j. j < 512 \<Longrightarrow> the (routing_get_bit_value mb j) = (j = k \<or> the (routing_get_bit_value (mask_bits m) j))"
    using routing_set_bit_value_True [of "mask_bits m" k] assms k by (auto simp: mask_ok_def)
  let ?m' = "\<lparr>mask_bits = mb, meaningful_mask_bits = mm\<rparr>"
  have free: "\<not> the (routing_get_bit_value (meaningful_mask_bits m) k)"
    using p(2) by (simp add: usable_bit_def bit)
  have "refines_at p m ?m'"
    unfolding refines_at_def mask_is_match_bits using mm(3) mb(3) free k bit by (auto split: if_splits)
  then show ?thesis
    using p mm mb Some by (intro Refine [of ?m' p]) (auto simp: best_split_def expect_def mask_ok_def)
qed

section \<open>What a check proposes\<close>

definition masks_ok :: "threads_table \<Rightarrow> bool" where
  "masks_ok t = list_all (\<lambda>(m, _). mask_ok m) t"

definition scan_ok :: "load_balancing_service \<Rightarrow> thread_identifier \<Rightarrow> threads_table \<Rightarrow> table_scan \<Rightarrow> bool" where
  "scan_ok s this t sc \<longleftrightarrow>
     read_load s (sc_max_load_thread_id sc) = Inr (sc_max_load sc) \<and>
     read_load s (sc_min_load_thread_id sc) = Inr (sc_min_load sc) \<and>
     (\<forall>i m. sc_this_row sc = Some (i, m) \<longrightarrow> i < length t \<and> t ! i = (m, this) \<and> sc_last_thread_id sc \<noteq> None \<and>
        (Suc i = length t \<longrightarrow> sc_last_thread_id sc = Some this))"

definition scan_bounds :: "load_balancing_service \<Rightarrow> threads_table \<Rightarrow> table_scan \<Rightarrow> bool" where
  "scan_bounds s t sc \<longleftrightarrow>
     (\<forall>th n. th \<in> list_threads t \<longrightarrow> read_load s th = Inr n \<longrightarrow> sc_min_load sc \<le> n \<and> n \<le> sc_max_load sc)"

lemma scan_row_ok:
  assumes "scan_ok s this t sc" and "scan_bounds s t sc"
  shows "scan_ok s this (t @ [row]) (scan_row s this (length t, row) sc) \<and>
    scan_bounds s (t @ [row]) (scan_row s this (length t, row) sc)"
proof (cases row)
  case (Pair m th)
  show ?thesis
  proof (cases "read_load s th")
    case (Inl e)
    have "th \<noteq> this" if "sc_this_row sc = Some (length t, m')" for m'
      using assms(1) that by (auto simp: scan_ok_def)
    then show ?thesis
      using assms Inl Pair by (auto simp: scan_row_def scan_ok_def scan_bounds_def list_threads_def nth_append)
  next
    case (Inr n)
    then show ?thesis
      using assms Pair
      by (auto simp: scan_row_def scan_ok_def scan_bounds_def list_threads_def nth_append Let_def)
  qed
qed

lemma enumerate_snoc: "List.enumerate 0 (xs @ [x]) = List.enumerate 0 xs @ [(length xs, x)]"
  by (simp add: enumerate_append_eq)

lemma scan_table_ok:
  assumes "read_load s this = Inr current_load"
  shows "scan_ok s this t (scan_table s this current_load t) \<and> scan_bounds s t (scan_table s this current_load t)"
proof (induction t rule: rev_induct)
  case Nil
  then show ?case using assms by (simp add: scan_table_def scan_ok_def scan_bounds_def list_threads_def)
next
  case (snoc row t)
  have "scan_table s this current_load (t @ [row]) = scan_row s this (length t, row) (scan_table s this current_load t)"
    by (simp add: scan_table_def enumerate_snoc)
  then show ?case using scan_row_ok [of s this t _ row] snoc.IH by simp
qed

text \<open>A table in which a thread keeps its row and gives up the accounts of a bit to a new thread.\<close>

definition splits_thread ::
    "build_features \<Rightarrow> thread_identifier \<Rightarrow> thread_identifier \<Rightarrow> threads_table \<Rightarrow> threads_table \<Rightarrow> bool" where
  "splits_thread ft this new t t' \<longleftrightarrow>
     table_wf t' \<and> masks_ok t' \<and> length t' = Suc (length t) \<and>
     (\<exists>p\<in>split_positions ft. \<forall>a. route t' a = route t a \<or>
        route t a = Some this \<and> route t' a = Some new \<and> routing_bits a ! fst p ! snd p)"

lemma route_at_row:
  assumes "i < length t" and "t ! i = (m, th)" and "find_match routing_bitand (take i t) a = None"
    and "mask_is_match routing_bitand m a"
  shows "route t a = Some th"
  using assms by (subst id_take_nth_drop [of i t]) (auto simp: route_def find_match_append)

lemma split_at_mask_splits:
  assumes "table_wf t" and "masks_ok t" and "i < length t" and "t ! i = (m, this)"
    and "mask_ok m'" and "p \<in> split_positions ft" and "refines_at p m m'"
    and "split_at_mask block_id i t (Some m') = Ok (Inr (Split t'))"
  shows "splits_thread ft this (thread_identifier_new block_id 0) t t'"
proof -
  have ins: "insert_above i m' (thread_identifier_new block_id 0) t = Ok t'"
    using assms(8) by (auto simp: split_at_mask_def split: if_splits outcome.splits)
  have "route t' a = route t a \<or>
      route t a = Some this \<and> route t' a = Some (thread_identifier_new block_id 0) \<and> routing_bits a ! fst p ! snd p" for a
  proof (cases "find_match routing_bitand (take i t) a")
    case None
    then show ?thesis
      using route_insert_above [OF ins, of a] route_at_row [OF assms(3,4) None] assms(7)
      by (auto simp: refines_at_def)
  next
    case (Some x)
    have "route t a = find_match routing_bitand (take i t @ drop i t) a" by (simp add: route_def)
    also have "\<dots> = Some x" using Some by (simp only: find_match_append option.case)
    finally show ?thesis
      using route_insert_above [OF ins, of a] Some by simp
  qed
  moreover have "masks_ok t'"
    using ins assms(2,5) by (auto simp: insert_above_eq_Ok masks_ok_def list_all_iff dest: in_set_takeD in_set_dropD)
  ultimately show ?thesis
    using insert_above_wf [OF assms(1) ins] ins assms(6) by (auto simp: splits_thread_def insert_above_eq_Ok)
qed

lemma masks_ok_nth: "masks_ok t \<Longrightarrow> i < length t \<Longrightarrow> t ! i = (m, th) \<Longrightarrow> mask_ok m"
  by (auto simp: masks_ok_def list_all_length)

text \<open>
  C14: A split that the load balancer proposes is sound. The thread that is split is ready, has the
  greatest load of the ready threads of the table, and that load has reached the threshold; the new
  table is well formed and one row longer, at most one row above the configured size; every account
  keeps its thread, except accounts of the split thread with one chosen bit set, which move to the thread
  spawned by the block that was checked.
\<close>

theorem split_moves_only_own_accounts:
  assumes "lb_check ft block_id this t max_table_size s = Ok (Inr (Split t'), s')"
    and "table_wf t" and "masks_ok t"
  shows "splits_thread ft this (thread_identifier_new block_id 0) t t' \<and> length t' \<le> Suc max_table_size \<and>
    (\<exists>n. read_load s this = Inr n \<and> lb_load_threshold s \<le> n \<and>
       (\<forall>th\<in>list_threads t. \<forall>k. read_load s th = Inr k \<longrightarrow> k \<le> n))"
proof -
  obtain n where n: "read_load s this = Inr n"
    and chk: "check_scanned ft block_id this t max_table_size (scan_table s this n t) s = Ok (Inr (Split t'), s')"
    using assms(1) by (auto simp: lb_check_def split: if_splits sum.splits)
  let ?sc = "scan_table s this n t"
  have sc: "scan_ok s this t ?sc" "scan_bounds s t ?sc" using scan_table_ok [OF n] by auto
  obtain i m l where row: "sc_this_row ?sc = Some (i, m)" and size: "length t \<le> max_table_size"
    and thr: "lb_load_threshold s \<le> sc_max_load ?sc"
    and spl: "try_threads_split ft block_id this i l m (sc_max_load ?sc) (sc_min_load ?sc)
        (sc_max_load_thread_id ?sc) t max_table_size = Ok (Inr (Split t'))"
    using chk by (auto simp: check_scanned_def split_and_reset_def try_threads_merge_def
        split: option.splits if_splits outcome.splits prod.splits)
  have i: "i < length t" "t ! i = (m, this)" using sc(1) row by (auto simp: scan_ok_def)
  have m: "mask_ok m" using masks_ok_nth [OF assms(3) i] .
  have is_max: "sc_max_load_thread_id ?sc = this"
    and proposed: "obind (best_split ft m (snd (al_aggregated_value l))) (split_at_mask block_id i t) = Ok (Inr (Split t'))"
    using spl by (auto simp: try_threads_split_def propose_new_bitmask_def split: if_splits)
  have "splits_thread ft this (thread_identifier_new block_id 0) t t'"
  proof (cases rule: best_split_cases [OF m, of ft "snd (al_aggregated_value l)"])
    case 1
    then show ?thesis using proposed by (simp add: split_at_mask_def)
  next
    case (2 p m')
    then show ?thesis using proposed split_at_mask_splits [OF assms(2,3) i] by simp
  qed
  moreover have "sc_max_load ?sc = n" using sc(1) n is_max by (simp add: scan_ok_def)
  ultimately show ?thesis
    using size thr n sc(2) by (auto simp: splits_thread_def scan_bounds_def)
qed

text \<open>
  C40: A check returns. With a non-empty table size and loads that can be doubled, it never panics: the
  row it splits at is a row of the table, and the row it collapses is never the default row.
\<close>

theorem check_returns:
  assumes "0 < max_table_size" and "masks_ok t" and "\<And>th n. read_load s th = Inr n \<Longrightarrow> n < 2 ^ 63"
  shows "\<exists>r s'. lb_check ft block_id this t max_table_size s = Ok (r, s')"
proof (cases "read_load s this")
  case (Inl e)
  then show ?thesis using assms(1) by (simp add: lb_check_def)
next
  case (Inr n)
  let ?sc = "scan_table s this n t"
  have sc: "scan_ok s this t ?sc" using scan_table_ok [OF Inr] by simp
  show ?thesis
  proof (cases "sc_this_row ?sc")
    case None
    then show ?thesis using assms(1) Inr by (simp add: lb_check_def check_scanned_def)
  next
    case (Some row)
    obtain i m where row: "row = (i, m)" by (cases row)
    have i: "i < length t" "t ! i = (m, this)" and last: "sc_last_thread_id ?sc \<noteq> None"
      "Suc i = length t \<longrightarrow> sc_last_thread_id ?sc = Some this"
      using sc Some row by (auto simp: scan_ok_def)
    have "sc_min_load ?sc < 2 ^ 63" using sc assms(3) by (auto simp: scan_ok_def)
    then have bal: "\<exists>b. loads_balanced t max_table_size (sc_max_load ?sc) (sc_min_load ?sc) = Ok b"
      by (auto simp: loads_balanced_def usize_mul_def max_load_disproportion_def)
    have "\<exists>r. obind (best_split ft m l) (split_at_mask block_id i t) = Ok r" for l
      by (cases rule: best_split_cases [OF masks_ok_nth [OF assms(2) i], of ft l])
        (use i in \<open>auto simp: split_at_mask_def insert_above_def\<close>)
    then have "\<exists>r. try_threads_split ft block_id this i l m (sc_max_load ?sc) (sc_min_load ?sc)
        (sc_max_load_thread_id ?sc) t max_table_size = Ok r" for l
      using bal by (auto simp: try_threads_split_def propose_new_bitmask_def simp del: obind_eq_Ok)
    then have "\<exists>r s'. split_and_reset ft block_id this t max_table_size ?sc row s = Ok (r, s')"
      by (simp add: split_and_reset_def row split: option.split)
    moreover have "\<exists>r. try_threads_merge ft this i x y (the (sc_last_thread_id ?sc)) t = Ok r" for x y
      using last i by (auto simp: try_threads_merge_def table_remove_def split: option.splits)
    ultimately show ?thesis
      using assms(1) Inr Some last row
      by (auto simp: lb_check_def check_scanned_def expect_def split: option.split) metis+
  qed
qed

text \<open>
  A service in its default build in which the default thread, alone in the table, has the load 5 and two
  counted messages, whose dapps differ in the first bit.
\<close>

definition example_features :: build_features where
  "example_features = \<lparr>allow_dappid_thread_split = False, allow_threads_merge = False\<rparr>"

definition example_accounts_load :: in_thread_accounts_load where
  "example_accounts_load =
     \<lparr>il_total_transactions_count = 2, il_zero_bits_count = [1 # replicate 255 2, replicate 256 2]\<rparr>"

definition loaded_service :: load_balancing_service where
  "loaded_service =
     \<lparr>lb_thread_load_map = [(thread_identifier_default,
        \<lparr>al_window = [(5, example_accounts_load)], al_cursor = 0, al_aggregated_value = (5, example_accounts_load),
         al_is_filled = True, al_window_size = 1\<rparr>)],
      lb_window_size = 1, lb_load_threshold = 4\<rparr>"

lemma routing_bits_default: "p < 2 \<Longrightarrow> i < 256 \<Longrightarrow> \<not> routing_bits routing_default ! p ! i"
proof -
  assume "p < 2" "i < 256"
  then have "Some (routing_bits routing_default ! p ! i) = routing_get_bit_value routing_default (256 * p + i)"
    by (rule routing_bits_get_bit_value [symmetric])
  moreover have "\<dots> = Some False"
    using \<open>p < 2\<close> \<open>i < 256\<close> by (auto simp: routing_get_bit_value_def routing_default_def get_bit_value_bit less_2_cases_iff)
  ultimately show ?thesis by simp
qed

lemma mask_ok_default [simp]: "mask_ok (bitmask_default routing_default)"
  by (simp add: mask_ok_def bitmask_default_def routing_ok_def routing_default_def)

lemma refines_at_ne: "p \<in> split_positions ft \<Longrightarrow> refines_at p m (bitmask_default routing_default) \<Longrightarrow> False"
  using split_positions_bounds [of p ft] routing_bits_default [of "fst p" "snd p"]
  by (auto simp: refines_at_def dest: spec [of _ routing_default])

lemma loaded_service_splits:
  "\<exists>t' s'. lb_check example_features (replicate 32 3) thread_identifier_default threads_table_default 2 loaded_service =
     Ok (Inr (Split t'), s')"
proof -
  let ?m = "bitmask_default routing_default"
  have ready: "read_load loaded_service thread_identifier_default = Inr 5"
    by (simp add: read_load_def loaded_service_def load_value_def hm_get_def)
  have scan: "scan_table loaded_service thread_identifier_default 5 threads_table_default =
      \<lparr>sc_min_load = 5, sc_min_load_thread_id = thread_identifier_default, sc_max_load = 5,
       sc_max_load_thread_id = thread_identifier_default, sc_last_thread_id = Some thread_identifier_default,
       sc_pre_last_thread_id = None, sc_this_row = Some (0, ?m)\<rparr>"
    by (simp add: scan_table_def threads_table_default_def table_new_def scan_row_def ready Let_def)
  have usable: "usable_bit (routing_bits (meaningful_mask_bits ?m)) example_accounts_load (0, 0)"
    by (simp add: usable_bit_def bitmask_default_def routing_bits_default example_accounts_load_def)
  have "\<exists>m'. best_split example_features ?m example_accounts_load = Ok (Some m') \<and> m' \<noteq> ?m"
  proof (cases rule: best_split_cases [OF mask_ok_default, of example_features example_accounts_load])
    case 1
    have "(0, 0) \<in> split_positions example_features"
      by (simp add: split_positions_def max_route_part_split_def)
    then show ?thesis using 1 usable by blast
  next
    case (2 p m')
    then show ?thesis using refines_at_ne by blast
  qed
  then obtain m' where m': "best_split example_features ?m example_accounts_load = Ok (Some m')" "m' \<noteq> ?m"
    by blast
  obtain l where l: "hm_get (lb_thread_load_map loaded_service) thread_identifier_default = Some l"
    "snd (al_aggregated_value l) = example_accounts_load"
    by (simp add: loaded_service_def hm_get_def)
  have "length threads_table_default = 1" "lb_load_threshold loaded_service = 4"
    by (simp_all add: threads_table_default_def table_new_def loaded_service_def)
  moreover have "split_at_mask (replicate 32 3) 0 threads_table_default (Some m') =
      Ok (Inr (Split ((m', thread_identifier_new (replicate 32 3) 0) # threads_table_default)))"
    using m'(2) by (simp add: split_at_mask_def threads_table_default_def table_new_def)
  ultimately show ?thesis
    using m'(1) l ready
    by (simp add: lb_check_def check_scanned_def scan expect_def split_and_reset_def try_threads_split_def
        loads_balanced_def propose_new_bitmask_def)
qed

theorem split_moves_only_own_accounts_witness:
  "\<exists>t' s'. lb_check example_features (replicate 32 3) thread_identifier_default threads_table_default 2 loaded_service =
     Ok (Inr (Split t'), s') \<and>
     splits_thread example_features thread_identifier_default (thread_identifier_new (replicate 32 3) 0)
       threads_table_default t'"
proof -
  obtain t' s' where chk: "lb_check example_features (replicate 32 3) thread_identifier_default threads_table_default 2
      loaded_service = Ok (Inr (Split t'), s')"
    using loaded_service_splits by blast
  have "masks_ok threads_table_default"
    by (simp add: masks_ok_def threads_table_default_def table_new_def)
  then show ?thesis
    using split_moves_only_own_accounts [OF chk table_wf_default] chk by blast
qed

theorem check_returns_witness:
  "\<exists>r s'. lb_check example_features (replicate 32 3) thread_identifier_default threads_table_default 1 loaded_service =
     Ok (r, s')"
proof (rule check_returns)
  show "masks_ok threads_table_default"
    by (simp add: masks_ok_def threads_table_default_def table_new_def)
  show "n < 2 ^ 63" if "read_load loaded_service th = Inr n" for th n
    using that by (auto simp: read_load_def loaded_service_def load_value_def hm_get_def split: if_splits option.splits)
qed simp

section \<open>The sliding window\<close>

definition shape_ok :: "nat list list \<Rightarrow> bool" where
  "shape_ok zs \<longleftrightarrow> length zs = 2 \<and> (\<forall>j<2. length (zs ! j) = 256)"

definition bits_at :: "nat \<Rightarrow> nat \<Rightarrow> in_thread_accounts_load \<Rightarrow> nat" where
  "bits_at j i l = il_zero_bits_count l ! j ! i"

text \<open>At most \<open>c\<close> messages are counted.\<close>

definition accounts_le :: "nat \<Rightarrow> in_thread_accounts_load \<Rightarrow> bool" where
  "accounts_le c l \<longleftrightarrow> shape_ok (il_zero_bits_count l) \<and>
     0 \<le> il_total_transactions_count l \<and> il_total_transactions_count l \<le> int c \<and>
     (\<forall>j<2. \<forall>i<256. bits_at j i l \<le> c)"

lemma list_all2_2D:
  "shape_ok xs \<Longrightarrow> shape_ok ys \<Longrightarrow>
     list_all2 (list_all2 P) xs ys \<longleftrightarrow> (\<forall>j<2. \<forall>i<256. P (xs ! j ! i) (ys ! j ! i))"
  by (auto simp: shape_ok_def list_all2_conv_all_nth)

lemma map2_2D:
  assumes "shape_ok xs" and "shape_ok ys"
  shows "shape_ok (map2 (map2 f) xs ys) \<and> (\<forall>j<2. \<forall>i<256. map2 (map2 f) xs ys ! j ! i = f (xs ! j ! i) (ys ! j ! i))"
  using assms by (auto simp: shape_ok_def)

lemma add_in_place_Ok:
  assumes "accounts_le c l" and "accounts_le d k" and "c + d < 2 ^ 32"
  obtains r where "add_in_place l k = Ok r" and "accounts_le (c + d) r"
    and "il_total_transactions_count r = il_total_transactions_count l + il_total_transactions_count k"
    and "\<And>j i. j < 2 \<Longrightarrow> i < 256 \<Longrightarrow> bits_at j i r = bits_at j i l + bits_at j i k"
proof -
  have b: "bits_at j i l + bits_at j i k \<le> c + d" if "j < 2" "i < 256" for j i
    using assms that by (auto simp: accounts_le_def intro!: add_mono)
  have "list_all2 (list_all2 (\<lambda>x y. x + y < 2 ^ 32)) (il_zero_bits_count l) (il_zero_bits_count k)"
    using assms b
    by (subst list_all2_2D) (auto simp: accounts_le_def bits_at_def intro: le_less_trans)
  then show ?thesis
    using assms b map2_2D [of "il_zero_bits_count l" "il_zero_bits_count k" "(+)"]
    by (intro that [of "\<lparr>il_total_transactions_count = il_total_transactions_count l + il_total_transactions_count k,
          il_zero_bits_count = map2 (map2 (+)) (il_zero_bits_count l) (il_zero_bits_count k)\<rparr>"])
      (auto simp: add_in_place_def add_counts_def i64_checked_def accounts_le_def bits_at_def)
qed

lemma sub_in_place_Ok:
  assumes "accounts_le c l" and "shape_ok (il_zero_bits_count k)" and "c < 2 ^ 32"
    and "0 \<le> il_total_transactions_count k" and "il_total_transactions_count k \<le> il_total_transactions_count l"
    and "\<And>j i. j < 2 \<Longrightarrow> i < 256 \<Longrightarrow> bits_at j i k \<le> bits_at j i l"
  obtains r where "sub_in_place l k = Ok r" and "shape_ok (il_zero_bits_count r)"
    and "il_total_transactions_count r = il_total_transactions_count l - il_total_transactions_count k"
    and "\<And>j i. j < 2 \<Longrightarrow> i < 256 \<Longrightarrow> bits_at j i r = bits_at j i l - bits_at j i k"
proof -
  have "list_all2 (list_all2 (\<lambda>x y. y \<le> x)) (il_zero_bits_count l) (il_zero_bits_count k)"
    using assms(1,2) assms(6)
    by (subst list_all2_2D) (auto simp: accounts_le_def bits_at_def)
  then show ?thesis
    using assms map2_2D [of "il_zero_bits_count l" "il_zero_bits_count k" "(-)"]
    by (intro that [of "\<lparr>il_total_transactions_count = il_total_transactions_count l - il_total_transactions_count k,
          il_zero_bits_count = map2 (map2 (-)) (il_zero_bits_count l) (il_zero_bits_count k)\<rparr>"])
      (auto simp: sub_in_place_def sub_counts_def i64_checked_def accounts_le_def bits_at_def)
qed

lemma accounts_le_default: "accounts_le 0 accounts_load_default"
  by (auto simp: accounts_le_def accounts_load_default_def shape_ok_def bits_at_def less_2_cases_iff)

lemma accounts_le_mono: "accounts_le c l \<Longrightarrow> c \<le> d \<Longrightarrow> accounts_le d l"
  by (auto simp: accounts_le_def intro: order_trans)

lemma length_inner_loop: "length (routing_bits_inner_loop part result is) = length result"
  by (induction "is" arbitrary: result) simp_all

lemma accounts_le_message:
  "accounts_le 1 \<lparr>il_total_transactions_count = 1, il_zero_bits_count = map (map (\<lambda>b. if b then 0 else 1)) (routing_bits r)\<rparr>"
  by (auto simp: accounts_le_def shape_ok_def bits_at_def routing_bits_def length_inner_loop less_2_cases_iff)

lemma accounts_append_from_Ok:
  "accounts_le c l \<Longrightarrow> c + length ms < 2 ^ 32 \<Longrightarrow>
     \<exists>r. accounts_append_from dapps ms l = Ok r \<and> accounts_le (c + length ms) r"
proof (induction ms arbitrary: c l)
  case (Cons m ms)
  show ?case
  proof (cases "message_route dapps m")
    case None
    then show ?thesis
      using Cons.IH [of c l] Cons.prems accounts_le_mono [of "c + length ms" _ "Suc (c + length ms)"] by auto
  next
    case (Some r)
    obtain l' where "count_message r l = Ok l'" "accounts_le (c + 1) l'"
      unfolding count_message_def
      by (rule add_in_place_Ok [OF Cons.prems(1) accounts_le_message [of r]]) (use Cons.prems(2) in auto)
    then show ?thesis
      using Cons.IH [of "c + 1" l'] Cons.prems(2) Some by auto
  qed
qed auto

lemma accounts_new_from_Ok:
  assumes "length ms \<le> c" and "c < 2 ^ 32"
  obtains r where "accounts_new_from dapps ms = Ok r" and "accounts_le c r"
  using accounts_append_from_Ok [OF accounts_le_default, of ms dapps] assms
  by (auto simp: accounts_new_from_def intro: accounts_le_mono)

lemma sum_list_map_update:
  fixes f :: "'a \<Rightarrow> 'b::comm_monoid_add"
  assumes "c < length ws"
  shows "sum_list (map f (ws[c := x])) + f (ws ! c) = sum_list (map f ws) + f x"
proof -
  have "sum_list (map f ws) = sum_list (map f (take c ws @ ws ! c # drop (Suc c) ws))"
    using id_take_nth_drop [OF assms] by simp
  moreover have "ws[c := x] = take c ws @ x # drop (Suc c) ws"
    using assms by (rule upd_conv_take_nth_drop)
  ultimately show ?thesis by (simp add: ac_simps)
qed

text \<open>
  The aggregate is the sum of the window, whose entries are bounded so that no sum overflows.
\<close>

definition al_inv :: "nat \<Rightarrow> nat \<Rightarrow> aggregated_load \<Rightarrow> bool" where
  "al_inv q c l \<longleftrightarrow>
     0 < al_window_size l \<and> length (al_window l) = al_window_size l \<and> al_cursor l < al_window_size l \<and>
     Suc (al_window_size l) * q < 2 ^ 64 \<and> Suc (al_window_size l) * c < 2 ^ 32 \<and>
     (\<forall>w\<in>set (al_window l). fst w \<le> q \<and> accounts_le c (snd w)) \<and>
     load_value l = sum_list (map fst (al_window l)) \<and>
     shape_ok (il_zero_bits_count (snd (al_aggregated_value l))) \<and>
     il_total_transactions_count (snd (al_aggregated_value l)) =
       sum_list (map (il_total_transactions_count \<circ> snd) (al_window l)) \<and>
     (\<forall>j<2. \<forall>i<256.
        bits_at j i (snd (al_aggregated_value l)) = sum_list (map (bits_at j i \<circ> snd) (al_window l)))"

lemma sum_list_bound:
  fixes f :: "'a \<Rightarrow> 'b::{linordered_semidom}"
  shows "(\<And>w. w \<in> set ws \<Longrightarrow> f w \<le> b) \<Longrightarrow> sum_list (map f ws) \<le> of_nat (length ws) * b"
  by (induction ws) (auto simp: algebra_simps intro!: add_mono)

lemma al_inv_aggregate:
  assumes "al_inv q c l"
  shows "accounts_le (al_window_size l * c) (snd (al_aggregated_value l)) \<and> load_value l \<le> al_window_size l * q"
proof -
  have w: "fst v \<le> q \<and> accounts_le c (snd v)" if "v \<in> set (al_window l)" for v
    using assms that by (auto simp: al_inv_def)
  have len: "length (al_window l) = al_window_size l" using assms by (simp add: al_inv_def)
  have "sum_list (map (bits_at j i \<circ> snd) (al_window l)) \<le> al_window_size l * c" if "j < 2" "i < 256" for j i
    using sum_list_bound [of "al_window l" "bits_at j i \<circ> snd" c] w that len by (simp add: accounts_le_def)
  moreover have "sum_list (map (il_total_transactions_count \<circ> snd) (al_window l)) \<le> int (al_window_size l * c)"
    using sum_list_bound [of "al_window l" "il_total_transactions_count \<circ> snd" "int c"] w len
    by (simp add: accounts_le_def)
  moreover have "0 \<le> sum_list (map (il_total_transactions_count \<circ> snd) (al_window l))"
    using w by (auto simp: accounts_le_def intro!: sum_list_nonneg)
  moreover have "sum_list (map fst (al_window l)) \<le> al_window_size l * q"
    using sum_list_bound [of "al_window l" fst q] w len by simp
  ultimately show ?thesis
    using assms by (simp add: al_inv_def accounts_le_def)
qed

lemma advance_inv:
  assumes "al_inv q c l"
  shows "al_inv q c (advance l)" and "al_cursor (advance l) = Suc (al_cursor l) mod al_window_size l"
    and "al_window (advance l) = al_window l" and "al_window_size (advance l) = al_window_size l"
    and "al_is_filled (advance l) \<longleftrightarrow> al_is_filled l \<or> al_window_size l \<le> Suc (al_cursor l)"
  using assms by (auto simp: advance_def al_inv_def load_value_def mod_Suc)

lemma replace_load_inv:
  assumes "al_inv q c l" and "k < al_window_size l" and "n \<le> q" and "accounts_le c a"
  obtains l' where "replace_load k n (Ok a) (al_window l ! k) l = Ok l'" and "al_inv q c l'"
    and "al_window l' = (al_window l)[k := (n, a)]" and "al_cursor l' = al_cursor l"
    and "al_is_filled l' = al_is_filled l" and "al_window_size l' = al_window_size l"
proof -
  let ?g = "snd (al_aggregated_value l)" and ?w = "al_window l" and ?s = "al_window_size l"
  let ?T = "il_total_transactions_count \<circ> snd"
  have k: "k < length ?w" using assms(1,2) by (simp add: al_inv_def)
  then have mem: "?w ! k \<in> set ?w" by simp
  have w: "fst v \<le> q \<and> accounts_le c (snd v)" if "v \<in> set ?w" for v using assms(1) that by (auto simp: al_inv_def)
  note agg = al_inv_aggregate [OF assms(1)]
  have sizes: "?s * q + q < 2 ^ 64" "?s * c + c < 2 ^ 32" using assms(1) by (auto simp: al_inv_def algebra_simps)
  obtain g1 where g1: "add_in_place ?g a = Ok g1" "accounts_le (?s * c + c) g1"
    "il_total_transactions_count g1 = il_total_transactions_count ?g + il_total_transactions_count a"
    "\<And>j i. j < 2 \<Longrightarrow> i < 256 \<Longrightarrow> bits_at j i g1 = bits_at j i ?g + bits_at j i a"
    using add_in_place_Ok [OF _ assms(4) sizes(2)] agg by blast
  have T: "sum_list (map ?T (?w[k := (n, a)])) + ?T (?w ! k) = il_total_transactions_count g1"
    using sum_list_map_update [OF k, of ?T "(n, a)"] g1(3) assms(1) by (simp add: al_inv_def)
  have B: "sum_list (map (bits_at j i \<circ> snd) (?w[k := (n, a)])) + bits_at j i (snd (?w ! k)) = bits_at j i g1"
    if "j < 2" "i < 256" for j i
    using sum_list_map_update [OF k, of "bits_at j i \<circ> snd" "(n, a)"] g1(4) [OF that] assms(1) that
    by (simp add: al_inv_def)
  have F: "sum_list (map fst (?w[k := (n, a)])) + fst (?w ! k) = load_value l + n"
    using sum_list_map_update [OF k, of fst "(n, a)"] assms(1) by (simp add: al_inv_def)
  have w': "fst v \<le> q \<and> accounts_le c (snd v)" if "v \<in> set (?w[k := (n, a)])" for v
  proof -
    have "v = (n, a) \<or> v \<in> set ?w" using that set_update_subset_insert [of ?w k "(n, a)"] by blast
    then show ?thesis using w assms(3,4) by fastforce
  qed
  have pos: "0 \<le> sum_list (map ?T (?w[k := (n, a)]))"
    using w' by (auto simp: accounts_le_def intro!: sum_list_nonneg)
  obtain g2 where g2: "sub_in_place g1 (snd (?w ! k)) = Ok g2" "shape_ok (il_zero_bits_count g2)"
    "il_total_transactions_count g2 = il_total_transactions_count g1 - ?T (?w ! k)"
    "\<And>j i. j < 2 \<Longrightarrow> i < 256 \<Longrightarrow> bits_at j i g2 = bits_at j i g1 - bits_at j i (snd (?w ! k))"
  proof (rule sub_in_place_Ok [OF g1(2) _ sizes(2), of "snd (?w ! k)"])
    show "bits_at j i (snd (?w ! k)) \<le> bits_at j i g1" if "j < 2" "i < 256" for j i
      using B [OF that] by simp
  qed (use w [OF mem] T pos in \<open>auto simp: accounts_le_def\<close>)
  let ?l = "l\<lparr>al_window := ?w[k := (n, a)], al_aggregated_value := (load_value l + n - fst (?w ! k), g2)\<rparr>"
  have repl: "replace_load k n (Ok a) (?w ! k) l = Ok ?l"
    using g1(1) g2(1) F agg assms(3) sizes(1) by (simp add: replace_load_def usize_add_def load_sub_def)
  have "load_value l + n - fst (?w ! k) = sum_list (map fst (?w[k := (n, a)]))"
    using F by linarith
  moreover have "il_total_transactions_count g2 = sum_list (map ?T (?w[k := (n, a)]))"
    using T g2(3) by linarith
  moreover have "bits_at j i g2 = sum_list (map (bits_at j i \<circ> snd) (?w[k := (n, a)]))" if "j < 2" "i < 256" for j i
    using B [OF that] g2(4) [OF that] by linarith
  ultimately have "al_inv q c ?l"
    using assms(1) w' g2(2) unfolding al_inv_def load_value_def by simp
  then show ?thesis using repl by (intro that [of ?l]) simp_all
qed

text \<open>The window as a queue, oldest entry first.\<close>

definition al_queue :: "aggregated_load \<Rightarrow> (load \<times> in_thread_accounts_load) list" where
  "al_queue l = rotate (Suc (al_cursor l)) (al_window l)"

lemma rotate_update:
  assumes "k < length ws"
  shows "rotate (Suc k) (ws[k := x]) = tl (rotate k ws) @ [x]"
proof -
  have "rotate k ws = ws ! k # drop (Suc k) ws @ take k ws"
    using assms by (simp add: rotate_drop_take Cons_nth_drop_Suc [symmetric])
  moreover have "rotate (Suc k) (take k ws @ x # drop (Suc k) ws) = drop (Suc k) ws @ take k ws @ [x]"
    using rotate_append [of "take k ws @ [x]" "drop (Suc k) ws"] assms by simp
  ultimately show ?thesis
    using upd_conv_take_nth_drop [OF assms, of x] by simp
qed

lemma al_append_from_refines:
  assumes "al_inv q c l" and "n \<le> q" and "accounts_le c a"
  obtains l' where "al_append_from n (Ok a) l = Ok l'" and "al_inv q c l'"
    and "al_queue l' = tl (al_queue l) @ [(n, a)]" and "al_window_size l' = al_window_size l"
    and "al_cursor l' = Suc (al_cursor l) mod al_window_size l"
    and "al_is_filled l' \<longleftrightarrow> al_is_filled l \<or> al_window_size l \<le> Suc (al_cursor l)"
proof -
  note adv = advance_inv [OF assms(1)]
  let ?k = "al_cursor (advance l)"
  have k: "?k < al_window_size (advance l)" "?k < length (al_window l)"
    using adv assms(1) by (auto simp: al_inv_def)
  obtain l' where l': "replace_load ?k n (Ok a) (al_window (advance l) ! ?k) (advance l) = Ok l'" "al_inv q c l'"
    "al_window l' = (al_window (advance l))[?k := (n, a)]" "al_cursor l' = ?k"
    "al_is_filled l' = al_is_filled (advance l)" "al_window_size l' = al_window_size (advance l)"
    by (rule replace_load_inv [OF adv(1) k(1) assms(2,3)])
  have "al_append_from n (Ok a) l = Ok l'"
    using l'(1) k adv(3) by (simp add: al_append_from_def Let_def)
  moreover have "rotate ?k (al_window l) = al_queue l"
    using adv(2) assms(1) rotate_conv_mod [of "Suc (al_cursor l)" "al_window l"] by (simp add: al_queue_def al_inv_def)
  then have "al_queue l' = tl (al_queue l) @ [(n, a)]"
    using rotate_update [OF k(2), of "(n, a)"] l'(3,4) adv(3) by (simp add: al_queue_def)
  ultimately show ?thesis using l' adv by (intro that) simp_all
qed

text \<open>The blocks of a thread as they are appended: queue length, dapps table and imported messages.\<close>

type_synonym finalized_load = "load \<times> (bytes, bytes option) hmap \<times> in_msg list"

fun append_blocks :: "finalized_load list \<Rightarrow> aggregated_load \<Rightarrow> aggregated_load outcome" where
  "append_blocks [] l = Ok l"
| "append_blocks ((n, dapps, ms) # bs) l = obind (al_append_from n (accounts_new_from dapps ms) l) (append_blocks bs)"

definition blocks_le :: "nat \<Rightarrow> nat \<Rightarrow> finalized_load list \<Rightarrow> bool" where
  "blocks_le q c bs = list_all (\<lambda>(n, dapps, ms). n \<le> q \<and> length ms \<le> c) bs"

lemma al_inv_new:
  assumes "0 < w" and "Suc w * q < 2 ^ 64" and "Suc w * c < 2 ^ 32"
  shows "al_inv q c (aggregated_load_new w)"
proof -
  have "sum_list (replicate n (0 :: int)) = 0" "sum_list (replicate n (0 :: nat)) = 0" for n
    by (simp_all add: sum_list_replicate)
  then show ?thesis
    using assms accounts_le_mono [OF accounts_le_default, of c]
    by (auto simp: al_inv_def aggregated_load_new_def load_value_def accounts_load_default_def bits_at_def
        shape_ok_def less_2_cases_iff)
qed

lemma al_inv_reset: "al_inv q c l \<Longrightarrow> al_inv q c (al_reset l)"
  by (auto simp: al_inv_def al_reset_def load_value_def)

lemma al_inv_c: "al_inv q c l \<Longrightarrow> c < 2 ^ 32"
  by (auto simp: al_inv_def)

text \<open>After \<open>k\<close> appends since a reset the cursor and the flag say whether the window is full.\<close>

definition appended :: "nat \<Rightarrow> aggregated_load \<Rightarrow> bool" where
  "appended k l \<longleftrightarrow> al_cursor l = k mod al_window_size l \<and> (al_is_filled l \<longleftrightarrow> al_window_size l \<le> k)"

lemma appended_Suc:
  assumes "appended k l" and "0 < al_window_size l" and "al_window_size l' = al_window_size l"
    and "al_cursor l' = Suc (al_cursor l) mod al_window_size l"
    and "al_is_filled l' \<longleftrightarrow> al_is_filled l \<or> al_window_size l \<le> Suc (al_cursor l)"
  shows "appended (Suc k) l'"
proof (cases "al_window_size l \<le> k")
  case True
  then show ?thesis using assms by (simp add: appended_def mod_Suc_eq)
next
  case False
  then show ?thesis using assms by (simp add: appended_def)
qed

lemma append_blocks_queue:
  assumes "al_inv q c l" and "blocks_le q c bs" and "appended k l"
  shows "\<exists>l' as. append_blocks bs l = Ok l' \<and> al_inv q c l' \<and> al_window_size l' = al_window_size l \<and>
    appended (k + length bs) l' \<and>
    list_all2 (\<lambda>(n, dapps, ms) a. accounts_new_from dapps ms = Ok a) bs as \<and>
    al_queue l' = drop (length bs) (al_queue l @ zip (map fst bs) as)"
  using assms
proof (induction bs arbitrary: l k)
  case Nil
  then show ?case by (auto intro!: exI [of _ "[]"])
next
  case (Cons b bs)
  obtain n dapps ms where b: "b = (n, dapps, ms)" by (cases b)
  have le: "n \<le> q" "length ms \<le> c" "blocks_le q c bs" using Cons.prems(2) by (auto simp: blocks_le_def b)
  obtain a where a: "accounts_new_from dapps ms = Ok a" "accounts_le c a"
    by (rule accounts_new_from_Ok [OF le(2) al_inv_c [OF Cons.prems(1)]])
  obtain l1 where l1: "al_append_from n (Ok a) l = Ok l1" "al_inv q c l1"
    "al_queue l1 = tl (al_queue l) @ [(n, a)]" "al_window_size l1 = al_window_size l"
    "al_cursor l1 = Suc (al_cursor l) mod al_window_size l"
    "al_is_filled l1 \<longleftrightarrow> al_is_filled l \<or> al_window_size l \<le> Suc (al_cursor l)"
    by (rule al_append_from_refines [OF Cons.prems(1) le(1) a(2)])
  have pos: "0 < al_window_size l" "al_queue l \<noteq> []" using Cons.prems(1) by (auto simp: al_inv_def al_queue_def)
  have "appended (Suc k) l1"
    using appended_Suc [OF Cons.prems(3) pos(1) l1(4-6)] .
  from Cons.IH [OF l1(2) le(3) this] obtain l' as where l': "append_blocks bs l1 = Ok l'" "al_inv q c l'"
    "al_window_size l' = al_window_size l1" "appended (Suc k + length bs) l'"
    "list_all2 (\<lambda>(n, dapps, ms) a. accounts_new_from dapps ms = Ok a) bs as"
    "al_queue l' = drop (length bs) (al_queue l1 @ zip (map fst bs) as)"
    by blast
  have "drop (Suc (length bs)) (al_queue l @ (n, a) # zip (map fst bs) as) =
      drop (length bs) (al_queue l1 @ zip (map fst bs) as)"
    using pos(2) l1(3) by (cases "al_queue l") auto
  then show ?case
    using l' l1 a b by (intro exI [of _ l'] exI [of _ "a # as"]) auto
qed

lemma sum_list_rotate1: "sum_list (rotate1 xs) = sum_list (xs :: nat list)"
  by (cases xs) simp_all

lemma load_value_queue: "al_inv q c l \<Longrightarrow> load_value l = sum_list (map fst (al_queue l))"
proof -
  assume "al_inv q c l"
  moreover have "sum_list (rotate m xs) = sum_list xs" for m and xs :: "nat list"
    by (induction m) (simp_all add: sum_list_rotate1)
  ultimately show ?thesis by (simp add: al_inv_def al_queue_def rotate_map [symmetric] del: rotate_Suc)
qed

text \<open>
  C19: The load of a thread is a sliding sum. After a reset, however full the window was, appending the
  blocks of the thread never panics, as long as no sum of a whole window can overflow; the load is
  ready exactly when as many blocks as the window holds were appended, and then it is the sum of the queue
  lengths of the last blocks, no earlier block counted.
\<close>

theorem load_is_sliding_sum:
  assumes "al_inv q c l" and "blocks_le q c bs"
  shows "\<exists>l'. append_blocks bs (al_reset l) = Ok l' \<and> al_inv q c l' \<and>
    (al_is_filled l' \<longleftrightarrow> al_window_size l \<le> length bs) \<and>
    (al_is_filled l' \<longrightarrow> load_value l' = sum_list (map fst (drop (length bs - al_window_size l) bs)))"
proof -
  let ?r = "al_reset l"
  have "appended 0 ?r"
    using assms(1) by (auto simp: appended_def al_reset_def al_inv_def)
  from append_blocks_queue [OF al_inv_reset [OF assms(1)] assms(2) this] obtain l' as where
    l': "append_blocks bs ?r = Ok l'" "al_inv q c l'" "al_window_size l' = al_window_size ?r"
      "appended (length bs) l'" "list_all2 (\<lambda>(n, dapps, ms) a. accounts_new_from dapps ms = Ok a) bs as"
      "al_queue l' = drop (length bs) (al_queue ?r @ zip (map fst bs) as)"
    by auto
  have size: "al_window_size ?r = al_window_size l" by (simp add: al_reset_def)
  have len: "length as = length bs" "length (al_queue ?r) = al_window_size l"
    using l'(5) assms(1) by (auto simp: list_all2_lengthD al_queue_def al_inv_def al_reset_def)
  have "load_value l' = sum_list (map fst (drop (length bs - al_window_size l) bs))" if "al_window_size l \<le> length bs"
    using load_value_queue [OF l'(2)] l'(6) len that by (simp add: drop_map [symmetric] drop_zip)
  then show ?thesis using l' size by (auto simp: appended_def)
qed

theorem load_is_sliding_sum_witness:
  "\<exists>l'. append_blocks [(4, [], []), (7, [], []), (1, [], [])] (al_reset (aggregated_load_new 2)) = Ok l' \<and>
     al_is_filled l' \<and> load_value l' = 8"
proof -
  have "al_inv 9 9 (aggregated_load_new 2)" by (rule al_inv_new) simp_all
  moreover have "blocks_le 9 9 [(4, [], []), (7, [], []), (1, [], [])]" by (simp add: blocks_le_def)
  ultimately show ?thesis
    using load_is_sliding_sum [of 9 9 "aggregated_load_new 2" "[(4, [], []), (7, [], []), (1, [], [])]"]
    by (auto simp: aggregated_load_new_def)
qed

text \<open>
  A check above the threshold discards the statistics of the thread even when it leaves the thread as it is.
\<close>

lemma check_discards_statistics:
  assumes "lb_check ft block_id this t max_table_size s = Ok (r, s')" and "read_load s this = Inr n"
    and "sc_this_row (scan_table s this n t) \<noteq> None" and "length t \<le> max_table_size"
    and "lb_load_threshold s \<le> sc_max_load (scan_table s this n t)"
  shows "read_load s' this = Inl StatsAreNotReady"
proof -
  obtain row where "split_and_reset ft block_id this t max_table_size (scan_table s this n t) row s = Ok (r, s')"
    using assms by (auto simp: lb_check_def check_scanned_def split: if_splits)
  moreover obtain l where "hm_get (lb_thread_load_map s) this = Some l"
    using assms(2) by (auto simp: read_load_def split: option.splits)
  ultimately show ?thesis
    by (auto simp: split_and_reset_def read_load_def hm.get_ins al_reset_def)
qed

end
