(* ===== verification/Spec2Isabelle.thy ===== *)
theory Spec2Isabelle
  imports Authority_Switch Block_Processing Collected_Attestations Gossip_Node Thread_References Load_Balancing
begin

text \<open>Verification of the node.\<close>

end
